(* ===== verification/Prelude.thy ===== *)
theory Prelude
  imports Main "HOL-Library.Word"
begin

text \<open>
  Shared vocabulary of the development: the machine types of the C sources, the
  error numbers of the kernel, buffers as byte lists with the effect of \<open>memcpy\<close>
  and \<open>memset\<close> at an offset, big-endian values of byte strings, and the generic
  lemmas about them that the component theories use.
\<close>

unbundle bit_operations_syntax

section \<open>Machine types, error numbers and lemma collections\<close>

type_synonym byte = "8 word"
type_synonym bytes = "byte list"
type_synonym u16 = "16 word"
type_synonym u32 = "32 word"
type_synonym u64 = "64 word"
type_synonym addr = nat

text \<open>\<open>buf_simps\<close> rewrites buffer accesses; \<open>be_simps\<close> evaluates big-endian values.\<close>

named_theorems buf_simps \<open>reads, writes and lengths of buffers\<close>
named_theorems be_simps \<open>big-endian values of byte strings\<close>

abbreviation EIO :: int where "EIO \<equiv> 5"
abbreviation ENOENT :: int where "ENOENT \<equiv> 2"
abbreviation ENOMEM :: int where "ENOMEM \<equiv> 12"
abbreviation EFAULT :: int where "EFAULT \<equiv> 14"
abbreviation EBUSY :: int where "EBUSY \<equiv> 16"
abbreviation EEXIST :: int where "EEXIST \<equiv> 17"
abbreviation ENODEV :: int where "ENODEV \<equiv> 19"
abbreviation EINVAL :: int where "EINVAL \<equiv> 22"
abbreviation ENOSPC :: int where "ENOSPC \<equiv> 28"
abbreviation EPIPE :: int where "EPIPE \<equiv> 32"

abbreviation PAGE_SIZE :: nat where "PAGE_SIZE \<equiv> 4096"

section \<open>Buffers\<close>

text \<open>\<open>memcpy (buf + off) data\<close> and \<open>memset (buf + off) v n\<close>, inside the buffer.\<close>

definition mem_write :: "'a list \<Rightarrow> nat \<Rightarrow> 'a list \<Rightarrow> 'a list" where
  "mem_write buf off data = take off buf @ data @ drop (off + length data) buf"

definition mem_read :: "'a list \<Rightarrow> nat \<Rightarrow> nat \<Rightarrow> 'a list" where
  "mem_read buf off n = take n (drop off buf)"

definition mem_set :: "'a list \<Rightarrow> nat \<Rightarrow> 'a \<Rightarrow> nat \<Rightarrow> 'a list" where
  "mem_set buf off v n = mem_write buf off (replicate n v)"

definition xor_bytes :: "bytes \<Rightarrow> bytes \<Rightarrow> bytes" where
  "xor_bytes xs ys = map2 (XOR) xs ys"

lemma length_mem_write [simp, buf_simps]:
  "off + length data \<le> length buf \<Longrightarrow> length (mem_write buf off data) = length buf"
  by (simp add: mem_write_def)

lemma length_mem_set [simp, buf_simps]:
  "off + n \<le> length buf \<Longrightarrow> length (mem_set buf off v n) = length buf"
  by (simp add: mem_set_def)

lemma length_mem_read [simp, buf_simps]:
  "off + n \<le> length buf \<Longrightarrow> length (mem_read buf off n) = n"
  by (simp add: mem_read_def)

lemma mem_read_write_same [simp, buf_simps]:
  "off + length data \<le> length buf \<Longrightarrow>
   mem_read (mem_write buf off data) off (length data) = data"
  by (simp add: mem_read_def mem_write_def)

lemma nth_mem_write:
  "off + length data \<le> length buf \<Longrightarrow> i < length buf \<Longrightarrow>
   mem_write buf off data ! i =
     (if off \<le> i \<and> i < off + length data then data ! (i - off) else buf ! i)"
  by (auto simp: mem_write_def nth_append min_def)

lemma nth_mem_set:
  "off + n \<le> length buf \<Longrightarrow> i < length buf \<Longrightarrow>
   mem_set buf off v n ! i = (if off \<le> i \<and> i < off + n then v else buf ! i)"
  by (auto simp: mem_set_def nth_mem_write)

lemma mem_write_write_same [simp, buf_simps]:
  "off + length xs \<le> length buf \<Longrightarrow> length ys = length xs \<Longrightarrow>
   mem_write (mem_write buf off xs) off ys = mem_write buf off ys"
  by (simp add: mem_write_def)

lemma take_mem_write_prefix [simp, buf_simps]:
  "length data \<le> length buf \<Longrightarrow> take (length data) (mem_write buf 0 data) = data"
  by (simp add: mem_write_def)

lemma mem_write_append:
  "off + length xs + length ys \<le> length buf \<Longrightarrow>
   mem_write (mem_write buf off xs) (off + length xs) ys = mem_write buf off (xs @ ys)"
  by (simp add: mem_write_def ac_simps)

lemma mem_read_write_after:
  "off + length xs \<le> off' \<Longrightarrow> off' \<le> length buf \<Longrightarrow> mem_read (mem_write buf off xs) off' n = mem_read buf off' n"
  by (simp add: mem_read_def mem_write_def)

lemma mem_write_Nil [simp]: "mem_write buf off [] = buf"
  by (simp add: mem_write_def)

lemma length_xor_bytes [simp, buf_simps]:
  "length (xor_bytes xs ys) = min (length xs) (length ys)"
  by (simp add: xor_bytes_def)

lemma nth_xor_bytes [simp]:
  "i < length xs \<Longrightarrow> i < length ys \<Longrightarrow> xor_bytes xs ys ! i = xs ! i XOR ys ! i"
  by (simp add: xor_bytes_def)

lemma xor_bytes_append:
  "length xs = length ys \<Longrightarrow>
   xor_bytes (xs @ xs') (ys @ ys') = xor_bytes xs ys @ xor_bytes xs' ys'"
  by (simp add: xor_bytes_def)

lemma xor_bytes_Nil [simp]: "xor_bytes [] ys = []" "xor_bytes xs [] = []"
  by (simp_all add: xor_bytes_def)

lemma xor_bytes_Cons [simp]:
  "xor_bytes (x # xs) (y # ys) = (x XOR y) # xor_bytes xs ys"
  by (simp add: xor_bytes_def)

lemma xor_bytes_commute: "xor_bytes xs ys = xor_bytes ys xs"
proof (induction xs arbitrary: ys)
  case (Cons x xs)
  then show ?case by (cases ys) (simp_all add: xor.commute)
qed simp

text \<open>XOR with the same key stream twice is the identity.\<close>

lemma xor_bytes_cancel [simp]:
  "length xs \<le> length ks \<Longrightarrow> xor_bytes (xor_bytes xs ks) ks = xs"
  by (rule nth_equalityI) (simp_all add: xor.assoc)

lemma take_xor_bytes: "take n (xor_bytes xs ys) = xor_bytes (take n xs) (take n ys)"
  by (simp add: xor_bytes_def take_map take_zip)

lemma drop_xor_bytes: "drop n (xor_bytes xs ys) = xor_bytes (drop n xs) (drop n ys)"
  by (simp add: xor_bytes_def drop_map drop_zip)

lemma xor_bytes_take2: "xor_bytes xs (take (length xs) ys) = xor_bytes xs ys"
  by (rule nth_equalityI) auto

section \<open>Big-endian values\<close>

text \<open>The value of a big-endian byte string, and the \<open>n\<close>-byte string of a value.\<close>

definition be_nat :: "bytes \<Rightarrow> nat" where
  "be_nat bs = foldl (\<lambda>v b. v * 256 + unat b) 0 bs"

fun nat_be :: "nat \<Rightarrow> nat \<Rightarrow> bytes" where
  "nat_be 0 v = []"
| "nat_be (Suc n) v = nat_be n (v div 256) @ [word_of_nat v]"

lemma be_nat_Nil [simp, be_simps]: "be_nat [] = 0"
  by (simp add: be_nat_def)

lemma be_nat_snoc [be_simps]: "be_nat (bs @ [b]) = be_nat bs * 256 + unat b"
  by (simp add: be_nat_def)

lemma be_nat_append: "be_nat (xs @ ys) = be_nat xs * 256 ^ length ys + be_nat ys"
proof (induction ys rule: rev_induct)
  case (snoc y ys)
  have "be_nat (xs @ ys @ [y]) = be_nat ((xs @ ys) @ [y])" by simp
  with snoc show ?case by (simp only: be_nat_snoc) (simp add: algebra_simps)
qed simp

lemma be_nat_bound: "be_nat bs < 256 ^ length bs"
proof (induction bs rule: rev_induct)
  case (snoc b bs)
  have "unat b < 256" using unsigned_less [of b] by simp
  with snoc show ?case by (simp add: be_nat_snoc)
qed simp

lemma length_nat_be [simp, buf_simps]: "length (nat_be n v) = n"
  by (induction n arbitrary: v) simp_all

lemma be_nat_nat_be: "be_nat (nat_be n v) = v mod 256 ^ n"
proof (induction n arbitrary: v)
  case (Suc n)
  have "unat (word_of_nat v :: byte) = v mod 256"
    by (simp add: unat_of_nat)
  with Suc show ?case
    by (simp add: be_nat_snoc mod_mult2_eq mult.commute)
qed simp

lemma nat_be_be_nat [simp]: "nat_be (length bs) (be_nat bs) = bs"
proof (induction bs rule: rev_induct)
  case (snoc b bs)
  have "unat b < 256" using unsigned_less [of b] by simp
  moreover have "(word_of_nat (be_nat bs * 256 + unat b) :: byte) = b"
  proof -
    have z: "(256 :: byte) = 0" by simp
    show ?thesis
      by (simp only: of_nat_add of_nat_mult of_nat_numeral z mult_zero_right add_0_left)
        simp
  qed
  ultimately show ?case using snoc by (simp add: be_nat_snoc)
qed simp

lemma be_nat_inj: "length xs = length ys \<Longrightarrow> be_nat xs = be_nat ys \<Longrightarrow> xs = ys"
  by (metis nat_be_be_nat)

lemma nat_be_mod: "nat_be n (v mod 256 ^ n) = nat_be n v"
  by (rule be_nat_inj) (simp_all add: be_nat_nat_be)

lemma nat_be_append: "nat_be (m + n) v = nat_be m (v div 256 ^ n) @ nat_be n v"
proof (rule be_nat_inj)
  have "v mod 256 ^ (n + m) = 256 ^ n * (v div 256 ^ n mod 256 ^ m) + v mod 256 ^ n"
    by (simp add: power_add mod_mult2_eq)
  then show "be_nat (nat_be (m + n) v) = be_nat (nat_be m (v div 256 ^ n) @ nat_be n v)"
    by (simp add: be_nat_nat_be be_nat_append add.commute)
qed simp

lemma be_nat_replicate_0 [simp]: "be_nat (replicate n 0) = 0"
  by (induction n) (simp_all add: be_nat_snoc flip: replicate_append_same)

lemma nat_be_0 [simp]: "nat_be n 0 = replicate n 0"
  by (rule be_nat_inj) (simp_all add: be_nat_nat_be)

text \<open>Adding one to a big-endian counter of fixed width, with wrap-around.\<close>

definition be_inc :: "bytes \<Rightarrow> bytes" where
  "be_inc bs = nat_be (length bs) (be_nat bs + 1)"

lemma length_be_inc [simp, buf_simps]: "length (be_inc bs) = length bs"
  by (simp add: be_inc_def)

lemma be_nat_be_inc: "be_nat (be_inc bs) = (be_nat bs + 1) mod 256 ^ length bs"
  by (simp add: be_inc_def be_nat_nat_be)

text \<open>The carry rule: a suffix absorbs the increment unless it wraps to zero.\<close>

lemma be_inc_append:
  "be_inc (xs @ ys) =
     (if be_nat ys + 1 < 256 ^ length ys then xs @ be_inc ys
      else be_inc xs @ replicate (length ys) 0)"
proof (cases "be_nat ys + 1 < 256 ^ length ys")
  case True
  then have "be_nat (xs @ be_inc ys) = be_nat (xs @ ys) + 1"
    by (simp add: be_nat_append be_nat_be_inc)
  moreover have "be_nat (xs @ ys) + 1 < 256 ^ (length xs + length ys)"
    using be_nat_bound [of "xs @ be_inc ys"] calculation by simp
  ultimately have "be_nat (be_inc (xs @ ys)) = be_nat (xs @ be_inc ys)"
    by (simp add: be_nat_be_inc)
  then show ?thesis using True by (simp add: be_nat_inj)
next
  case False
  with be_nat_bound [of ys] have eq: "be_nat ys + 1 = 256 ^ length ys" by simp
  then have "be_nat (xs @ ys) + 1 = (be_nat xs + 1) * 256 ^ length ys"
    by (simp add: be_nat_append algebra_simps)
  then have "be_nat (be_inc (xs @ ys)) =
      ((be_nat xs + 1) * 256 ^ length ys) mod (256 ^ length xs * 256 ^ length ys)"
    by (simp add: be_nat_be_inc power_add)
  also have "\<dots> = be_nat (be_inc xs @ replicate (length ys) 0)"
    by (simp only: mod_mult_mult2 be_nat_append be_nat_be_inc length_replicate
        be_nat_replicate_0 add_0_right)
  finally have "be_inc (xs @ ys) = be_inc xs @ replicate (length ys) 0"
    by (simp add: be_nat_inj)
  with False show ?thesis by simp
qed

section \<open>Counting in machine words\<close>

lemma unat_plus_1_less_iff:
  fixes b :: "'a::len word"
  shows "unat b + 1 < 2 ^ LENGTH('a) \<longleftrightarrow> b + 1 \<noteq> 0"
proof -
  have "unat b < 2 ^ LENGTH('a)" by (rule unsigned_less)
  then consider "unat b + 1 < 2 ^ LENGTH('a)" | "unat b + 1 = 2 ^ LENGTH('a)"
    by linarith
  moreover have "unat (b + 1) = (unat b + 1) mod 2 ^ LENGTH('a)"
    by (simp add: unat_word_ariths)
  moreover have "b + 1 = 0 \<longleftrightarrow> unat (b + 1) = 0" by (simp add: unat_eq_zero)
  ultimately show ?thesis by cases simp_all
qed

lemma word_less_plus_1:
  fixes b :: "'a::len word"
  assumes "b \<noteq> - 1"
  shows "b < b + 1" "unat (b + 1) = unat b + 1"
proof -
  have "b + 1 \<noteq> 0" using assms by (simp add: eq_neg_iff_add_eq_0)
  then have "unat b + 1 < 2 ^ LENGTH('a)" by (rule iffD2 [OF unat_plus_1_less_iff])
  then show "unat (b + 1) = unat b + 1" by (simp add: unat_word_ariths)
  then show "b < b + 1" by (simp add: word_less_nat_alt)
qed

end
