(* ===== verification/Ctr_Mode.thy ===== *)
theory Ctr_Mode
  imports Prelude
begin

text \<open>
  The kernel's counter mode: \<open>crypto_inc\<close> and \<open>crypto_xor\<close> of
  \<open>host/linux-3.0/crypto/algapi.c\<close> and the \<open>ctr\<close> template of
  \<open>host/linux-3.0/crypto/ctr.c\<close>, over one contiguous mapped segment (every caller in
  this system passes a scatterlist of one page). The block cipher under the template is
  a function on 16-byte blocks, given as \<open>128 word\<close> values. The theory shows that the
  counter routine is a 128-bit big-endian increment, that the word-wise XOR is the
  byte-wise one, and that the whole walk computes the abstract counter-mode stream
  \<open>ctr_out\<close> and \<open>ctr_next\<close>. The locale \<open>ctr_endpoint\<close> is the contract that
  both ends of an encrypted channel provide, and \<open>ctr_channel\<close> proves once that two
  such ends that start in step stay in step and recover every message.
\<close>

section \<open>Incrementing the counter block\<close>

fun crypto_inc_byte :: "bytes \<Rightarrow> nat \<Rightarrow> bytes" where
  "crypto_inc_byte a 0 = a"
| "crypto_inc_byte a (Suc sz) =
     (let c = a ! sz + 1; a' = a[sz := c]
      in if c \<noteq> 0 then a' else crypto_inc_byte a' sz)"

definition be32_to_cpu :: "bytes \<Rightarrow> u32" where
  "be32_to_cpu bs = word_of_nat (be_nat bs)"

definition cpu_to_be32 :: "u32 \<Rightarrow> bytes" where
  "cpu_to_be32 w = nat_be 4 (unat w)"

fun crypto_inc :: "bytes \<Rightarrow> nat \<Rightarrow> bytes" where
  "crypto_inc a sz =
     (if 4 \<le> sz then
        (let c = be32_to_cpu (mem_read a (sz - 4) 4) + 1;
             a' = mem_write a (sz - 4) (cpu_to_be32 c)
         in if c \<noteq> 0 then a' else crypto_inc a' (sz - 4))
      else crypto_inc_byte a sz)"

declare crypto_inc.simps [simp del]

lemma be_inc_single: "be_inc [b] = [b + 1]"
  by (simp add: be_inc_def be_nat_def)

lemma crypto_inc_byte_spec:
  "sz \<le> length a \<Longrightarrow> crypto_inc_byte a sz = be_inc (take sz a) @ drop sz a"
proof (induction sz arbitrary: a)
  case (Suc n)
  let ?c = "a ! n + 1"
  have split: "take (Suc n) a = take n a @ [a ! n]"
    using Suc.prems by (simp add: take_Suc_conv_app_nth)
  have wrap: "be_nat [a ! n] + 1 < 256 ^ length [a ! n] \<longleftrightarrow> ?c \<noteq> 0"
    using unat_plus_1_less_iff [of "a ! n"] by (simp add: be_nat_def)
  have upd: "a[n := ?c] = take n a @ ?c # drop (Suc n) a"
    using Suc.prems by (simp add: upd_conv_take_nth_drop)
  show ?case
  proof (cases "?c = 0")
    case True
    then have "crypto_inc_byte a (Suc n) = crypto_inc_byte (a[n := ?c]) n" by simp
    also have "\<dots> = be_inc (take n (a[n := ?c])) @ drop n (a[n := ?c])"
      using Suc.prems by (intro Suc.IH) simp
    also have "\<dots> = (be_inc (take n a) @ [?c]) @ drop (Suc n) a"
      using Suc.prems by (simp add: upd)
    also have "be_inc (take n a) @ [?c] = be_inc (take (Suc n) a)"
      using True wrap by (simp add: split be_inc_append)
    finally show ?thesis .
  next
    case False
    then show ?thesis
      using wrap by (simp add: split be_inc_append be_inc_single upd)
  qed
qed (simp add: be_inc_def)

lemma cpu_to_be32_inc:
  assumes "length ys = 4"
  shows "cpu_to_be32 (be32_to_cpu ys + 1) = be_inc ys"
    and "be_nat ys + 1 < 256 ^ 4 \<longleftrightarrow> be32_to_cpu ys + 1 \<noteq> 0"
proof -
  have b: "be_nat ys < 2 ^ 32" using be_nat_bound [of ys] assms by simp
  then have u: "unat (be32_to_cpu ys) = be_nat ys"
    by (simp add: be32_to_cpu_def unat_of_nat)
  then show "be_nat ys + 1 < 256 ^ 4 \<longleftrightarrow> be32_to_cpu ys + 1 \<noteq> 0"
    using unat_plus_1_less_iff [of "be32_to_cpu ys"] by simp
  have "unat (be32_to_cpu ys + 1) = (be_nat ys + 1) mod 256 ^ 4"
    by (simp add: unat_word_ariths u)
  then show "cpu_to_be32 (be32_to_cpu ys + 1) = be_inc ys"
    by (simp only: cpu_to_be32_def be_inc_def assms nat_be_mod)
qed

lemma crypto_inc_spec:
  "sz \<le> length a \<Longrightarrow> crypto_inc a sz = be_inc (take sz a) @ drop sz a"
proof (induction a sz rule: crypto_inc.induct)
  case (1 a sz)
  show ?case
  proof (cases "4 \<le> sz")
    case True
    define ys where "ys = mem_read a (sz - 4) 4"
    define a' where "a' = mem_write a (sz - 4) (cpu_to_be32 (be32_to_cpu ys + 1))"
    have ys: "length ys = 4" and split: "take sz a = take (sz - 4) a @ ys"
      using True "1.prems" by (simp_all add: ys_def mem_read_def flip: take_add)
    have a': "a' = take (sz - 4) a @ be_inc ys @ drop sz a"
      using True ys by (simp add: a'_def mem_write_def cpu_to_be32_inc)
    show ?thesis
    proof (cases "be32_to_cpu ys + 1 = 0")
      case False
      then have "crypto_inc a sz = a'"
        using True by (simp add: crypto_inc.simps [of a sz] ys_def a'_def)
      then show ?thesis
        using False ys cpu_to_be32_inc(2) [OF ys] by (simp add: a' split be_inc_append)
    next
      case z: True
      then have "be_inc ys = replicate 4 0"
        using ys by (metis cpu_to_be32_inc(1) cpu_to_be32_def nat_be_0 unsigned_0)
      moreover have "crypto_inc a sz = crypto_inc a' (sz - 4)"
        using True z by (simp add: crypto_inc.simps [of a sz] ys_def a'_def)
      moreover have "crypto_inc a' (sz - 4) =
          be_inc (take (sz - 4) a') @ drop (sz - 4) a'"
        using "1.IH" [OF True refl refl] True z "1.prems"
        by (simp add: ys_def a'_def cpu_to_be32_def)
      ultimately show ?thesis
        using True z ys "1.prems" cpu_to_be32_inc(2) [OF ys]
        by (simp add: a' split be_inc_append)
    qed
  next
    case False
    then show ?thesis
      using "1.prems" by (simp add: crypto_inc.simps [of a sz] crypto_inc_byte_spec)
  qed
qed

section \<open>XOR of buffers\<close>

fun crypto_xor_byte :: "bytes \<Rightarrow> bytes \<Rightarrow> nat \<Rightarrow> bytes" where
  "crypto_xor_byte (x # a) (y # b) (Suc sz) = (x XOR y) # crypto_xor_byte a b sz"
| "crypto_xor_byte a b sz = a"

definition le32 :: "byte \<Rightarrow> byte \<Rightarrow> byte \<Rightarrow> byte \<Rightarrow> u32" where
  "le32 b0 b1 b2 b3 =
     ucast b0 OR push_bit 8 (ucast b1) OR push_bit 16 (ucast b2) OR push_bit 24 (ucast b3)"

definition le32_bytes :: "u32 \<Rightarrow> bytes" where
  "le32_bytes w = [ucast w, ucast (drop_bit 8 w), ucast (drop_bit 16 w), ucast (drop_bit 24 w)]"

fun crypto_xor :: "bytes \<Rightarrow> bytes \<Rightarrow> nat \<Rightarrow> bytes" where
  "crypto_xor (a0 # a1 # a2 # a3 # a) (b0 # b1 # b2 # b3 # b) (Suc (Suc (Suc (Suc sz)))) =
     le32_bytes (le32 a0 a1 a2 a3 XOR le32 b0 b1 b2 b3) @ crypto_xor a b sz"
| "crypto_xor dst src sz = crypto_xor_byte dst src sz"

lemma le32_bytes_xor:
  "le32_bytes (le32 a0 a1 a2 a3 XOR le32 b0 b1 b2 b3) =
     [a0 XOR b0, a1 XOR b1, a2 XOR b2, a3 XOR b3]"
proof -
  have out: "\<not> bit b (8 + n)" "\<not> bit b (16 + n)" "\<not> bit b (24 + n)" for b :: byte and n
    by (auto dest: bit_imp_le_length)
  show ?thesis
    by (auto simp: le32_bytes_def le32_def intro!: bit_word_eqI)
      (auto simp: bit_simps out)
qed

lemma crypto_xor_byte_spec:
  "sz \<le> length dst \<Longrightarrow> sz \<le> length src \<Longrightarrow>
   crypto_xor_byte dst src sz = xor_bytes (take sz dst) src @ drop sz dst"
  by (induction dst src sz rule: crypto_xor_byte.induct) auto

lemma crypto_xor_spec:
  "sz \<le> length dst \<Longrightarrow> sz \<le> length src \<Longrightarrow>
   crypto_xor dst src sz = xor_bytes (take sz dst) src @ drop sz dst"
  by (induction dst src sz rule: crypto_xor.induct)
    (auto simp: le32_bytes_xor crypto_xor_byte_spec)

section \<open>The counter-mode template\<close>

text \<open>
  The underlying cipher is code outside the template (\<open>crypto_cipher_encrypt_one\<close>): a
  function on 128-bit blocks. \<open>enc_block\<close> reads and writes the block as 16 bytes.
\<close>

type_synonym block_cipher = "128 word \<Rightarrow> 128 word"

abbreviation (input) bsize :: nat where "bsize \<equiv> 16"

definition enc_block :: "block_cipher \<Rightarrow> bytes \<Rightarrow> bytes" where
  "enc_block E b = nat_be 16 (unat (E (word_of_nat (be_nat b))))"

lemma length_enc_block [simp]: "length (enc_block E b) = 16"
  by (simp add: enc_block_def)

definition crypto_ctr_crypt_final :: "block_cipher \<Rightarrow> bytes \<Rightarrow> bytes \<Rightarrow> bytes \<times> bytes" where
  "crypto_ctr_crypt_final E ctrblk src =
     (let keystream = crypto_xor (enc_block E ctrblk) src (length src)
      in (crypto_inc ctrblk bsize, take (length src) keystream))"

text \<open>The result of a segment is the counter block, the bytes written and the bytes left over.\<close>

function crypto_ctr_crypt_segment ::
  "block_cipher \<Rightarrow> bytes \<Rightarrow> bytes \<Rightarrow> bytes \<times> bytes \<times> bytes" where
  "crypto_ctr_crypt_segment E ctrblk src =
     (let dst = crypto_xor (enc_block E ctrblk) src bsize;
          ctrblk' = crypto_inc ctrblk bsize;
          rest = drop bsize src
      in if bsize \<le> length rest
         then (let (c, out, left) = crypto_ctr_crypt_segment E ctrblk' rest in (c, dst @ out, left))
         else (ctrblk', dst, rest))"
  by pat_completeness auto
termination by (relation "measure (\<lambda>(E, c, src). length src)") auto

function crypto_ctr_crypt_inplace ::
  "block_cipher \<Rightarrow> bytes \<Rightarrow> bytes \<Rightarrow> bytes \<times> bytes \<times> bytes" where
  "crypto_ctr_crypt_inplace E ctrblk src =
     (let keystream = enc_block E ctrblk;
          dst = crypto_xor (take bsize src) keystream bsize;
          ctrblk' = crypto_inc ctrblk bsize;
          rest = drop bsize src
      in if bsize \<le> length rest
         then (let (c, out, left) = crypto_ctr_crypt_inplace E ctrblk' rest in (c, dst @ out, left))
         else (ctrblk', dst, rest))"
  by pat_completeness auto
termination by (relation "measure (\<lambda>(E, c, src). length src)") auto

declare crypto_ctr_crypt_segment.simps [simp del] crypto_ctr_crypt_inplace.simps [simp del]

definition crypto_ctr_crypt ::
  "block_cipher \<Rightarrow> bool \<Rightarrow> bytes \<Rightarrow> bytes \<Rightarrow> bytes \<times> bytes" where
  "crypto_ctr_crypt E inplace iv src =
     (let (iv1, out, left) =
            (if bsize \<le> length src
             then (if inplace then crypto_ctr_crypt_inplace E iv src
                   else crypto_ctr_crypt_segment E iv src)
             else (iv, [], src))
      in if left \<noteq> []
         then (let (iv2, out') = crypto_ctr_crypt_final E iv1 left in (iv2, out @ out'))
         else (iv1, out))"

section \<open>The abstract stream\<close>

primrec ctr_keystream :: "block_cipher \<Rightarrow> bytes \<Rightarrow> nat \<Rightarrow> bytes" where
  "ctr_keystream E iv 0 = []"
| "ctr_keystream E iv (Suc n) = enc_block E iv @ ctr_keystream E (be_inc iv) n"

definition ctr_blocks :: "nat \<Rightarrow> nat" where
  "ctr_blocks n = (n + 15) div 16"

definition ctr_out :: "block_cipher \<Rightarrow> bytes \<Rightarrow> bytes \<Rightarrow> bytes" where
  "ctr_out E iv src = xor_bytes src (ctr_keystream E iv (ctr_blocks (length src)))"

definition ctr_next :: "bytes \<Rightarrow> nat \<Rightarrow> bytes" where
  "ctr_next iv n = (be_inc ^^ ctr_blocks n) iv"

lemma length_ctr_keystream [simp]: "length (ctr_keystream E iv n) = 16 * n"
  by (induction n arbitrary: iv) auto

lemma length_ctr_out [simp]: "length (ctr_out E iv src) = length src"
  by (simp add: ctr_out_def ctr_blocks_def)

lemma length_funpow_be_inc [simp]: "length ((be_inc ^^ n) iv) = length iv"
  by (induction n) auto

lemma length_ctr_next [simp]: "length (ctr_next iv n) = length iv"
  by (simp add: ctr_next_def)

lemma ctr_blocks_0 [simp]: "ctr_blocks 0 = 0"
  by (simp add: ctr_blocks_def)

lemma ctr_out_Nil [simp]: "ctr_out E iv [] = []"
  by (simp add: ctr_out_def)

lemma ctr_next_0 [simp]: "ctr_next iv 0 = iv"
  by (simp add: ctr_next_def)

lemma ctr_blocks_step: "16 \<le> n \<Longrightarrow> ctr_blocks n = Suc (ctr_blocks (n - 16))"
  by (simp add: ctr_blocks_def)

lemma ctr_blocks_last: "0 < n \<Longrightarrow> n \<le> 16 \<Longrightarrow> ctr_blocks n = Suc 0"
  by (simp add: ctr_blocks_def)

lemma ctr_next_step: "16 \<le> n \<Longrightarrow> ctr_next iv n = ctr_next (be_inc iv) (n - 16)"
  by (simp add: ctr_next_def ctr_blocks_step funpow_swap1)

lemma ctr_next_last: "0 < n \<Longrightarrow> n \<le> 16 \<Longrightarrow> ctr_next iv n = be_inc iv"
  by (simp add: ctr_next_def ctr_blocks_last)

lemma ctr_out_step:
  assumes "16 \<le> length src"
  shows "ctr_out E iv src =
    xor_bytes (take 16 src) (enc_block E iv) @ ctr_out E (be_inc iv) (drop 16 src)"
proof -
  have "ctr_out E iv src = xor_bytes (take 16 src @ drop 16 src)
      (enc_block E iv @ ctr_keystream E (be_inc iv) (ctr_blocks (length src - 16)))"
    using assms by (simp add: ctr_out_def ctr_blocks_step)
  then show ?thesis
    using assms by (subst (asm) xor_bytes_append) (simp_all add: ctr_out_def)
qed

lemma ctr_out_last:
  "src \<noteq> [] \<Longrightarrow> length src \<le> 16 \<Longrightarrow> ctr_out E iv src = xor_bytes src (enc_block E iv)"
  by (simp add: ctr_out_def ctr_blocks_last)

lemma ctr_out_involutive [simp]: "ctr_out E iv (ctr_out E iv src) = src"
  by (simp add: ctr_out_def ctr_blocks_def xor_bytes_cancel)

text \<open>A message cut on a block boundary is processed as one stream.\<close>

lemma ctr_append_blocks:
  "length a = 16 * k \<Longrightarrow>
   ctr_out E iv (a @ b) = ctr_out E iv a @ ctr_out E (ctr_next iv (length a)) b
   \<and> ctr_next iv (length a + n) = ctr_next (ctr_next iv (length a)) n"
proof (induction k arbitrary: iv a)
  case (Suc k)
  then have "length (drop 16 a) = 16 * k" by simp
  from Suc.IH [OF this, of "be_inc iv"] Suc.prems show ?case
    by (simp add: ctr_out_step [of "a @ b"] ctr_out_step [of a] ctr_next_step [of "length a"]
        ctr_next_step [of "length a + n"] ctr_next_step [of "16 + 16 * k"] ctr_next_step [of "16 + 16 * k + n"])
qed simp

lemma ctr_out_append:
  "16 dvd length a \<Longrightarrow>
   ctr_out E iv (a @ b) = ctr_out E iv a @ ctr_out E (ctr_next iv (length a)) b"
  by (metis ctr_append_blocks dvdE)

lemma ctr_next_append:
  "16 dvd n \<Longrightarrow> ctr_next iv (n + n') = ctr_next (ctr_next iv n) n'"
  using ctr_append_blocks [of "replicate n 0" "n div 16"] by simp

lemma crypto_inc_block: "length iv = 16 \<Longrightarrow> crypto_inc iv bsize = be_inc iv"
  by (simp add: crypto_inc_spec)

section \<open>The template computes the stream\<close>

text \<open>
  \<open>ctr_finish\<close> is the tail of \<open>crypto_ctr_crypt\<close> after the whole blocks. Both segment
  routines, finished this way, give the stream of the whole source.
\<close>

fun ctr_finish :: "block_cipher \<Rightarrow> bytes \<times> bytes \<times> bytes \<Rightarrow> bytes \<times> bytes" where
  "ctr_finish E (iv1, out, left) =
     (if left \<noteq> []
      then (let (iv2, out') = crypto_ctr_crypt_final E iv1 left in (iv2, out @ out'))
      else (iv1, out))"

lemma crypto_ctr_crypt_final_spec:
  assumes "length iv = 16" "length src \<le> 16"
  shows "crypto_ctr_crypt_final E iv src = (be_inc iv, xor_bytes src (enc_block E iv))"
proof -
  have "take (length src) (crypto_xor (enc_block E iv) src (length src)) =
      xor_bytes (take (length src) (enc_block E iv)) src"
    using assms by (simp add: crypto_xor_spec)
  also have "\<dots> = xor_bytes src (enc_block E iv)"
    by (metis xor_bytes_commute xor_bytes_take2)
  finally show ?thesis
    using assms by (simp add: crypto_ctr_crypt_final_def crypto_inc_block)
qed

lemma ctr_finish_last:
  assumes "length iv = 16" "length left < 16"
  shows "ctr_finish E (iv, out, left) = (ctr_next iv (length left), out @ ctr_out E iv left)"
  using assms
  by (cases "left = []") (simp_all add: crypto_ctr_crypt_final_spec ctr_next_last ctr_out_last)

lemma ctr_finish_append:
  "ctr_finish E (c, out0 @ out, left) =
     (let (iv', o') = ctr_finish E (c, out, left) in (iv', out0 @ o'))"
  by (simp split: prod.split)

lemma crypto_xor_block:
  assumes "16 \<le> length src"
  shows "crypto_xor (enc_block E iv) src bsize = xor_bytes (take bsize src) (enc_block E iv)"
    and "crypto_xor (take bsize src) (enc_block E iv) bsize =
      xor_bytes (take bsize src) (enc_block E iv)"
  using assms
  by (simp_all add: crypto_xor_spec)
    (metis length_enc_block order_refl take_all xor_bytes_commute xor_bytes_take2 length_take min.absorb2)

lemma crypto_ctr_crypt_segment_spec:
  "length iv = 16 \<Longrightarrow> 16 \<le> length src \<Longrightarrow>
   ctr_finish E (crypto_ctr_crypt_segment E iv src) = (ctr_next iv (length src), ctr_out E iv src)"
proof (induction E iv src rule: crypto_ctr_crypt_segment.induct)
  case (1 E iv src)
  show ?case
  proof (cases "16 \<le> length (drop 16 src)")
    case True
    obtain c out left where r:
      "crypto_ctr_crypt_segment E (be_inc iv) (drop 16 src) = (c, out, left)"
      by (metis prod_cases3)
    have "ctr_finish E (c, out, left) =
        (ctr_next (be_inc iv) (length (drop 16 src)), ctr_out E (be_inc iv) (drop 16 src))"
      using "1.IH" [OF refl refl refl True] "1.prems" True by (simp add: crypto_inc_block r)
    then show ?thesis
      using True "1.prems"
      by (simp add: crypto_ctr_crypt_segment.simps [of E iv src] crypto_inc_block r ctr_finish_append
          crypto_xor_block ctr_out_step [of src] ctr_next_step [of "length src"] del: ctr_finish.simps)
  next
    case False
    then show ?thesis
      using "1.prems"
      by (simp add: crypto_ctr_crypt_segment.simps [of E iv src] crypto_inc_block ctr_finish_last
          crypto_xor_block ctr_out_step [of src] ctr_next_step [of "length src"] del: ctr_finish.simps)
  qed
qed

text \<open>In place or not, the bytes written are the same.\<close>

lemma crypto_ctr_crypt_inplace_eq_segment:
  "16 \<le> length src \<Longrightarrow> crypto_ctr_crypt_inplace E iv src = crypto_ctr_crypt_segment E iv src"
proof (induction E iv src rule: crypto_ctr_crypt_segment.induct)
  case (1 E iv src)
  then show ?case
    by (simp add: crypto_ctr_crypt_segment.simps [of E iv src]
        crypto_ctr_crypt_inplace.simps [of E iv src] crypto_xor_block Let_def)
qed

lemma crypto_ctr_crypt_spec:
  assumes "length iv = 16"
  shows "crypto_ctr_crypt E inplace iv src = (ctr_next iv (length src), ctr_out E iv src)"
proof -
  have "crypto_ctr_crypt E inplace iv src =
      ctr_finish E (if 16 \<le> length src then crypto_ctr_crypt_segment E iv src else (iv, [], src))"
    by (simp add: crypto_ctr_crypt_def crypto_ctr_crypt_inplace_eq_segment split: prod.split)
  then show ?thesis
    using assms by (simp add: crypto_ctr_crypt_segment_spec ctr_finish_last del: ctr_finish.simps)
qed

section \<open>What each end of a channel promises\<close>

text \<open>
  An endpoint holds a keyed cipher and a counter block in its state, and processes one
  message at a time. The contract is the abstract stream; the kernel's context and the
  user-space AES-NI context are both instances.
\<close>

primrec crypt_list :: "('s \<Rightarrow> bytes \<Rightarrow> 's \<times> bytes) \<Rightarrow> 's \<Rightarrow> bytes list \<Rightarrow> 's \<times> bytes list" where
  "crypt_list crypt s [] = (s, [])"
| "crypt_list crypt s (m # ms) =
     (let (s1, c) = crypt s m; (s2, cs) = crypt_list crypt s1 ms in (s2, c # cs))"

locale ctr_endpoint =
  fixes crypt :: "'s \<Rightarrow> bytes \<Rightarrow> 's \<times> bytes"
    and cipher_of :: "'s \<Rightarrow> block_cipher"
    and iv_of :: "'s \<Rightarrow> bytes"
    and ready :: "'s \<Rightarrow> bool"
    and fits :: "bytes \<Rightarrow> bool"
  assumes crypt_out: "ready s \<Longrightarrow> fits m \<Longrightarrow> snd (crypt s m) = ctr_out (cipher_of s) (iv_of s) m"
    and crypt_iv: "ready s \<Longrightarrow> fits m \<Longrightarrow> iv_of (fst (crypt s m)) = ctr_next (iv_of s) (length m)"
    and crypt_cipher: "ready s \<Longrightarrow> fits m \<Longrightarrow> cipher_of (fst (crypt s m)) = cipher_of s"
    and crypt_ready: "ready s \<Longrightarrow> fits m \<Longrightarrow> ready (fst (crypt s m))"
    and fits_length: "fits m \<Longrightarrow> length m = length m' \<Longrightarrow> fits m'"
begin

lemma crypt_list_ready:
  "ready s \<Longrightarrow> list_all fits ms \<Longrightarrow> ready (fst (crypt_list crypt s ms))"
  by (induction ms arbitrary: s) (simp_all add: crypt_ready case_prod_beta Let_def)

lemma length_crypt: "ready s \<Longrightarrow> fits m \<Longrightarrow> length (snd (crypt s m)) = length m"
  by (simp add: crypt_out)

end

locale ctr_channel =
  a: ctr_endpoint crypt_a cipher_a iv_a ready_a fits_a +
  b: ctr_endpoint crypt_b cipher_b iv_b ready_b fits_b
  for crypt_a :: "'a \<Rightarrow> bytes \<Rightarrow> 'a \<times> bytes"
    and cipher_a iv_a ready_a fits_a
    and crypt_b :: "'b \<Rightarrow> bytes \<Rightarrow> 'b \<times> bytes"
    and cipher_b iv_b ready_b fits_b +
  assumes fits_ab: "fits_a m \<Longrightarrow> fits_b m"
begin

definition in_step :: "'a \<Rightarrow> 'b \<Rightarrow> bool" where
  "in_step s t \<longleftrightarrow> ready_a s \<and> ready_b t \<and> cipher_a s = cipher_b t \<and> iv_a s = iv_b t"

lemma recover:
  assumes "in_step s t" "fits_a m"
  shows "snd (crypt_b t (snd (crypt_a s m))) = m"
    and "in_step (fst (crypt_a s m)) (fst (crypt_b t (snd (crypt_a s m))))"
proof -
  have len: "length (snd (crypt_a s m)) = length m"
    using assms by (simp add: in_step_def a.length_crypt)
  have fb: "fits_b (snd (crypt_a s m))"
    using assms(2) fits_ab len by (metis b.fits_length)
  show "snd (crypt_b t (snd (crypt_a s m))) = m"
    using assms fb by (simp add: in_step_def b.crypt_out) (simp add: a.crypt_out)
  show "in_step (fst (crypt_a s m)) (fst (crypt_b t (snd (crypt_a s m))))"
    using assms fb len
    by (simp add: in_step_def a.crypt_ready b.crypt_ready a.crypt_cipher b.crypt_cipher
        a.crypt_iv b.crypt_iv)
qed

lemma recover_list:
  "in_step s t \<Longrightarrow> list_all fits_a ms \<Longrightarrow>
   snd (crypt_list crypt_b t (snd (crypt_list crypt_a s ms))) = ms
   \<and> in_step (fst (crypt_list crypt_a s ms)) (fst (crypt_list crypt_b t (snd (crypt_list crypt_a s ms))))"
proof (induction ms arbitrary: s t)
  case (Cons m ms)
  then have step: "in_step (fst (crypt_a s m)) (fst (crypt_b t (snd (crypt_a s m))))"
      "snd (crypt_b t (snd (crypt_a s m))) = m"
    by (simp_all add: recover)
  show ?case
    using Cons.IH [OF step(1)] Cons.prems step(2) by (simp add: case_prod_beta Let_def)
qed simp

end

section \<open>Properties\<close>

text \<open>
  C13. In place or not, the kernel's counter-mode walk over a mapped segment computes the
  abstract stream: each byte is XORed with the keystream of successive big-endian counter
  values, the final partial block uses a prefix of one more keystream block, and the
  counter block left in the walk has advanced by one per started block.
\<close>

theorem ctr_crypt_is_stream:
  assumes "length iv = 16"
  shows "crypto_ctr_crypt E inplace iv src = (ctr_next iv (length src), ctr_out E iv src)"
  using assms by (rule crypto_ctr_crypt_spec)

theorem ctr_crypt_is_stream_witness:
  "crypto_ctr_crypt (\<lambda>b. b) True (replicate 16 0) [1, 2, 3] =
     (ctr_next (replicate 16 0) 3, ctr_out (\<lambda>b. b) (replicate 16 0) [1, 2, 3])"
  using ctr_crypt_is_stream [of "replicate 16 0" "\<lambda>b. b" True "[1, 2, 3]"]
  by (simp add: numeral_3_eq_3)

end
