(* ===== verification/Priv_Crypto.thy ===== *)
theory Priv_Crypto
  imports Ctr_Mode
begin

text \<open>
  The kernel's cryptographic contexts, \<open>host/linux-3.0/drivers/priv/crypto.c\<close> with the
  structure of \<open>drivers/priv/priv_crypt_int.h\<close>: creation, key and IV setting, the
  page-wise encryption loop, activation and destruction. The outcome of each allocation
  is an argument (\<open>alloc_env\<close>). AES itself is the parameter \<open>aes\<close>, from a key to a
  function on blocks. The theory shows that a context stays well formed, that the
  page-wise loop computes one uninterrupted stream, and what destruction leaves in the
  freed memory.
\<close>

section \<open>Constants and data\<close>

abbreviation MAX_KEY_LEN :: nat where "MAX_KEY_LEN \<equiv> 64"
abbreviation MAX_IV_LEN :: nat where "MAX_IV_LEN \<equiv> 64"
abbreviation (input) MAX_KEX_MSG_LEN :: nat where "MAX_KEX_MSG_LEN \<equiv> 4096"
abbreviation (input) PRIV_CRYPT_ALG_AES_CTR :: u32 where "PRIV_CRYPT_ALG_AES_CTR \<equiv> 1"
abbreviation (input) PRIV_CRYPT_DIR_ENC :: byte where "PRIV_CRYPT_DIR_ENC \<equiv> 1"
abbreviation (input) PRIV_CRYPT_DIR_DEC :: byte where "PRIV_CRYPT_DIR_DEC \<equiv> 2"

type_synonym aes_fn = "bytes \<Rightarrow> block_cipher"

text \<open>A \<open>crypto_blkcipher\<close> transform: the key of the child cipher and the running counter block.\<close>

record blkcipher =
  tfm_key :: bytes
  tfm_iv :: bytes

record priv_crypt_ctx =
  cx_id :: u32
  cx_alloc_pid :: int
  cx_user_lock :: bool
  cx_user_ref :: "addr option"
  cx_kex_buf :: bytes
  cx_cipher :: "blkcipher option"
  cx_crypto_pg_mem :: bytes
  cx_activated :: int
  cx_dir :: byte
  cx_key :: bytes
  cx_key_size :: nat
  cx_iv :: bytes
  cx_iv_size :: nat

text \<open>What the allocator and the crypto layer answer during one call to \<open>make_crypto_ctx\<close>.\<close>

record alloc_env =
  ev_ctx :: bool
  ev_cipher_err :: "int option"
  ev_page :: "bytes option"
  ev_kex_buf :: "bytes option"

definition kzalloc_ctx :: priv_crypt_ctx where
  "kzalloc_ctx = \<lparr>cx_id = 0, cx_alloc_pid = 0, cx_user_lock = False, cx_user_ref = None,
     cx_kex_buf = [], cx_cipher = None, cx_crypto_pg_mem = [], cx_activated = 0, cx_dir = 0,
     cx_key = replicate MAX_KEY_LEN 0, cx_key_size = 0, cx_iv = replicate MAX_IV_LEN 0,
     cx_iv_size = 0\<rparr>"

section \<open>The block-cipher interface of the crypto layer\<close>

definition crypto_alloc_blkcipher :: "int option \<Rightarrow> int + blkcipher" where
  "crypto_alloc_blkcipher err =
     (case err of Some e \<Rightarrow> Inl e | None \<Rightarrow> Inr \<lparr>tfm_key = [], tfm_iv = replicate 16 0\<rparr>)"

definition crypto_blkcipher_setkey :: "blkcipher \<Rightarrow> bytes \<Rightarrow> int \<times> blkcipher" where
  "crypto_blkcipher_setkey t k =
     (if length k = 16 \<or> length k = 24 \<or> length k = 32 then (0, t\<lparr>tfm_key := k\<rparr>)
      else (- EINVAL, t))"

definition crypto_blkcipher_set_iv :: "blkcipher \<Rightarrow> bytes \<Rightarrow> blkcipher" where
  "crypto_blkcipher_set_iv t v = t\<lparr>tfm_iv := mem_write (tfm_iv t) 0 v\<rparr>"

text \<open>The template installs the same walk for both directions, in place on the caller's page.\<close>

definition crypto_blkcipher_encrypt :: "aes_fn \<Rightarrow> blkcipher \<Rightarrow> bytes \<Rightarrow> blkcipher \<times> bytes" where
  "crypto_blkcipher_encrypt aes t src =
     (let (v, out) = crypto_ctr_crypt (aes (tfm_key t)) True (tfm_iv t) src
      in (t\<lparr>tfm_iv := v\<rparr>, out))"

definition crypto_blkcipher_decrypt :: "aes_fn \<Rightarrow> blkcipher \<Rightarrow> bytes \<Rightarrow> blkcipher \<times> bytes" where
  "crypto_blkcipher_decrypt aes t src =
     (let (v, out) = crypto_ctr_crypt (aes (tfm_key t)) True (tfm_iv t) src
      in (t\<lparr>tfm_iv := v\<rparr>, out))"

section \<open>Operations\<close>

definition priv_crypt_alg_valid :: "u32 \<Rightarrow> bool" where
  "priv_crypt_alg_valid alg \<longleftrightarrow> alg = PRIV_CRYPT_ALG_AES_CTR"

definition priv_set_key :: "priv_crypt_ctx \<Rightarrow> nat \<Rightarrow> bytes \<Rightarrow> int \<times> priv_crypt_ctx" where
  "priv_set_key cctx key_size k =
     (if key_size \<noteq> cx_key_size cctx then (- EINVAL, cctx)
      else
        let cctx = cctx\<lparr>cx_key := mem_write (cx_key cctx) 0 (take key_size k)\<rparr>
        in case cx_cipher cctx of
             None \<Rightarrow> (- EINVAL, cctx)
           | Some t \<Rightarrow>
               let (rc, t') = crypto_blkcipher_setkey t (take (cx_key_size cctx) (cx_key cctx))
               in (rc, cctx\<lparr>cx_cipher := Some t'\<rparr>))"

definition priv_set_iv :: "priv_crypt_ctx \<Rightarrow> nat \<Rightarrow> bytes \<Rightarrow> int \<times> priv_crypt_ctx" where
  "priv_set_iv cctx iv_size v =
     (if iv_size \<noteq> cx_iv_size cctx then (- EINVAL, cctx)
      else
        let cctx = cctx\<lparr>cx_iv := mem_write (cx_iv cctx) 0 (take iv_size v)\<rparr>
        in (0, cctx\<lparr>cx_cipher := map_option (\<lambda>t.
              crypto_blkcipher_set_iv t (take (cx_iv_size cctx) (cx_iv cctx))) (cx_cipher cctx)\<rparr>))"

definition setup_crypto_ctx ::
  "alloc_env \<Rightarrow> priv_crypt_ctx \<Rightarrow> nat \<Rightarrow> nat \<Rightarrow> byte \<Rightarrow> int \<times> priv_crypt_ctx" where
  "setup_crypto_ctx ev cctx key_size iv_size dir =
     (case crypto_alloc_blkcipher (ev_cipher_err ev) of
        Inl e \<Rightarrow> (e, cctx)
      | Inr t \<Rightarrow>
          (case ev_page ev of
             None \<Rightarrow> (- ENOMEM, cctx\<lparr>cx_cipher := None\<rparr>)
           | Some page_mem \<Rightarrow>
               let cctx = cctx\<lparr>cx_cipher := Some t, cx_crypto_pg_mem := page_mem,
                     cx_key_size := key_size, cx_iv_size := iv_size, cx_dir := dir\<rparr>;
                   temp_key = map of_nat [0..<key_size];
                   (rc, cctx) = priv_set_key cctx (cx_key_size cctx) temp_key
               in if rc < 0 then (rc, cctx\<lparr>cx_cipher := None\<rparr>) else (0, cctx)))"

definition get_fresh_id :: "u32 \<Rightarrow> u32" where
  "get_fresh_id n = n + 1"

text \<open>
  The result is the return code, the context stored through \<open>result\<close> (if the store is
  reached) and the static counter of \<open>get_fresh_id\<close>.
\<close>

definition make_crypto_ctx ::
  "alloc_env \<Rightarrow> u32 \<Rightarrow> u32 \<Rightarrow> nat \<Rightarrow> int \<Rightarrow> int \<times> priv_crypt_ctx option \<times> u32" where
  "make_crypto_ctx ev last_id alg key_size dir =
     (if \<not> priv_crypt_alg_valid alg then (- EINVAL, None, last_id)
      else if dir \<noteq> 1 \<and> dir \<noteq> 2 then (- EINVAL, None, last_id)
      else if \<not> ev_ctx ev then (- ENOMEM, None, last_id)
      else if key_size \<noteq> 16 \<and> key_size \<noteq> 24 \<and> key_size \<noteq> 32 then (- EINVAL, None, last_id)
      else
        let (rc, cctx) = setup_crypto_ctx ev kzalloc_ctx key_size 16 (word_of_int dir)
        in if rc < 0 then (rc, None, last_id)
           else case ev_kex_buf ev of
             None \<Rightarrow> (rc, None, last_id)
           | Some kb \<Rightarrow>
               let new_id = get_fresh_id last_id;
                   cctx = cctx\<lparr>cx_kex_buf := kb, cx_id := new_id, cx_user_lock := False,
                     cx_user_ref := None\<rparr>
               in (sint (cx_id cctx), Some cctx, new_id))"

text \<open>The value is what the freed context memory holds afterwards.\<close>

definition destroy_crypto_ctx :: "priv_crypt_ctx \<Rightarrow> priv_crypt_ctx" where
  "destroy_crypto_ctx cctx =
     cctx\<lparr>cx_cipher := None, cx_kex_buf := [], cx_crypto_pg_mem := [],
       cx_key := mem_set (cx_key cctx) 0 0 1\<rparr>"

definition allow_encrypt :: "priv_crypt_ctx \<Rightarrow> bool" where
  "allow_encrypt cctx \<longleftrightarrow> cx_activated cctx \<noteq> 0"

text \<open>One run of the body of the loop in \<open>priv_crypt\<close>: through the context's own page.\<close>

definition priv_crypt_chunk ::
  "aes_fn \<Rightarrow> priv_crypt_ctx \<Rightarrow> blkcipher \<Rightarrow> bytes \<Rightarrow> priv_crypt_ctx \<times> bytes" where
  "priv_crypt_chunk aes cctx t chunk =
     (let pg = mem_write (cx_crypto_pg_mem cctx) 0 chunk;
          (t', out) =
            (if cx_dir cctx = PRIV_CRYPT_DIR_ENC
             then crypto_blkcipher_encrypt aes t (mem_read pg 0 (length chunk))
             else crypto_blkcipher_decrypt aes t (mem_read pg 0 (length chunk)));
          pg' = mem_write pg 0 out
      in (cctx\<lparr>cx_cipher := Some t', cx_crypto_pg_mem := pg'\<rparr>, mem_read pg' 0 (length chunk)))"

function priv_crypt_loop ::
  "aes_fn \<Rightarrow> priv_crypt_ctx \<Rightarrow> bytes \<Rightarrow> int \<times> priv_crypt_ctx \<times> bytes" where
  "priv_crypt_loop aes cctx in_buf =
     (if in_buf = [] then (0, cctx, [])
      else case cx_cipher cctx of
        None \<Rightarrow> (- EINVAL, cctx, [])
      | Some t \<Rightarrow>
          let amt = min (length in_buf) PAGE_SIZE;
              (cctx', out) = priv_crypt_chunk aes cctx t (take amt in_buf);
              (rc, cctx'', out') = priv_crypt_loop aes cctx' (drop amt in_buf)
          in (rc, cctx'', out @ out'))"
  by pat_completeness auto
termination by (relation "measure (\<lambda>(aes, c, b). length b)") auto

declare priv_crypt_loop.simps [simp del]

definition priv_crypt ::
  "aes_fn \<Rightarrow> priv_crypt_ctx option \<Rightarrow> bytes \<Rightarrow> int \<times> priv_crypt_ctx option \<times> bytes" where
  "priv_crypt aes cctx in_buf =
     (case cctx of
        None \<Rightarrow> (- EINVAL, None, [])
      | Some c \<Rightarrow>
          if \<not> allow_encrypt c then (- EINVAL, Some c, [])
          else let (rc, c', out) = priv_crypt_loop aes c in_buf in (rc, Some c', out))"

definition priv_is_activated :: "priv_crypt_ctx option \<Rightarrow> int" where
  "priv_is_activated cctx = (case cctx of None \<Rightarrow> 0 | Some c \<Rightarrow> cx_activated c)"

definition priv_set_activated :: "priv_crypt_ctx option \<Rightarrow> int \<Rightarrow> priv_crypt_ctx option" where
  "priv_set_activated cctx activated = map_option (\<lambda>c. c\<lparr>cx_activated := activated\<rparr>) cctx"

section \<open>Well-formed contexts\<close>

definition tfm_wf :: "blkcipher \<Rightarrow> bool" where
  "tfm_wf t \<longleftrightarrow> length (tfm_iv t) = 16"

definition ctx_wf :: "priv_crypt_ctx \<Rightarrow> bool" where
  "ctx_wf c \<longleftrightarrow>
     length (cx_key c) = MAX_KEY_LEN \<and> length (cx_iv c) = MAX_IV_LEN
     \<and> (cx_key_size c = 16 \<or> cx_key_size c = 24 \<or> cx_key_size c = 32)
     \<and> cx_iv_size c = 16 \<and> (cx_dir c = PRIV_CRYPT_DIR_ENC \<or> cx_dir c = PRIV_CRYPT_DIR_DEC)
     \<and> length (cx_crypto_pg_mem c) = PAGE_SIZE
     \<and> (\<exists>t. cx_cipher c = Some t \<and> tfm_wf t \<and> tfm_key t = take (cx_key_size c) (cx_key c))"

lemma ctx_wf_cipherE:
  assumes "ctx_wf c"
  obtains t where "cx_cipher c = Some t" "tfm_wf t" "tfm_key t = take (cx_key_size c) (cx_key c)"
  using assms by (auto simp: ctx_wf_def)

section \<open>The encryption loop is one stream\<close>

lemma crypto_blkcipher_spec:
  assumes "tfm_wf t"
  shows "crypto_blkcipher_encrypt aes t src =
      (t\<lparr>tfm_iv := ctr_next (tfm_iv t) (length src)\<rparr>, ctr_out (aes (tfm_key t)) (tfm_iv t) src)"
    and "crypto_blkcipher_decrypt aes t src =
      (t\<lparr>tfm_iv := ctr_next (tfm_iv t) (length src)\<rparr>, ctr_out (aes (tfm_key t)) (tfm_iv t) src)"
  using assms
  by (simp_all add: crypto_blkcipher_encrypt_def crypto_blkcipher_decrypt_def tfm_wf_def
      crypto_ctr_crypt_spec)

lemma priv_crypt_chunk_spec:
  assumes "tfm_wf t" "length chunk \<le> length (cx_crypto_pg_mem c)"
  shows "priv_crypt_chunk aes c t chunk =
    (c\<lparr>cx_cipher := Some (t\<lparr>tfm_iv := ctr_next (tfm_iv t) (length chunk)\<rparr>),
       cx_crypto_pg_mem := mem_write (cx_crypto_pg_mem c) 0 (ctr_out (aes (tfm_key t)) (tfm_iv t) chunk)\<rparr>,
     ctr_out (aes (tfm_key t)) (tfm_iv t) chunk)"
proof -
  have "mem_read (mem_write (cx_crypto_pg_mem c) 0 (ctr_out E v chunk)) 0 (length chunk)
      = ctr_out E v chunk" for E v
    using mem_read_write_same [of 0 "ctr_out E v chunk" "cx_crypto_pg_mem c"] assms(2) by simp
  then show ?thesis
    using assms by (simp add: priv_crypt_chunk_def crypto_blkcipher_spec Let_def)
qed

text \<open>
  What the loop changes in a context: the running counter block and the work page,
  nothing else.
\<close>

definition advance :: "nat \<Rightarrow> bytes \<Rightarrow> priv_crypt_ctx \<Rightarrow> priv_crypt_ctx" where
  "advance n pg c = c\<lparr>cx_crypto_pg_mem := pg,
     cx_cipher := map_option (\<lambda>t. t\<lparr>tfm_iv := ctr_next (tfm_iv t) n\<rparr>) (cx_cipher c)\<rparr>"

lemma priv_crypt_loop_spec:
  assumes "cx_cipher c = Some t" "tfm_wf t" "length (cx_crypto_pg_mem c) = PAGE_SIZE"
  shows "\<exists>pg. length pg = PAGE_SIZE \<and>
    priv_crypt_loop aes c in_buf =
      (0, advance (length in_buf) pg c, ctr_out (aes (tfm_key t)) (tfm_iv t) in_buf)"
  using assms
proof (induction aes c in_buf arbitrary: t rule: priv_crypt_loop.induct)
  case (1 aes c in_buf)
  show ?case
  proof (cases "in_buf = []")
    case True
    have "advance 0 (cx_crypto_pg_mem c) c = c"
      using "1.prems" by (cases c) (simp add: advance_def)
    then show ?thesis
      using True "1.prems" by (auto simp: priv_crypt_loop.simps [of aes c])
  next
    case False
    define amt where "amt = min (length in_buf) PAGE_SIZE"
    define out where "out = ctr_out (aes (tfm_key t)) (tfm_iv t) (take amt in_buf)"
    define t' where "t' = t\<lparr>tfm_iv := ctr_next (tfm_iv t) amt\<rparr>"
    define pg where "pg = mem_write (cx_crypto_pg_mem c) 0 out"
    define c' where "c' = c\<lparr>cx_cipher := Some t', cx_crypto_pg_mem := pg\<rparr>"
    have amt: "length (take amt in_buf) = amt" "amt \<le> PAGE_SIZE" by (simp_all add: amt_def)
    have chunk: "priv_crypt_chunk aes c t (take amt in_buf) = (c', out)"
      using "1.prems" amt
      by (simp add: priv_crypt_chunk_spec c'_def t'_def pg_def out_def)
    have wf': "cx_cipher c' = Some t'" "tfm_wf t'" "length (cx_crypto_pg_mem c') = PAGE_SIZE"
      using "1.prems" amt by (simp_all add: c'_def t'_def pg_def out_def tfm_wf_def)
    obtain pg' where ih: "length pg' = PAGE_SIZE"
      "priv_crypt_loop aes c' (drop amt in_buf) =
        (0, advance (length (drop amt in_buf)) pg' c',
         ctr_out (aes (tfm_key t')) (tfm_iv t') (drop amt in_buf))"
      using "1.IH" [OF False "1.prems"(1) amt_def, of "(c', out)" c' out t'] chunk wf' by auto
    have split: "ctr_out E v in_buf =
        ctr_out E v (take amt in_buf) @ ctr_out E (ctr_next v amt) (drop amt in_buf)"
      "ctr_next v (length in_buf) = ctr_next (ctr_next v amt) (length (drop amt in_buf))" for E v
    proof (atomize (full), cases "length in_buf \<le> PAGE_SIZE")
      case False
      then have "16 dvd amt" "amt \<le> length in_buf" by (simp_all add: amt_def)
      then show "ctr_out E v in_buf = ctr_out E v (take amt in_buf) @
          ctr_out E (ctr_next v amt) (drop amt in_buf) \<and>
          ctr_next v (length in_buf) = ctr_next (ctr_next v amt) (length (drop amt in_buf))"
        using ctr_out_append [of "take amt in_buf" E v "drop amt in_buf"]
          ctr_next_append [of amt v "length in_buf - amt"] by simp
    qed (simp add: amt_def)
    have "priv_crypt_loop aes c in_buf =
        (0, advance (length in_buf) pg' c, ctr_out (aes (tfm_key t)) (tfm_iv t) in_buf)"
      using False "1.prems"(1) chunk ih(2)
      by (simp add: priv_crypt_loop.simps [of aes c] amt_def [symmetric] Let_def)
        (simp add: c'_def t'_def out_def advance_def split)
    then show ?thesis using ih(1) by blast
  qed
qed

lemma priv_crypt_spec:
  assumes "ctx_wf c" "allow_encrypt c" "cx_cipher c = Some t"
  shows "\<exists>pg. length pg = PAGE_SIZE \<and>
    priv_crypt aes (Some c) in_buf =
      (0, Some (advance (length in_buf) pg c), ctr_out (aes (tfm_key t)) (tfm_iv t) in_buf)"
proof -
  have "tfm_wf t" "length (cx_crypto_pg_mem c) = PAGE_SIZE"
    using assms by (auto simp: ctx_wf_def)
  then obtain pg where "length pg = PAGE_SIZE" "priv_crypt_loop aes c in_buf =
      (0, advance (length in_buf) pg c, ctr_out (aes (tfm_key t)) (tfm_iv t) in_buf)"
    using priv_crypt_loop_spec [OF assms(3)] by blast
  then show ?thesis
    using assms by (auto simp: priv_crypt_def)
qed

lemma priv_crypt_not_activated:
  "\<not> allow_encrypt c \<Longrightarrow> priv_crypt aes (Some c) in_buf = (- EINVAL, Some c, [])"
  "priv_crypt aes None in_buf = (- EINVAL, None, [])"
  by (simp_all add: priv_crypt_def)

section \<open>Every operation keeps a context well formed\<close>

lemma take_mem_write_take:
  "n \<le> length k \<Longrightarrow> n \<le> length buf \<Longrightarrow> take n (mem_write buf 0 (take n k)) = take n k"
  using take_mem_write_prefix [of "take n k" buf] by simp

lemma priv_set_key_wf:
  assumes "ctx_wf c" "key_size = cx_key_size c" "key_size \<le> length k"
  shows "fst (priv_set_key c key_size k) = 0" "ctx_wf (snd (priv_set_key c key_size k))"
    and "take key_size (cx_key (snd (priv_set_key c key_size k))) = take key_size k"
proof -
  obtain t where t: "cx_cipher c = Some t" "tfm_wf t" using assms(1) by (rule ctx_wf_cipherE)
  have sz: "key_size \<in> {16, 24, 32}" "length (cx_key c) = 64"
    using assms(1,2) by (auto simp: ctx_wf_def)
  then have tk: "take key_size (mem_write (cx_key c) 0 (take key_size k)) = take key_size k"
    using assms(3) by (intro take_mem_write_take) auto
  have set: "priv_set_key c key_size k =
      (0, c\<lparr>cx_key := mem_write (cx_key c) 0 (take key_size k),
            cx_cipher := Some (t\<lparr>tfm_key := take key_size k\<rparr>)\<rparr>)"
    using assms t tk sz by (auto simp: priv_set_key_def crypto_blkcipher_setkey_def Let_def)
  show "fst (priv_set_key c key_size k) = 0" by (simp add: set)
  show "take key_size (cx_key (snd (priv_set_key c key_size k))) = take key_size k"
    by (simp add: set tk)
  have "length (mem_write (cx_key c) 0 (take key_size k)) = 64" using sz by auto
  then show "ctx_wf (snd (priv_set_key c key_size k))"
    using assms(1,2) t(2) tk unfolding set snd_conv by (simp add: ctx_wf_def tfm_wf_def)
qed

lemma priv_set_key_mismatch:
  "key_size \<noteq> cx_key_size c \<Longrightarrow> priv_set_key c key_size k = (- EINVAL, c)"
  by (simp add: priv_set_key_def)

lemma priv_set_iv_spec:
  assumes "ctx_wf c" "16 \<le> length v" "cx_cipher c = Some t"
  shows "priv_set_iv c 16 v =
    (0, c\<lparr>cx_iv := mem_write (cx_iv c) 0 (take 16 v), cx_cipher := Some (t\<lparr>tfm_iv := take 16 v\<rparr>)\<rparr>)"
proof -
  have l: "length (cx_iv c) = 64" "length (tfm_iv t) = 16" "cx_iv_size c = 16"
    using assms(1,3) by (auto simp: ctx_wf_def tfm_wf_def)
  then have "take 16 (mem_write (cx_iv c) 0 (take 16 v)) = take 16 v"
    using assms(2) by (intro take_mem_write_take) simp_all
  moreover have "mem_write (tfm_iv t) 0 (take 16 v) = take 16 v"
    using l assms(2) by (simp add: mem_write_def)
  ultimately show ?thesis
    using assms l by (simp add: priv_set_iv_def crypto_blkcipher_set_iv_def Let_def)
qed

lemma priv_set_iv_wf:
  assumes "ctx_wf c" "16 \<le> length v"
  shows "ctx_wf (snd (priv_set_iv c 16 v))"
proof -
  obtain t where t: "cx_cipher c = Some t" "tfm_key t = take (cx_key_size c) (cx_key c)"
    using assms(1) by (rule ctx_wf_cipherE)
  have "length (mem_write (cx_iv c) 0 (take 16 v)) = 64"
    using assms by (auto simp: ctx_wf_def)
  then show ?thesis
    using assms t by (auto simp: priv_set_iv_spec ctx_wf_def tfm_wf_def)
qed

lemma priv_set_iv_mismatch:
  "ctx_wf c \<Longrightarrow> n \<noteq> 16 \<Longrightarrow> priv_set_iv c n v = (- EINVAL, c)"
  by (auto simp: priv_set_iv_def ctx_wf_def)

lemma advance_wf: "ctx_wf c \<Longrightarrow> length pg = PAGE_SIZE \<Longrightarrow> ctx_wf (advance n pg c)"
  by (auto simp: advance_def ctx_wf_def tfm_wf_def)

lemma allow_encrypt_advance [simp]: "allow_encrypt (advance n pg c) = allow_encrypt c"
  by (simp add: allow_encrypt_def advance_def)

lemma ctx_wf_update [simp]:
  "ctx_wf (c\<lparr>cx_activated := i\<rparr>) = ctx_wf c" "ctx_wf (c\<lparr>cx_user_lock := l\<rparr>) = ctx_wf c"
  "ctx_wf (c\<lparr>cx_user_ref := r\<rparr>) = ctx_wf c" "ctx_wf (c\<lparr>cx_kex_buf := b\<rparr>) = ctx_wf c"
  "ctx_wf (c\<lparr>cx_alloc_pid := i\<rparr>) = ctx_wf c" "ctx_wf (c\<lparr>cx_id := w\<rparr>) = ctx_wf c"
  by (simp_all add: ctx_wf_def)

section \<open>Creation and destruction\<close>

text \<open>
  \<open>make_crypto_ctx\<close> reports success with the new identifier and a well-formed inactive
  context exactly when its arguments are valid and every allocation succeeds.
\<close>

definition ev_all_ok :: "alloc_env \<Rightarrow> bool" where
  "ev_all_ok ev \<longleftrightarrow> ev_ctx ev \<and> ev_cipher_err ev = None
     \<and> (\<exists>pg. ev_page ev = Some pg \<and> length pg = PAGE_SIZE)
     \<and> (\<exists>kb. ev_kex_buf ev = Some kb \<and> length kb = MAX_KEX_MSG_LEN)"

lemma setup_crypto_ctx_ok:
  assumes "ev_cipher_err ev = None" "ev_page ev = Some pg" "length pg = PAGE_SIZE"
    "key_size = 16 \<or> key_size = 24 \<or> key_size = 32" "dir = 1 \<or> dir = 2"
  shows "fst (setup_crypto_ctx ev kzalloc_ctx key_size 16 dir) = 0"
    and "ctx_wf (snd (setup_crypto_ctx ev kzalloc_ctx key_size 16 dir))"
    and "cx_activated (snd (setup_crypto_ctx ev kzalloc_ctx key_size 16 dir)) = 0"
    and "cx_user_ref (snd (setup_crypto_ctx ev kzalloc_ctx key_size 16 dir)) = None"
    and "cx_key_size (snd (setup_crypto_ctx ev kzalloc_ctx key_size 16 dir)) = key_size"
    and "cx_dir (snd (setup_crypto_ctx ev kzalloc_ctx key_size 16 dir)) = dir"
proof -
  let ?k = "map of_nat [0..<key_size] :: bytes"
  define c where "c = kzalloc_ctx\<lparr>cx_cipher := Some \<lparr>tfm_key = [], tfm_iv = replicate 16 0\<rparr>,
      cx_crypto_pg_mem := pg, cx_key_size := key_size, cx_iv_size := 16, cx_dir := dir\<rparr>"
  have s: "setup_crypto_ctx ev kzalloc_ctx key_size 16 dir =
      (0, c\<lparr>cx_key := mem_write (replicate 64 0) 0 ?k,
            cx_cipher := Some \<lparr>tfm_key = ?k, tfm_iv = replicate 16 0\<rparr>\<rparr>)"
    using assms
    by (auto simp: setup_crypto_ctx_def crypto_alloc_blkcipher_def priv_set_key_def Let_def c_def
        crypto_blkcipher_setkey_def kzalloc_ctx_def mem_write_def)
  show "fst (setup_crypto_ctx ev kzalloc_ctx key_size 16 dir) = 0" by (simp add: s)
  have "length (mem_write (replicate 64 0) 0 ?k) = 64"
    "take key_size (mem_write (replicate 64 0) 0 ?k) = ?k"
    using assms(4) by (auto simp: mem_write_def)
  then show "ctx_wf (snd (setup_crypto_ctx ev kzalloc_ctx key_size 16 dir))"
    using assms unfolding s snd_conv by (simp add: c_def ctx_wf_def tfm_wf_def kzalloc_ctx_def)
qed (use assms in \<open>auto simp: setup_crypto_ctx_def crypto_alloc_blkcipher_def priv_set_key_def
      crypto_blkcipher_setkey_def kzalloc_ctx_def Let_def mem_write_def\<close>)

lemma make_crypto_ctx_ok:
  assumes "ev_all_ok ev" "alg = PRIV_CRYPT_ALG_AES_CTR" "dir = 1 \<or> dir = 2"
    "key_size = 16 \<or> key_size = 24 \<or> key_size = 32"
  shows "\<exists>c. make_crypto_ctx ev last_id alg key_size dir = (sint (last_id + 1), Some c, last_id + 1)
    \<and> ctx_wf c \<and> cx_id c = last_id + 1 \<and> cx_activated c = 0 \<and> cx_user_ref c = None
    \<and> cx_key_size c = key_size \<and> cx_user_lock c = False \<and> ev_kex_buf ev = Some (cx_kex_buf c)"
proof -
  obtain pg kb where ev: "ev_ctx ev" "ev_cipher_err ev = None" "ev_page ev = Some pg"
    "length pg = PAGE_SIZE" "ev_kex_buf ev = Some kb"
    using assms(1) by (auto simp: ev_all_ok_def)
  have dir: "word_of_int dir = (1 :: byte) \<or> word_of_int dir = (2 :: byte)" using assms(3) by auto
  note ok = setup_crypto_ctx_ok [OF ev(2,3,4) assms(4) dir]
  obtain c where c: "setup_crypto_ctx ev kzalloc_ctx key_size 16 (word_of_int dir) = (0, c)"
    using ok(1) by (metis prod.collapse)
  have "make_crypto_ctx ev last_id alg key_size dir =
      (sint (last_id + 1), Some (c\<lparr>cx_kex_buf := kb, cx_id := last_id + 1, cx_user_lock := False,
         cx_user_ref := None\<rparr>), last_id + 1)"
    using assms ev c
    by (auto simp: make_crypto_ctx_def priv_crypt_alg_valid_def get_fresh_id_def Let_def)
  then show ?thesis
    using ok(2,3,5) c ev(5) by (auto simp: ctx_wf_def)
qed

lemma make_crypto_ctx_invalid:
  assumes "alg \<noteq> PRIV_CRYPT_ALG_AES_CTR \<or> (dir \<noteq> 1 \<and> dir \<noteq> 2)"
  shows "make_crypto_ctx ev last_id alg key_size dir = (- EINVAL, None, last_id)"
  using assms by (auto simp: make_crypto_ctx_def priv_crypt_alg_valid_def)

text \<open>The answers of an allocator that returns blocks of the size asked for.\<close>

definition ev_wf :: "alloc_env \<Rightarrow> bool" where
  "ev_wf ev \<longleftrightarrow> (\<forall>e. ev_cipher_err ev = Some e \<longrightarrow> e < 0)
     \<and> (\<forall>pg. ev_page ev = Some pg \<longrightarrow> length pg = PAGE_SIZE)
     \<and> (\<forall>kb. ev_kex_buf ev = Some kb \<longrightarrow> length kb = MAX_KEX_MSG_LEN)"

lemma make_crypto_ctx_cases:
  assumes "ev_wf ev" "make_crypto_ctx ev last_id alg key_size dir = (rc, res, n)"
  obtains (fail) "res = None" "n = last_id" "rc < 0"
  | (kex_buf) "res = None" "n = last_id" "rc = 0" "ev_kex_buf ev = None"
  | (ok) c where "res = Some c" "n = last_id + 1" "rc = sint (last_id + 1)" "ctx_wf c"
      "cx_id c = last_id + 1" "cx_activated c = 0" "cx_user_ref c = None" "cx_user_lock c = False"
      "length (cx_kex_buf c) = MAX_KEX_MSG_LEN"
proof -
  define v where "v \<longleftrightarrow> alg = PRIV_CRYPT_ALG_AES_CTR \<and> (dir = 1 \<or> dir = 2) \<and> ev_ctx ev
    \<and> (key_size = 16 \<or> key_size = 24 \<or> key_size = 32) \<and> ev_cipher_err ev = None \<and> ev_page ev \<noteq> None"
  show thesis
  proof (cases v)
    case False
    then have "res = None \<and> n = last_id \<and> rc < 0"
      using assms
      by (auto simp: v_def make_crypto_ctx_def priv_crypt_alg_valid_def setup_crypto_ctx_def
          crypto_alloc_blkcipher_def ev_wf_def split: if_splits option.splits)
    then show thesis using fail by blast
  next
    case True
    show thesis
    proof (cases "ev_kex_buf ev")
      case None
      obtain pg where "ev_page ev = Some pg" "length pg = PAGE_SIZE"
        using True assms(1) by (auto simp: v_def ev_wf_def)
      moreover have "word_of_int dir = (1 :: byte) \<or> word_of_int dir = (2 :: byte)"
        using True by (auto simp: v_def)
      ultimately have "fst (setup_crypto_ctx ev kzalloc_ctx key_size 16 (word_of_int dir)) = 0"
        using True by (intro setup_crypto_ctx_ok) (auto simp: v_def)
      then have "res = None \<and> n = last_id \<and> rc = 0"
        using True None assms(2)
        by (auto simp: v_def make_crypto_ctx_def priv_crypt_alg_valid_def split: if_splits prod.splits)
      then show thesis using kex_buf None by blast
    next
      case (Some kb)
      then have "ev_all_ok ev" using True assms(1) by (auto simp: v_def ev_wf_def ev_all_ok_def)
      moreover have "length kb = MAX_KEX_MSG_LEN" using Some assms(1) by (simp add: ev_wf_def)
      ultimately show thesis
        using make_crypto_ctx_ok [of ev alg dir key_size last_id] True assms(2) Some ok
        by (auto simp: v_def)
    qed
  qed
qed

lemma destroy_crypto_ctx_key:
  assumes "length (cx_key c) = MAX_KEY_LEN"
  shows "cx_key (destroy_crypto_ctx c) ! 0 = 0"
    and "i < MAX_KEY_LEN \<Longrightarrow> 0 < i \<Longrightarrow> cx_key (destroy_crypto_ctx c) ! i = cx_key c ! i"
  using assms by (auto simp: destroy_crypto_ctx_def nth_mem_set)

section \<open>The context as an endpoint of a channel\<close>

definition kern_crypt_msg :: "aes_fn \<Rightarrow> priv_crypt_ctx \<Rightarrow> bytes \<Rightarrow> priv_crypt_ctx \<times> bytes" where
  "kern_crypt_msg aes c m =
     (case priv_crypt aes (Some c) m of (rc, c', out) \<Rightarrow> (case c' of Some c' \<Rightarrow> c' | None \<Rightarrow> c, out))"

definition kern_cipher :: "aes_fn \<Rightarrow> priv_crypt_ctx \<Rightarrow> block_cipher" where
  "kern_cipher aes c = aes (take (cx_key_size c) (cx_key c))"

definition kern_ctr :: "priv_crypt_ctx \<Rightarrow> bytes" where
  "kern_ctr c = (case cx_cipher c of Some t \<Rightarrow> tfm_iv t | None \<Rightarrow> [])"

definition kern_ready :: "priv_crypt_ctx \<Rightarrow> bool" where
  "kern_ready c \<longleftrightarrow> ctx_wf c \<and> allow_encrypt c"

lemma kern_crypt_msg_spec:
  assumes "kern_ready c"
  shows "\<exists>pg. length pg = PAGE_SIZE \<and>
    kern_crypt_msg aes c m = (advance (length m) pg c, ctr_out (kern_cipher aes c) (kern_ctr c) m)"
proof -
  obtain t where t: "cx_cipher c = Some t" "tfm_key t = take (cx_key_size c) (cx_key c)"
    using assms ctx_wf_cipherE unfolding kern_ready_def by blast
  show ?thesis
    using priv_crypt_spec [of c t aes m] assms t
    by (auto simp: kern_ready_def kern_crypt_msg_def kern_cipher_def kern_ctr_def)
qed

lemma kern_ctr_advance:
  "kern_ready c \<Longrightarrow> kern_ctr (advance n pg c) = ctr_next (kern_ctr c) n"
  by (auto simp: kern_ctr_def advance_def kern_ready_def ctx_wf_def)

interpretation kern: ctr_endpoint "kern_crypt_msg aes" "kern_cipher aes" kern_ctr kern_ready "\<lambda>m. True"
  for aes
proof unfold_locales
  fix s m
  assume r: "kern_ready s"
  then obtain pg where pg: "length pg = PAGE_SIZE" "kern_crypt_msg aes s m =
      (advance (length m) pg s, ctr_out (kern_cipher aes s) (kern_ctr s) m)"
    using kern_crypt_msg_spec by blast
  show "snd (kern_crypt_msg aes s m) = ctr_out (kern_cipher aes s) (kern_ctr s) m"
    by (simp add: pg)
  show "kern_ctr (fst (kern_crypt_msg aes s m)) = ctr_next (kern_ctr s) (length m)"
    using r by (simp add: pg kern_ctr_advance)
  show "kern_cipher aes (fst (kern_crypt_msg aes s m)) = kern_cipher aes s"
    by (simp add: pg kern_cipher_def advance_def)
  show "kern_ready (fst (kern_crypt_msg aes s m))"
    using r pg by (simp add: kern_ready_def advance_wf)
qed simp

section \<open>A context for examples\<close>

definition demo_ctx :: priv_crypt_ctx where
  "demo_ctx = \<lparr>cx_id = 1, cx_alloc_pid = 7, cx_user_lock = False, cx_user_ref = None,
     cx_kex_buf = replicate MAX_KEX_MSG_LEN 0,
     cx_cipher = Some \<lparr>tfm_key = replicate 16 0, tfm_iv = replicate 16 0\<rparr>,
     cx_crypto_pg_mem = replicate PAGE_SIZE 0, cx_activated = 1, cx_dir = 1,
     cx_key = replicate MAX_KEY_LEN 0, cx_key_size = 16, cx_iv = replicate MAX_IV_LEN 0, cx_iv_size = 16\<rparr>"

lemma demo_ctx_wf: "ctx_wf demo_ctx"
  by (simp add: demo_ctx_def ctx_wf_def tfm_wf_def)

section \<open>Properties\<close>

text \<open>
  C1. Encrypting a buffer of any length through the kernel's one-page bounce buffer is one
  uninterrupted keystream: the output is the stream of the context's key and counter, and
  the context moves on by exactly the blocks used, so page boundaries leave no trace.
\<close>

theorem priv_crypt_is_stream:
  assumes "ctx_wf c" "allow_encrypt c" "cx_cipher c = Some t"
  shows "\<exists>pg. length pg = PAGE_SIZE \<and>
    priv_crypt aes (Some c) in_buf =
      (0, Some (advance (length in_buf) pg c), ctr_out (aes (tfm_key t)) (tfm_iv t) in_buf)"
  using assms by (rule priv_crypt_spec)

theorem priv_crypt_is_stream_witness:
  "\<exists>pg. length pg = PAGE_SIZE \<and> priv_crypt (\<lambda>k b. b) (Some demo_ctx) (replicate 5000 1) =
     (0, Some (advance 5000 pg demo_ctx), ctr_out (\<lambda>b. b) (replicate 16 0) (replicate 5000 1))"
  using priv_crypt_is_stream [OF demo_ctx_wf, of "\<lparr>tfm_key = replicate 16 0, tfm_iv = replicate 16 0\<rparr>"
      "\<lambda>k b. b" "replicate 5000 1"]
  by (simp add: demo_ctx_def allow_encrypt_def)



text \<open>
  C32. What a destroyed context leaves in freed memory: the zeroisation covers the first byte
  of the key only, all later key bytes are still there.
\<close>

theorem destroyed_context_keeps_key:
  assumes "length (cx_key c) = 64" "0 < i" "i < 64"
  shows "cx_key (destroy_crypto_ctx c) ! 0 = 0 \<and> cx_key (destroy_crypto_ctx c) ! i = cx_key c ! i"
  using assms destroy_crypto_ctx_key by blast

theorem destroyed_context_keeps_key_witness:
  "cx_key (destroy_crypto_ctx (demo_ctx\<lparr>cx_key := replicate 64 9\<rparr>)) ! 0 = 0
   \<and> cx_key (destroy_crypto_ctx (demo_ctx\<lparr>cx_key := replicate 64 9\<rparr>)) ! 5 = 9"
  using destroyed_context_keeps_key [of "demo_ctx\<lparr>cx_key := replicate 64 9\<rparr>" 5] by simp

end
