(* ===== verification/Aesni.thy ===== *)
theory Aesni
  imports Ctr_Mode
begin

text \<open>
  The user-space AES-NI cipher of \<open>crypto/libprivcrypt/aesni.c\<close> and the counter-mode
  assembly it calls (\<open>aesni_set_key\<close>, \<open>_aesni_inc_init\<close>, \<open>_aesni_inc\<close> and
  \<open>aesni_ctr_enc\<close> of \<open>aesni-intel_asm.S\<close>). Registers that hold the counter are a record:
  the 128-bit register \<open>CTR\<close> as two quadwords, \<open>TCTR_LOW\<close> and \<open>IV\<close>. The AES rounds are
  the same parameter \<open>aes\<close> as in the kernel. The theory shows that the split counter with
  its carry is the 128-bit increment, that the four-block and one-block loops compute the
  abstract stream, and that \<open>priv_aesni_crypt\<close> with its padded last block does so for every
  length whatever the stack held, so that it is an instance of \<open>ctr_endpoint\<close>.
\<close>

section \<open>The counter registers\<close>

record inc_regs =
  rg_ctr_hi :: u64
  rg_ctr_lo :: u64
  rg_tctr_low :: u64
  rg_iv :: bytes

definition pshufb_swap :: "u64 \<Rightarrow> u64 \<Rightarrow> bytes" where
  "pshufb_swap hi lo = nat_be 8 (unat hi) @ nat_be 8 (unat lo)"

definition aesni_inc_init :: "bytes \<Rightarrow> inc_regs" where
  "aesni_inc_init v =
     (let lo = word_of_nat (be_nat (drop 8 v))
      in \<lparr>rg_ctr_hi = word_of_nat (be_nat (take 8 v)), rg_ctr_lo = lo, rg_tctr_low = lo, rg_iv = v\<rparr>)"

definition aesni_inc :: "inc_regs \<Rightarrow> inc_regs" where
  "aesni_inc r =
     (let lo = rg_ctr_lo r + 1;
          tctr = rg_tctr_low r + 1;
          hi = (if tctr = 0 then rg_ctr_hi r + 1 else rg_ctr_hi r)
      in \<lparr>rg_ctr_hi = hi, rg_ctr_lo = lo, rg_tctr_low = tctr, rg_iv = pshufb_swap hi lo\<rparr>)"

section \<open>The encryption loops\<close>

text \<open>A loop yields the registers, the bytes written and the bytes of input not processed.\<close>

function ctr_enc_loop1 :: "block_cipher \<Rightarrow> inc_regs \<Rightarrow> bytes \<Rightarrow> inc_regs \<times> bytes \<times> bytes" where
  "ctr_enc_loop1 E r inp =
     (let state = rg_iv r;
          r = aesni_inc r;
          out = xor_bytes (enc_block E state) (take 16 inp);
          rest = drop 16 inp
      in if 16 \<le> length rest
         then (let (r', out', rest') = ctr_enc_loop1 E r rest in (r', out @ out', rest'))
         else (r, out, rest))"
  by pat_completeness auto
termination by (relation "measure (\<lambda>(E, r, b). length b)") auto

function ctr_enc_loop4 :: "block_cipher \<Rightarrow> inc_regs \<Rightarrow> bytes \<Rightarrow> inc_regs \<times> bytes \<times> bytes" where
  "ctr_enc_loop4 E r inp =
     (let state1 = rg_iv r; r = aesni_inc r; in1 = mem_read inp 0 16;
          state2 = rg_iv r; r = aesni_inc r; in2 = mem_read inp 16 16;
          state3 = rg_iv r; r = aesni_inc r; in3 = mem_read inp 32 16;
          state4 = rg_iv r; r = aesni_inc r; in4 = mem_read inp 48 16;
          out = xor_bytes (enc_block E state1) in1 @ xor_bytes (enc_block E state2) in2
              @ xor_bytes (enc_block E state3) in3 @ xor_bytes (enc_block E state4) in4;
          rest = drop 64 inp
      in if 64 \<le> length rest
         then (let (r', out', rest') = ctr_enc_loop4 E r rest in (r', out @ out', rest'))
         else if length rest < 16 then (r, out, rest)
         else (let (r', out', rest') = ctr_enc_loop1 E r rest in (r', out @ out', rest')))"
  by pat_completeness auto
termination by (relation "measure (\<lambda>(E, r, b). length b)") auto

declare ctr_enc_loop1.simps [simp del] ctr_enc_loop4.simps [simp del]

text \<open>In place: the bytes after the last whole block stay as they are.\<close>

definition aesni_ctr_enc :: "block_cipher \<Rightarrow> bytes \<Rightarrow> bytes \<Rightarrow> bytes \<times> bytes" where
  "aesni_ctr_enc E v data =
     (if length data < 16 then (v, data)
      else
        let r = aesni_inc_init v;
            (r', out, rest) = (if length data < 64 then ctr_enc_loop1 E r data
                               else ctr_enc_loop4 E r data)
        in (rg_iv r', out @ rest))"

section \<open>The counter registers hold one 128-bit counter\<close>

definition regs_ok :: "inc_regs \<Rightarrow> bool" where
  "regs_ok r \<longleftrightarrow> rg_tctr_low r = rg_ctr_lo r \<and> rg_iv r = pshufb_swap (rg_ctr_hi r) (rg_ctr_lo r)"

lemma length_pshufb_swap [simp]: "length (pshufb_swap hi lo) = 16"
  by (simp add: pshufb_swap_def)

lemma regs_ok_length [simp]: "regs_ok r \<Longrightarrow> length (rg_iv r) = 16"
  by (simp add: regs_ok_def)

lemma regs_ok_init:
  assumes "length v = 16"
  shows "regs_ok (aesni_inc_init v)" "rg_iv (aesni_inc_init v) = v"
proof -
  have q: "nat_be 8 (unat (word_of_nat (be_nat w) :: u64)) = w" if "length w = 8" for w
  proof -
    have "be_nat w < 2 ^ 64" using be_nat_bound [of w] that by simp
    then show ?thesis using nat_be_be_nat [of w] that by (simp add: unat_of_nat)
  qed
  show "regs_ok (aesni_inc_init v)"
    using assms by (simp add: aesni_inc_init_def regs_ok_def pshufb_swap_def q Let_def)
  show "rg_iv (aesni_inc_init v) = v" by (simp add: aesni_inc_init_def Let_def)
qed

lemma nat_be_8_inc:
  fixes w :: u64
  shows "be_inc (nat_be 8 (unat w)) = nat_be 8 (unat (w + 1))"
    and "be_nat (nat_be 8 (unat w)) + 1 < 256 ^ 8 \<longleftrightarrow> w + 1 \<noteq> 0"
proof -
  have b: "unat w < 2 ^ 64" using unsigned_less [of w] by simp
  then have n: "be_nat (nat_be 8 (unat w)) = unat w" by (simp add: be_nat_nat_be)
  show "be_nat (nat_be 8 (unat w)) + 1 < 256 ^ 8 \<longleftrightarrow> w + 1 \<noteq> 0"
    using unat_plus_1_less_iff [of w] by (simp add: n)
  have "unat (w + 1) = (unat w + 1) mod 256 ^ 8" by (simp add: unat_word_ariths)
  then show "be_inc (nat_be 8 (unat w)) = nat_be 8 (unat (w + 1))"
    by (simp only: be_inc_def n length_nat_be nat_be_mod)
qed

lemma aesni_inc_spec:
  assumes "regs_ok r"
  shows "rg_iv (aesni_inc r) = be_inc (rg_iv r)" "regs_ok (aesni_inc r)"
proof -
  show "regs_ok (aesni_inc r)"
    using assms by (simp add: aesni_inc_def regs_ok_def Let_def)
  show "rg_iv (aesni_inc r) = be_inc (rg_iv r)"
    using assms nat_be_8_inc(2) [of "rg_ctr_lo r"]
    by (auto simp: aesni_inc_def regs_ok_def Let_def pshufb_swap_def be_inc_append
        nat_be_8_inc(1))
qed

section \<open>The loops compute the stream\<close>

text \<open>
  \<open>whole n\<close> is the part of a buffer of length \<open>n\<close> that the assembly processes: its whole
  blocks.
\<close>

definition whole :: "nat \<Rightarrow> nat" where
  "whole n = 16 * (n div 16)"

lemma whole_step: "16 \<le> n \<Longrightarrow> whole n = 16 + whole (n - 16)"
  by (simp add: whole_def le_div_geq)

lemma whole_0: "n < 16 \<Longrightarrow> whole n = 0"
  by (simp add: whole_def)

lemma whole_le: "whole n \<le> n"
  by (simp add: whole_def)

lemma xor_enc_block:
  "16 \<le> length inp \<Longrightarrow>
   xor_bytes (enc_block E v) (take 16 inp) = xor_bytes (take 16 inp) (enc_block E v)"
  by (rule xor_bytes_commute)

text \<open>What either loop promises: the stream on the whole blocks, the rest left over.\<close>

definition loop_ok :: "block_cipher \<Rightarrow> inc_regs \<Rightarrow> bytes \<Rightarrow> inc_regs \<times> bytes \<times> bytes \<Rightarrow> bool" where
  "loop_ok E r inp res \<longleftrightarrow>
     (let n = whole (length inp)
      in regs_ok (fst res) \<and> rg_iv (fst res) = ctr_next (rg_iv r) n
         \<and> fst (snd res) = ctr_out E (rg_iv r) (take n inp) \<and> snd (snd res) = drop n inp)"

lemma loop_ok_last:
  assumes "regs_ok r" "length inp < 16"
  shows "loop_ok E r inp (r, [], inp)"
  using assms by (simp add: loop_ok_def whole_0)

lemma loop_ok_block:
  assumes r: "regs_ok r" and len: "16 \<le> length inp"
    and rest: "loop_ok E (aesni_inc r) (drop 16 inp) (r', out', rest')"
  shows "loop_ok E r inp (r', xor_bytes (enc_block E (rg_iv r)) (take 16 inp) @ out', rest')"
proof -
  let ?m = "whole (length inp - 16)"
  have "?m \<le> length inp - 16" by (rule whole_le)
  then have "ctr_out E (rg_iv r) (take (16 + ?m) inp) =
      xor_bytes (take 16 inp) (enc_block E (rg_iv r)) @ ctr_out E (be_inc (rg_iv r)) (take ?m (drop 16 inp))"
    using len by (subst ctr_out_step) (simp_all add: min_def take_drop add.commute)
  moreover have "ctr_next (rg_iv r) (16 + ?m) = ctr_next (be_inc (rg_iv r)) ?m"
    by (simp add: ctr_next_step)
  ultimately show ?thesis
    using rest len r
    by (simp add: loop_ok_def Let_def whole_step [of "length inp"] aesni_inc_spec xor_bytes_commute
        add.commute)
qed

lemma ctr_enc_loop1_ok:
  "regs_ok r \<Longrightarrow> 16 \<le> length inp \<Longrightarrow> loop_ok E r inp (ctr_enc_loop1 E r inp)"
proof (induction E r inp rule: ctr_enc_loop1.induct)
  case (1 E r inp)
  define res where "res = (if 16 \<le> length (drop 16 inp)
    then ctr_enc_loop1 E (aesni_inc r) (drop 16 inp) else (aesni_inc r, [], drop 16 inp))"
  obtain r' out' rest' where res': "res = (r', out', rest')" by (metis prod_cases3)
  have "loop_ok E (aesni_inc r) (drop 16 inp) res"
    using "1.IH" [OF refl refl refl refl] "1.prems"
    by (auto simp: res_def aesni_inc_spec loop_ok_last)
  then have "loop_ok E r inp (r', xor_bytes (enc_block E (rg_iv r)) (take 16 inp) @ out', rest')"
    using "1.prems" by (intro loop_ok_block) (simp_all add: res')
  moreover have "ctr_enc_loop1 E r inp =
      (r', xor_bytes (enc_block E (rg_iv r)) (take 16 inp) @ out', rest')"
    using res' by (auto simp: ctr_enc_loop1.simps [of E r inp] res_def Let_def split: if_splits)
  ultimately show ?case by simp
qed

lemma loop_ok_block4:
  assumes r: "regs_ok r" and len: "64 \<le> length inp"
    and rest: "loop_ok E (aesni_inc (aesni_inc (aesni_inc (aesni_inc r)))) (drop 64 inp) (r', out', rest')"
  shows "loop_ok E r inp (r',
    xor_bytes (enc_block E (rg_iv r)) (mem_read inp 0 16)
    @ xor_bytes (enc_block E (rg_iv (aesni_inc r))) (mem_read inp 16 16)
    @ xor_bytes (enc_block E (rg_iv (aesni_inc (aesni_inc r)))) (mem_read inp 32 16)
    @ xor_bytes (enc_block E (rg_iv (aesni_inc (aesni_inc (aesni_inc r))))) (mem_read inp 48 16)
    @ out', rest')"
proof -
  note ok = aesni_inc_spec(2)
  have "loop_ok E (aesni_inc (aesni_inc (aesni_inc r))) (drop 48 inp) (r', xor_bytes (enc_block E
      (rg_iv (aesni_inc (aesni_inc (aesni_inc r))))) (take 16 (drop 48 inp)) @ out', rest')"
    using r len rest by (intro loop_ok_block ok) simp_all
  then have "loop_ok E (aesni_inc (aesni_inc r)) (drop 32 inp) (r', xor_bytes (enc_block E
      (rg_iv (aesni_inc (aesni_inc r)))) (take 16 (drop 32 inp)) @ xor_bytes (enc_block E
      (rg_iv (aesni_inc (aesni_inc (aesni_inc r))))) (take 16 (drop 48 inp)) @ out', rest')"
    using r len by (intro loop_ok_block ok) simp_all
  then have "loop_ok E (aesni_inc r) (drop 16 inp) (r', xor_bytes (enc_block E
      (rg_iv (aesni_inc r))) (take 16 (drop 16 inp)) @ xor_bytes (enc_block E
      (rg_iv (aesni_inc (aesni_inc r)))) (take 16 (drop 32 inp)) @ xor_bytes (enc_block E
      (rg_iv (aesni_inc (aesni_inc (aesni_inc r))))) (take 16 (drop 48 inp)) @ out', rest')"
    using r len by (intro loop_ok_block ok) simp_all
  moreover have "16 \<le> length inp" using len by simp
  ultimately show ?thesis
    unfolding mem_read_def drop_0 by (intro loop_ok_block [OF r])
qed

lemma ctr_enc_loop4_ok:
  "regs_ok r \<Longrightarrow> 64 \<le> length inp \<Longrightarrow> loop_ok E r inp (ctr_enc_loop4 E r inp)"
proof (induction E r inp rule: ctr_enc_loop4.induct)
  case (1 E r inp)
  let ?r4 = "aesni_inc (aesni_inc (aesni_inc (aesni_inc r)))"
  define res where "res = (if 64 \<le> length (drop 64 inp) then ctr_enc_loop4 E ?r4 (drop 64 inp)
    else if length (drop 64 inp) < 16 then (?r4, [], drop 64 inp)
    else ctr_enc_loop1 E ?r4 (drop 64 inp))"
  obtain r' out' rest' where res': "res = (r', out', rest')" by (metis prod_cases3)
  have "regs_ok ?r4" using "1.prems" by (simp add: aesni_inc_spec)
  then have "loop_ok E ?r4 (drop 64 inp) res"
    using "1.IH" [OF refl refl refl refl refl refl refl refl refl refl refl refl refl refl]
    by (auto simp: res_def loop_ok_last ctr_enc_loop1_ok)
  then have "loop_ok E ?r4 (drop 64 inp) (r', out', rest')" by (simp only: res')
  note loop_ok_block4 [OF "1.prems" this]
  moreover have "ctr_enc_loop4 E r inp = (r',
      xor_bytes (enc_block E (rg_iv r)) (mem_read inp 0 16)
      @ xor_bytes (enc_block E (rg_iv (aesni_inc r))) (mem_read inp 16 16)
      @ xor_bytes (enc_block E (rg_iv (aesni_inc (aesni_inc r)))) (mem_read inp 32 16)
      @ xor_bytes (enc_block E (rg_iv (aesni_inc (aesni_inc (aesni_inc r))))) (mem_read inp 48 16)
      @ out', rest')"
    using res' by (auto simp: ctr_enc_loop4.simps [of E r inp] res_def Let_def split: if_splits)
  ultimately show ?case by simp
qed

lemma aesni_ctr_enc_spec:
  assumes "length v = 16"
  shows "aesni_ctr_enc E v data =
    (let n = whole (length data) in (ctr_next v n, ctr_out E v (take n data) @ drop n data))"
proof (cases "length data < 16")
  case False
  define res where "res = (if length data < 64 then ctr_enc_loop1 E (aesni_inc_init v) data
    else ctr_enc_loop4 E (aesni_inc_init v) data)"
  obtain r' out rest where res': "res = (r', out, rest)" by (metis prod_cases3)
  have "loop_ok E (aesni_inc_init v) data res"
    using False assms by (simp add: res_def regs_ok_init ctr_enc_loop1_ok ctr_enc_loop4_ok)
  moreover have "aesni_ctr_enc E v data = (rg_iv r', out @ rest)"
    using False res' by (simp add: aesni_ctr_enc_def Let_def flip: res_def)
  ultimately show ?thesis
    using assms by (simp add: loop_ok_def Let_def res' regs_ok_init)
qed (simp add: aesni_ctr_enc_def whole_0)

section \<open>The cipher interface\<close>

abbreviation (input) PRIV_CRYPT_SOME_ERR :: int where "PRIV_CRYPT_SOME_ERR \<equiv> 1"
abbreviation (input) PRIV_CRYPT_NO_ALG :: int where "PRIV_CRYPT_NO_ALG \<equiv> 2"

text \<open>
  \<open>st_key_enc\<close> is the head of the expanded schedule, which by the AES key expansion is the
  key itself; \<open>aes\<close> below is applied to it.
\<close>

record aesni_state =
  st_key_enc :: bytes
  st_iv :: bytes

text \<open>\<open>aesni_set_key\<close> compares the low byte of the length only, and never fails.\<close>

definition aesni_set_key :: "bytes \<Rightarrow> nat \<Rightarrow> int \<times> bytes" where
  "aesni_set_key in_key key_len =
     (let dl = key_len mod 256
      in (0, take (if dl < 24 then 16 else if dl = 24 then 24 else 32) in_key))"

text \<open>The two allocations of \<open>priv_aesni_init\<close> and what they hold are arguments.\<close>

definition priv_aesni_init ::
  "aesni_state option \<Rightarrow> bytes option \<Rightarrow> bool \<Rightarrow> u32 \<Rightarrow> int \<times> aesni_state option" where
  "priv_aesni_init st_mem ctx_mem result alg =
     (if \<not> result then (- PRIV_CRYPT_SOME_ERR, None)
      else case st_mem of
        None \<Rightarrow> (- PRIV_CRYPT_SOME_ERR, None)
      | Some st \<Rightarrow>
          if alg \<noteq> 1 then (- PRIV_CRYPT_NO_ALG, None)
          else case ctx_mem of
            None \<Rightarrow> (- PRIV_CRYPT_SOME_ERR, None)
          | Some m \<Rightarrow> (0, Some (st\<lparr>st_key_enc := m\<rparr>)))"

definition priv_aesni_set_key :: "aesni_state option \<Rightarrow> nat \<Rightarrow> bytes \<Rightarrow> int \<times> aesni_state option" where
  "priv_aesni_set_key user_ctx len k =
     (case user_ctx of
        None \<Rightarrow> (- PRIV_CRYPT_SOME_ERR, None)
      | Some st \<Rightarrow>
          let (rc, ks) = aesni_set_key k len
          in if rc \<noteq> 0 then (- PRIV_CRYPT_SOME_ERR, Some st) else (0, Some (st\<lparr>st_key_enc := ks\<rparr>)))"

definition priv_aesni_set_iv :: "aesni_state option \<Rightarrow> nat \<Rightarrow> bytes \<Rightarrow> int \<times> aesni_state option" where
  "priv_aesni_set_iv user_ctx len v =
     (case user_ctx of
        None \<Rightarrow> (- PRIV_CRYPT_SOME_ERR, None)
      | Some st \<Rightarrow>
          if len \<noteq> 16 then (- PRIV_CRYPT_SOME_ERR, Some st)
          else (0, Some (st\<lparr>st_iv := mem_write (st_iv st) 0 (take len v)\<rparr>)))"

text \<open>\<open>stack i\<close> is what byte \<open>i\<close> of the uninitialised local array \<open>last\<close> holds.\<close>

definition priv_aesni_crypt ::
  "(nat \<Rightarrow> byte) \<Rightarrow> (bytes \<Rightarrow> block_cipher) \<Rightarrow> aesni_state option \<Rightarrow> bytes
    \<Rightarrow> int \<times> aesni_state option \<times> bytes" where
  "priv_aesni_crypt stack aes user_ctx data =
     (case user_ctx of
        None \<Rightarrow> (- PRIV_CRYPT_SOME_ERR, None, data)
      | Some st \<Rightarrow>
          let E = aes (st_key_enc st);
              len = length data;
              most_len = (if 16 < len then len - len mod 16 else 0);
              (v1, out1) = (if 16 < len then aesni_ctr_enc E (st_iv st) (take most_len data)
                            else (st_iv st, []));
              data2 = drop most_len data;
              (v2, out2) = (if data2 \<noteq> []
                            then (let last = mem_write (map stack [0..<16]) 0 data2;
                                      (v, last') = aesni_ctr_enc E v1 last
                                  in (v, take (length data2) last'))
                            else (v1, []))
          in (0, Some (st\<lparr>st_iv := v2\<rparr>), out1 @ out2))"

definition priv_aesni_encrypt where
  "priv_aesni_encrypt stack aes user_ctx data = priv_aesni_crypt stack aes user_ctx data"

definition priv_aesni_decrypt where
  "priv_aesni_decrypt stack aes user_ctx data = priv_aesni_crypt stack aes user_ctx data"

text \<open>\<open>sizeof(st->aesni_ctx)\<close> is the size of a pointer; the value is the freed memory's image.\<close>

definition priv_aesni_destroy :: "aesni_state option \<Rightarrow> aesni_state option" where
  "priv_aesni_destroy user_ctx =
     map_option (\<lambda>st. st\<lparr>st_key_enc := mem_set (st_key_enc st) 0 0 8\<rparr>) user_ctx"

section \<open>The cipher is an endpoint\<close>

definition aesni_ready :: "aesni_state \<Rightarrow> bool" where
  "aesni_ready st \<longleftrightarrow> length (st_iv st) = 16"

lemma ctr_out_take:
  assumes "length src \<le> 16" "length pad = 16" "take (length src) pad = src"
  shows "take (length src) (ctr_out E v pad) = ctr_out E v src"
proof -
  have "ctr_out E v pad = xor_bytes pad (enc_block E v)"
    using assms(2) by (intro ctr_out_last) auto
  then have "take (length src) (ctr_out E v pad) = xor_bytes src (take (length src) (enc_block E v))"
    by (simp add: take_xor_bytes assms(3))
  then show ?thesis
    using assms(1) by (cases "src = []") (simp_all add: ctr_out_last xor_bytes_take2)
qed

text \<open>The last, partial block, padded with whatever the stack held.\<close>

lemma aesni_partial_block:
  assumes "length v = 16" "src \<noteq> []" "length src \<le> 16"
  shows "aesni_ctr_enc E v (mem_write (map stack [0..<16]) 0 src) =
      (ctr_next v (length src), ctr_out E v (mem_write (map stack [0..<16]) 0 src))"
    and "take (length src) (ctr_out E v (mem_write (map stack [0..<16]) 0 src)) = ctr_out E v src"
proof -
  let ?pad = "mem_write (map stack [0..<16]) 0 src"
  have l: "length ?pad = 16" using assms(3) by simp
  show "take (length src) (ctr_out E v ?pad) = ctr_out E v src"
    using assms l by (intro ctr_out_take) simp_all
  have "ctr_next v 16 = ctr_next v (length src)"
    using assms by (simp add: ctr_next_last)
  then show "aesni_ctr_enc E v ?pad = (ctr_next v (length src), ctr_out E v ?pad)"
    using assms l by (simp add: aesni_ctr_enc_spec whole_def Let_def)
qed

lemma priv_aesni_crypt_spec:
  assumes "aesni_ready st"
  shows "priv_aesni_crypt stack aes (Some st) data =
    (0, Some (st\<lparr>st_iv := ctr_next (st_iv st) (length data)\<rparr>), ctr_out (aes (st_key_enc st)) (st_iv st) data)"
proof -
  let ?E = "aes (st_key_enc st)" and ?v = "st_iv st"
  have v: "length ?v = 16" using assms by (simp add: aesni_ready_def)
  define m where "m = (if 16 < length data then length data - length data mod 16 else 0)"
  have m: "16 dvd m" "m \<le> length data" "whole m = m" "length (drop m data) \<le> 16"
    by (auto simp: m_def whole_def dvd_minus_mod)
  have first: "(if 16 < length data then aesni_ctr_enc ?E ?v (take m data) else (?v, [])) =
      (ctr_next ?v m, ctr_out ?E ?v (take m data))"
    using v m by (auto simp: aesni_ctr_enc_spec Let_def m_def)
  have second: "(if drop m data \<noteq> []
      then (let last = mem_write (map stack [0..<16]) 0 (drop m data);
                (v, last') = aesni_ctr_enc ?E (ctr_next ?v m) last
            in (v, take (length (drop m data)) last'))
      else (ctr_next ?v m, [])) =
      (ctr_next (ctr_next ?v m) (length (drop m data)), ctr_out ?E (ctr_next ?v m) (drop m data))"
  proof (cases "drop m data = []")
    case False
    then show ?thesis
      using aesni_partial_block [of "ctr_next ?v m" "drop m data" ?E stack] v m(4)
      by (simp only: Let_def if_False not_False_eq_True if_True length_ctr_next prod.case)
  qed (simp del: drop_eq_Nil)
  have out: "ctr_out ?E ?v data = ctr_out ?E ?v (take m data) @ ctr_out ?E (ctr_next ?v m) (drop m data)"
    using ctr_out_append [of "take m data" ?E ?v "drop m data"] m by simp
  have nxt: "ctr_next ?v (length data) = ctr_next (ctr_next ?v m) (length (drop m data))"
    using ctr_next_append [of m ?v "length data - m"] m by simp
  show ?thesis
    unfolding priv_aesni_crypt_def option.case Let_def m_def [symmetric] first prod.case
      second [unfolded Let_def] out nxt ..
qed

definition aesni_crypt_msg ::
  "(nat \<Rightarrow> byte) \<Rightarrow> (bytes \<Rightarrow> block_cipher) \<Rightarrow> aesni_state \<Rightarrow> bytes \<Rightarrow> aesni_state \<times> bytes" where
  "aesni_crypt_msg stack aes st m =
     (case priv_aesni_crypt stack aes (Some st) m of
        (rc, st', out) \<Rightarrow> (case st' of Some st' \<Rightarrow> st' | None \<Rightarrow> st, out))"

definition aesni_cipher :: "(bytes \<Rightarrow> block_cipher) \<Rightarrow> aesni_state \<Rightarrow> block_cipher" where
  "aesni_cipher aes st = aes (st_key_enc st)"

interpretation aesni: ctr_endpoint "aesni_crypt_msg stack aes" "aesni_cipher aes" st_iv aesni_ready "\<lambda>m. True"
  for stack aes
  by unfold_locales
    (simp_all add: aesni_crypt_msg_def priv_aesni_crypt_spec aesni_cipher_def aesni_ready_def)

lemma priv_aesni_set_key_valid:
  assumes "len = 16 \<or> len = 24 \<or> len = 32"
  shows "priv_aesni_set_key (Some st) len k = (0, Some (st\<lparr>st_key_enc := take len k\<rparr>))"
  using assms by (auto simp: priv_aesni_set_key_def aesni_set_key_def)

lemma priv_aesni_set_iv_valid:
  assumes "length (st_iv st) = 16" "length v = 16"
  shows "priv_aesni_set_iv (Some st) 16 v = (0, Some (st\<lparr>st_iv := v\<rparr>))"
  using assms by (simp add: priv_aesni_set_iv_def mem_write_def)

lemma priv_aesni_destroy_leaves_key:
  assumes "8 \<le> i" "i < length (st_key_enc st)"
  shows "st_key_enc (the (priv_aesni_destroy (Some st))) ! i = st_key_enc st ! i"
  using assms by (simp add: priv_aesni_destroy_def nth_mem_set)

section \<open>Properties\<close>

text \<open>
  C12. The AES-NI backend computes the same stream as the kernel: four blocks at a time, then
  one at a time, then the partial block through an uninitialised stack buffer whose old
  contents have no effect on the output, with the carry into the high half of the counter
  handled by the register code.
\<close>

theorem aesni_is_stream:
  assumes "length (st_iv st) = 16"
  shows "priv_aesni_crypt stack aes (Some st) data =
    (0, Some (st\<lparr>st_iv := ctr_next (st_iv st) (length data)\<rparr>), ctr_out (aes (st_key_enc st)) (st_iv st) data)"
  using assms by (intro priv_aesni_crypt_spec) (simp add: aesni_ready_def)

theorem aesni_is_stream_witness:
  "priv_aesni_crypt (\<lambda>i. 0xff) (\<lambda>k b. b) (Some \<lparr>st_key_enc = [], st_iv = replicate 16 0xff\<rparr>) (replicate 100 3) =
    (0, Some \<lparr>st_key_enc = [], st_iv = ctr_next (replicate 16 0xff) 100\<rparr>,
     ctr_out (\<lambda>b. b) (replicate 16 0xff) (replicate 100 3))"
  using aesni_is_stream [of "\<lparr>st_key_enc = [], st_iv = replicate 16 0xff\<rparr>" "\<lambda>i. 0xff" "\<lambda>k b. b" "replicate 100 3"]
  by simp



end
