(* ===== verification/Channel.thy ===== *)
theory Channel
  imports Priv_Crypto Aesni
begin

text \<open>
  The two ends of a private channel: the kernel's context (\<open>drivers/priv/crypto.c\<close>) on one
  side and the user-space AES-NI backend (\<open>crypto/libprivcrypt/aesni.c\<close>) on the other. The
  locale \<open>ctr_channel\<close> is interpreted in both directions, and the ends are shown to be in
  step once both have been given the same key and IV, so that messages of any lengths,
  encrypted one after the other at one end, are recovered at the other.
\<close>

interpretation to_user: ctr_channel "kern_crypt_msg aes" "kern_cipher aes" kern_ctr kern_ready "\<lambda>m. True"
  "aesni_crypt_msg stack aes" "aesni_cipher aes" st_iv aesni_ready "\<lambda>m. True" for stack aes
  by unfold_locales simp

interpretation to_kernel: ctr_channel "aesni_crypt_msg stack aes" "aesni_cipher aes" st_iv aesni_ready "\<lambda>m. True"
  "kern_crypt_msg aes" "kern_cipher aes" kern_ctr kern_ready "\<lambda>m. True" for stack aes
  by unfold_locales simp

text \<open>Both ends after a key exchange: the same key and the same initial counter.\<close>

definition kern_end :: "bytes \<Rightarrow> bytes \<Rightarrow> priv_crypt_ctx \<Rightarrow> priv_crypt_ctx option" where
  "kern_end key iv c = priv_set_activated
     (Some (snd (priv_set_iv (snd (priv_set_key c (length key) key)) (length iv) iv))) 1"

definition user_end :: "bytes \<Rightarrow> bytes \<Rightarrow> aesni_state \<Rightarrow> aesni_state option" where
  "user_end key iv st = snd (priv_aesni_set_iv (snd (priv_aesni_set_key (Some st) (length key) key)) (length iv) iv)"

lemma kern_end_spec:
  assumes "ctx_wf c" "cx_key_size c = length key" "length iv = 16"
  shows "\<exists>c'. kern_end key iv c = Some c' \<and> kern_ready c' \<and> kern_cipher aes c' = aes key \<and> kern_ctr c' = iv"
proof -
  obtain c1 where c1: "c1 = snd (priv_set_key c (length key) key)" by simp
  have wf1: "ctx_wf c1" and k1: "take (length key) (cx_key c1) = key"
    unfolding c1 using priv_set_key_wf [OF assms(1) assms(2) [symmetric], of key] by simp_all
  have sz: "cx_key_size c1 = length key"
    unfolding c1 using assms(2) by (auto simp: priv_set_key_def Let_def split: option.splits prod.splits)
  obtain t where t: "cx_cipher c1 = Some t" using wf1 by (rule ctx_wf_cipherE)
  note iv = priv_set_iv_spec [OF wf1 _ t, of iv]
  let ?c' = "(snd (priv_set_iv c1 16 iv))\<lparr>cx_activated := 1\<rparr>"
  have "ctx_wf (snd (priv_set_iv c1 16 iv))" using priv_set_iv_wf [OF wf1] assms(3) by simp
  then have "kern_ready ?c'" by (simp add: kern_ready_def allow_encrypt_def ctx_wf_def)
  moreover have "kern_cipher aes ?c' = aes key" using assms(3) k1 sz by (simp add: kern_cipher_def iv)
  moreover have "kern_ctr ?c' = iv" using assms(3) by (simp add: kern_ctr_def iv)
  moreover have "kern_end key iv c = Some ?c'"
    using assms(3) by (simp add: kern_end_def c1 priv_set_activated_def)
  ultimately show ?thesis by blast
qed

lemma user_end_spec:
  assumes "aesni_ready st" "length key = 16 \<or> length key = 24 \<or> length key = 32" "length iv = 16"
  shows "\<exists>st'. user_end key iv st = Some st' \<and> aesni_ready st' \<and> aesni_cipher aes st' = aes key \<and> st_iv st' = iv"
  using assms priv_aesni_set_key_valid [OF assms(2), of st key]
    priv_aesni_set_iv_valid [of "st\<lparr>st_key_enc := key\<rparr>" iv]
  by (simp add: user_end_def aesni_ready_def aesni_cipher_def)

lemma channel_in_step:
  assumes "ctx_wf c" "cx_key_size c = length key" "aesni_ready st" "length iv = 16"
    "kern_end key iv c = Some c'" "user_end key iv st = Some st'"
  shows "to_user.in_step aes c' st'" "to_kernel.in_step aes st' c'"
proof -
  have "length key = 16 \<or> length key = 24 \<or> length key = 32" using assms(1,2) by (auto simp: ctx_wf_def)
  then show "to_user.in_step aes c' st'" "to_kernel.in_step aes st' c'"
    using kern_end_spec [OF assms(1,2,4), of aes] user_end_spec [OF assms(3) _ assms(4), of key aes] assms(5,6)
    by (auto simp: to_user.in_step_def to_kernel.in_step_def)
qed

definition demo_st :: aesni_state where
  "demo_st = \<lparr>st_key_enc = [], st_iv = replicate 16 0\<rparr>"

lemma demo_ends:
  "cx_key_size demo_ctx = length (replicate 16 (2::byte))" "aesni_ready demo_st" "length (replicate 16 (3::byte)) = 16"
  "kern_end (replicate 16 2) (replicate 16 3) demo_ctx = Some (the (kern_end (replicate 16 2) (replicate 16 3) demo_ctx))"
  "user_end (replicate 16 2) (replicate 16 3) demo_st = Some (the (user_end (replicate 16 2) (replicate 16 3) demo_st))"
proof -
  show k: "cx_key_size demo_ctx = length (replicate 16 (2::byte))" and r: "aesni_ready demo_st"
    and l: "length (replicate 16 (3::byte)) = 16"
    by (simp_all add: demo_ctx_def demo_st_def aesni_ready_def)
  show "kern_end (replicate 16 2) (replicate 16 3) demo_ctx = Some (the (kern_end (replicate 16 2) (replicate 16 3) demo_ctx))"
    using kern_end_spec [OF demo_ctx_wf k l] by (metis option.sel)
  show "user_end (replicate 16 2) (replicate 16 3) demo_st = Some (the (user_end (replicate 16 2) (replicate 16 3) demo_st))"
    using user_end_spec [OF r _ l, of "replicate 16 2"] by (metis length_replicate option.sel)
qed

section \<open>Properties\<close>

text \<open>
  C2. From the kernel to user space: once both ends have been given the same key and IV, any
  sequence of messages of any lengths that the kernel encrypts one by one is recovered
  exactly by the user-space library, message by message, whatever the stack held.
\<close>

theorem kernel_to_user:
  assumes "ctx_wf c" "cx_key_size c = length key" "aesni_ready st" "length iv = 16"
    "kern_end key iv c = Some c'" "user_end key iv st = Some st'"
  shows "snd (crypt_list (aesni_crypt_msg stack aes) st' (snd (crypt_list (kern_crypt_msg aes) c' ms))) = ms"
  using to_user.recover_list [OF channel_in_step(1) [OF assms], where ms = ms and stack = stack] by (simp add: list_all_iff)

theorem kernel_to_user_witness:
  "snd (crypt_list (aesni_crypt_msg (\<lambda>i. 1) (\<lambda>k b. b)) (the (user_end (replicate 16 2) (replicate 16 3) demo_st))
     (snd (crypt_list (kern_crypt_msg (\<lambda>k b. b)) (the (kern_end (replicate 16 2) (replicate 16 3) demo_ctx)) [[1, 2], [3]]))) = [[1, 2], [3]]"
  using kernel_to_user [OF demo_ctx_wf demo_ends(1-5), where stack = "\<lambda>i. 1" and aes = "\<lambda>k b. b" and ms = "[[1, 2], [3]]"] .

text \<open>
  C3. From user space to the kernel: the same in the other direction.
\<close>

theorem user_to_kernel:
  assumes "ctx_wf c" "cx_key_size c = length key" "aesni_ready st" "length iv = 16"
    "kern_end key iv c = Some c'" "user_end key iv st = Some st'"
  shows "snd (crypt_list (kern_crypt_msg aes) c' (snd (crypt_list (aesni_crypt_msg stack aes) st' ms))) = ms"
  using to_kernel.recover_list [OF channel_in_step(2) [OF assms], where ms = ms and stack = stack] by (simp add: list_all_iff)

theorem user_to_kernel_witness:
  "snd (crypt_list (kern_crypt_msg (\<lambda>k b. b)) (the (kern_end (replicate 16 2) (replicate 16 3) demo_ctx))
     (snd (crypt_list (aesni_crypt_msg (\<lambda>i. 1) (\<lambda>k b. b)) (the (user_end (replicate 16 2) (replicate 16 3) demo_st)) [[4], [5, 6]]))) = [[4], [5, 6]]"
  using user_to_kernel [OF demo_ctx_wf demo_ends(1-5), where stack = "\<lambda>i. 1" and aes = "\<lambda>k b. b" and ms = "[[4], [5, 6]]"] .

end
