(* ===== verification/Priv_Crypt_Drv.thy ===== *)
theory Priv_Crypt_Drv
  imports Priv_Crypto "HOL-Library.Monad_Syntax"
begin

text \<open>
  The character device that manages cryptographic contexts,
  \<open>host/linux-3.0/drivers/priv/priv_crypt_drv.c\<close>. The state is a heap of contexts, the list
  \<open>the_config.ctx_list\<close>, the \<open>cctx\<close> field of every \<open>priv_crypt_ctx_ref\<close> and the
  \<open>private_data\<close> of every open file. Every operation is in the option monad: \<open>None\<close> is the
  access to memory that is not an allocated context (a freed context or a null pointer), and
  error codes are ordinary values. The key-exchange handler that \<open>do_kex\<close> calls is an
  argument; the locale \<open>kex_handler\<close> states what the driver relies on, and the theory
  \<open>Kex\<close> interprets it.
\<close>

section \<open>State\<close>

record drv =
  dv_init :: bool
  dv_list :: "addr list"
  dv_heap :: "addr \<Rightarrow> priv_crypt_ctx option"
  dv_refs :: "addr \<Rightarrow> addr option"
  dv_files :: "addr \<Rightarrow> addr option"
  dv_last_id :: u32

definition put_ctx :: "addr \<Rightarrow> priv_crypt_ctx \<Rightarrow> drv \<Rightarrow> drv" where
  "put_ctx a c s = s\<lparr>dv_heap := (dv_heap s)(a \<mapsto> c)\<rparr>"

definition cctx_ref_init :: "addr \<Rightarrow> drv \<Rightarrow> drv" where
  "cctx_ref_init r s = s\<lparr>dv_refs := (dv_refs s)(r := None)\<rparr>"

section \<open>Looking up and claiming a context\<close>

primrec find_ctx_in :: "(addr \<Rightarrow> priv_crypt_ctx option) \<Rightarrow> u32 \<Rightarrow> addr list \<Rightarrow> addr option option" where
  "find_ctx_in h i [] = Some None"
| "find_ctx_in h i (a # l) =
     do { c \<leftarrow> h a; if cx_id c = i then Some (Some a) else find_ctx_in h i l }"

definition find_ctx_by_id :: "u32 \<Rightarrow> drv \<Rightarrow> addr option option" where
  "find_ctx_by_id i s = find_ctx_in (dv_heap s) i (dv_list s)"

definition use_ctx :: "u32 \<Rightarrow> addr option \<Rightarrow> drv \<Rightarrow> (int \<times> drv) option" where
  "use_ctx i cctx_ref s =
     (case cctx_ref of
        None \<Rightarrow> Some (- EINVAL, s)
      | Some r \<Rightarrow> do {
          found \<leftarrow> find_ctx_by_id i s;
          case found of
            None \<Rightarrow> Some (- ENODEV, s)
          | Some a \<Rightarrow> do {
              c \<leftarrow> dv_heap s a;
              if \<not> cx_user_lock c
              then Some (0, (put_ctx a (c\<lparr>cx_user_lock := True, cx_user_ref := Some r\<rparr>) s)
                     \<lparr>dv_refs := (dv_refs s)(r \<mapsto> a)\<rparr>)
              else Some (- EBUSY, s) } })"

definition unuse_ctx :: "addr option \<Rightarrow> drv \<Rightarrow> drv option" where
  "unuse_ctx cctx_ref s =
     (case cctx_ref of
        None \<Rightarrow> Some s
      | Some r \<Rightarrow>
          (case dv_refs s r of
             None \<Rightarrow> Some s
           | Some a \<Rightarrow> do {
               c \<leftarrow> dv_heap s a;
               Some (put_ctx a (c\<lparr>cx_user_ref := None, cx_user_lock := False\<rparr>) s) }))"

section \<open>Storing and removing\<close>

definition store_ctx :: "addr \<Rightarrow> drv \<Rightarrow> drv" where
  "store_ctx a s = s\<lparr>dv_list := a # dv_list s\<rparr>"

definition remove_ctx :: "addr \<Rightarrow> drv \<Rightarrow> drv option" where
  "remove_ctx a s = do {
     c \<leftarrow> dv_heap s a;
     let s' = (case cx_user_ref c of
                 None \<Rightarrow> s
               | Some r \<Rightarrow> (put_ctx a (c\<lparr>cx_user_ref := None\<rparr>) s)
                   \<lparr>dv_refs := (dv_refs s)(r := None)\<rparr>);
     Some (s'\<lparr>dv_list := remove1 a (dv_list s')\<rparr>) }"

definition free_ctx :: "addr \<Rightarrow> drv \<Rightarrow> drv" where
  "free_ctx a s = s\<lparr>dv_heap := (dv_heap s)(a := None)\<rparr>"

section \<open>The commands\<close>

text \<open>
  User memory: \<open>copy_from_user\<close> of an argument yields the value, or \<open>None\<close> when it faults.
\<close>

record alg_desc =
  ad_alg :: u32
  ad_key_size :: u32
  ad_dir :: byte

record iv_desc =
  vd_iv_size :: u32
  vd_iv :: bytes

record kex_desc =
  kd_in_size :: u32
  kd_in_buf :: "bytes option"
  kd_out_size_ok :: bool
  kd_out_buf_ok :: bool

definition priv_crypt_open :: "addr \<Rightarrow> drv \<Rightarrow> int \<times> drv" where
  "priv_crypt_open f s = (0, s\<lparr>dv_files := (dv_files s)(f := None)\<rparr>)"

definition priv_crypt_release :: "addr \<Rightarrow> drv \<Rightarrow> int \<times> drv" where
  "priv_crypt_release f s = (0, s)"

text \<open>\<open>a\<close> is the address the allocator returns for the new context, \<open>pid\<close> the caller.\<close>

definition do_new_ctx ::
  "alloc_env \<Rightarrow> addr \<Rightarrow> int \<Rightarrow> addr \<Rightarrow> alg_desc option \<Rightarrow> drv \<Rightarrow> (int \<times> drv) option" where
  "do_new_ctx ev a pid f arg s =
     (case arg of
        None \<Rightarrow> Some (- EFAULT, s)
      | Some desc \<Rightarrow>
          let (rc, res, n) = make_crypto_ctx ev (dv_last_id s) (ad_alg desc)
                               (unat (ad_key_size desc)) (uint (ad_dir desc));
              s = s\<lparr>dv_last_id := n\<rparr>
          in if rc < 0 then Some (rc, s)
             else do {
               c \<leftarrow> res;
               Some (rc, (store_ctx a (put_ctx a (c\<lparr>cx_alloc_pid := pid\<rparr>) s))
                 \<lparr>dv_files := (dv_files s)(f \<mapsto> a)\<rparr>) })"

definition do_use_ctx :: "addr \<Rightarrow> u32 option \<Rightarrow> drv \<Rightarrow> (int \<times> drv) option" where
  "do_use_ctx f arg s =
     (case arg of
        None \<Rightarrow> Some (- EFAULT, s)
      | Some i \<Rightarrow> do {
          found \<leftarrow> find_ctx_by_id i s;
          case found of
            None \<Rightarrow> Some (- ENODEV, s)
          | Some a \<Rightarrow> Some (0, s\<lparr>dv_files := (dv_files s)(f \<mapsto> a)\<rparr>) })"

definition do_set_iv :: "addr option \<Rightarrow> iv_desc option \<Rightarrow> drv \<Rightarrow> (int \<times> drv) option" where
  "do_set_iv cctx arg s =
     (case cctx of
        None \<Rightarrow> Some (- EINVAL, s)
      | Some a \<Rightarrow>
          (case arg of
             None \<Rightarrow> Some (- EFAULT, s)
           | Some desc \<Rightarrow> do {
               c \<leftarrow> dv_heap s a;
               let (rc, c') = priv_set_iv c (unat (vd_iv_size desc)) (vd_iv desc);
               Some (rc, put_ctx a c' s) }))"

definition do_set_activated :: "addr option \<Rightarrow> int \<Rightarrow> drv \<Rightarrow> (int \<times> drv) option" where
  "do_set_activated cctx activated s =
     (case cctx of
        None \<Rightarrow> Some (- EINVAL, s)
      | Some a \<Rightarrow> do {
          c \<leftarrow> dv_heap s a;
          c' \<leftarrow> priv_set_activated (Some c) activated;
          Some (0, put_ctx a c' s) })"

definition do_destroy :: "addr \<Rightarrow> drv \<Rightarrow> (int \<times> drv) option" where
  "do_destroy f s =
     (case dv_files s f of
        None \<Rightarrow> Some (- EINVAL, s)
      | Some a \<Rightarrow> do {
          s \<leftarrow> remove_ctx a s;
          Some (0, (free_ctx a s)\<lparr>dv_files := (dv_files s)(f := None)\<rparr>) })"

text \<open>The loop saves the successor first, so it visits the list as it was on entry.\<close>

primrec pid_death_loop :: "int \<Rightarrow> addr list \<Rightarrow> drv \<Rightarrow> drv option" where
  "pid_death_loop pid [] s = Some s"
| "pid_death_loop pid (a # l) s = do {
     c \<leftarrow> dv_heap s a;
     s \<leftarrow> (if cx_alloc_pid c = pid
           then do { s \<leftarrow> remove_ctx a s; Some (free_ctx a s) }
           else Some s);
     pid_death_loop pid l s }"

definition priv_pid_death_action :: "int \<Rightarrow> drv \<Rightarrow> drv option" where
  "priv_pid_death_action pid s =
     (if \<not> dv_init s then Some s else pid_death_loop pid (dv_list s) s)"

definition do_crypt :: "drv \<Rightarrow> int \<times> drv" where
  "do_crypt s = (- EINVAL, s)"

text \<open>
  \<open>pkm\<close> is \<open>process_kex_msg\<close>: from a context, the room in the buffer, the size of the
  message and the buffer holding it to the return code, the size of the reply, the context
  and the buffer, or \<open>None\<close> for a fault or a loop that does not end. The third component of the result is what reaches the caller's
  \<open>out_buf\<close>.
\<close>

type_synonym kex_fn =
  "priv_crypt_ctx \<Rightarrow> nat \<Rightarrow> nat \<Rightarrow> bytes \<Rightarrow> (int \<times> nat \<times> priv_crypt_ctx \<times> bytes) option"

definition do_kex ::
  "kex_fn \<Rightarrow> addr option \<Rightarrow> kex_desc option \<Rightarrow> drv \<Rightarrow> (int \<times> drv \<times> bytes) option" where
  "do_kex pkm cctx arg s =
     (case arg of
        None \<Rightarrow> Some (- EFAULT, s, [])
      | Some d \<Rightarrow>
          if MAX_KEX_MSG_LEN < unat (kd_in_size d) then Some (- EINVAL, s, [])
          else do {
            a \<leftarrow> cctx;
            c \<leftarrow> dv_heap s a;
            case kd_in_buf d of
              None \<Rightarrow> Some (- EFAULT, s, [])
            | Some msg \<Rightarrow> do {
                let buf = mem_write (cx_kex_buf c) 0 (take (unat (kd_in_size d)) msg);
                (rc, out_sz, c', buf') \<leftarrow> pkm c MAX_KEX_MSG_LEN (unat (kd_in_size d)) buf;
                let s' = put_ctx a (c'\<lparr>cx_kex_buf := buf'\<rparr>) s;
                if rc < 0 then Some (rc, s', [])
                else if \<not> kd_out_size_ok d \<or> \<not> kd_out_buf_ok d then Some (- EFAULT, s', [])
                else Some (0, s', take out_sz buf') } })"

datatype ioctl_arg =
    ArgNew alloc_env addr "alg_desc option"
  | ArgUse "u32 option"
  | ArgIv "iv_desc option"
  | ArgKex "kex_desc option"
  | ArgNone

text \<open>
  The argument of a command is the decoded user memory (with the allocator's answers for
  \<open>NEW_CTX\<close>); a command of another number returns \<open>-EINVAL\<close>. A run before
  initialisation is \<open>BUG()\<close>.
\<close>

definition priv_crypt_ioctl ::
  "kex_fn \<Rightarrow> int \<Rightarrow> addr \<Rightarrow> u32 \<Rightarrow> ioctl_arg \<Rightarrow> drv \<Rightarrow> (int \<times> drv \<times> bytes) option" where
  "priv_crypt_ioctl pkm pid f cmd arg s =
     (if \<not> dv_init s then None
      else if cmd = 1 then
        (case arg of ArgNew ev a d \<Rightarrow> map_option (\<lambda>(rc, s). (rc, s, [])) (do_new_ctx ev a pid f d s)
         | _ \<Rightarrow> Some (- EFAULT, s, []))
      else if cmd = 2 then
        (case arg of ArgUse i \<Rightarrow> map_option (\<lambda>(rc, s). (rc, s, [])) (do_use_ctx f i s)
         | _ \<Rightarrow> Some (- EFAULT, s, []))
      else if cmd = 3 then
        map_option (\<lambda>(rc, s). (rc, s, []))
          (do_set_iv (dv_files s f) (case arg of ArgIv d \<Rightarrow> d | _ \<Rightarrow> None) s)
      else if cmd = 4 then map_option (\<lambda>(rc, s). (rc, s, [])) (do_set_activated (dv_files s f) 1 s)
      else if cmd = 5 then map_option (\<lambda>(rc, s). (rc, s, [])) (do_set_activated (dv_files s f) 0 s)
      else if cmd = 6 then map_option (\<lambda>(rc, s). (rc, s, [])) (do_destroy f s)
      else if cmd = 31 then Some (case do_crypt s of (rc, s) \<Rightarrow> (rc, s, []))
      else if cmd = 7 then
        do_kex pkm (dv_files s f) (case arg of ArgKex d \<Rightarrow> d | _ \<Rightarrow> None) s
      else Some (- EINVAL, s, []))"

text \<open>Module start-up; the outcomes of the two registrations are arguments.\<close>

definition priv_crypt_init :: "bool \<Rightarrow> bool \<Rightarrow> drv \<Rightarrow> int \<times> drv" where
  "priv_crypt_init region_ok cdev_ok s =
     (let s = s\<lparr>dv_list := [], dv_init := True\<rparr>
      in if region_ok \<and> cdev_ok then (0, s) else (- 1, s))"

section \<open>The invariant\<close>

definition ctx_ok :: "drv \<Rightarrow> priv_crypt_ctx \<Rightarrow> bool" where
  "ctx_ok s c \<longleftrightarrow> ctx_wf c \<and> length (cx_kex_buf c) = MAX_KEX_MSG_LEN
     \<and> cx_id c \<le> dv_last_id s \<and> cx_user_lock c = (cx_user_ref c \<noteq> None)"

definition drv_inv :: "drv \<Rightarrow> bool" where
  "drv_inv s \<longleftrightarrow>
     distinct (dv_list s) \<and> set (dv_list s) = dom (dv_heap s)
     \<and> (\<forall>a c. dv_heap s a = Some c \<longrightarrow> ctx_ok s c)
     \<and> (\<forall>a b c d. dv_heap s a = Some c \<longrightarrow> dv_heap s b = Some d \<longrightarrow> cx_id c = cx_id d \<longrightarrow> a = b)
     \<and> (\<forall>r a. dv_refs s r = Some a \<longleftrightarrow> (\<exists>c. dv_heap s a = Some c \<and> cx_user_ref c = Some r))"

lemma drv_invD:
  assumes "drv_inv s"
  shows "distinct (dv_list s)" "set (dv_list s) = dom (dv_heap s)"
    "dv_heap s a = Some c \<Longrightarrow> ctx_ok s c"
    "dv_heap s a = Some c \<Longrightarrow> dv_heap s b = Some d \<Longrightarrow> cx_id c = cx_id d \<Longrightarrow> a = b"
    "dv_refs s r = Some a \<longleftrightarrow> (\<exists>c. dv_heap s a = Some c \<and> cx_user_ref c = Some r)"
  using assms unfolding drv_inv_def by blast+

text \<open>Replacing a context by one that agrees on identity and ownership.\<close>

lemma drv_inv_put:
  assumes inv: "drv_inv s" and c: "dv_heap s a = Some c"
    and c': "ctx_wf c'" "length (cx_kex_buf c') = MAX_KEX_MSG_LEN" "cx_id c' = cx_id c"
      "cx_user_lock c' = cx_user_lock c" "cx_user_ref c' = cx_user_ref c"
  shows "drv_inv (put_ctx a c' s)"
proof -
  have ok: "ctx_ok (put_ctx a c' s) x" if "dv_heap (put_ctx a c' s) b = Some x" for b x
    using that drv_invD(3) [OF inv] c c'
    by (fastforce simp: put_ctx_def ctx_ok_def split: if_splits)
  show ?thesis
    unfolding drv_inv_def
  proof (intro conjI allI impI)
    show "distinct (dv_list (put_ctx a c' s))" using drv_invD(1) [OF inv] by (simp add: put_ctx_def)
    show "set (dv_list (put_ctx a c' s)) = dom (dv_heap (put_ctx a c' s))"
      using drv_invD(2) [OF inv] c by (auto simp: put_ctx_def)
  next
    fix b x assume "dv_heap (put_ctx a c' s) b = Some x" then show "ctx_ok (put_ctx a c' s) x" by (rule ok)
  next
    fix x y d e
    assume "dv_heap (put_ctx a c' s) x = Some d" "dv_heap (put_ctx a c' s) y = Some e" "cx_id d = cx_id e"
    then show "x = y"
      using drv_invD(4) [OF inv] c c'(3) by (fastforce simp: put_ctx_def split: if_splits)
  next
    fix r b
    show "dv_refs (put_ctx a c' s) r = Some b \<longleftrightarrow>
        (\<exists>c. dv_heap (put_ctx a c' s) b = Some c \<and> cx_user_ref c = Some r)"
      using drv_invD(5) [OF inv, of r b] c c'(5) by (auto simp: put_ctx_def)
  qed
qed

lemma find_ctx_in_spec:
  assumes "set l \<subseteq> dom h"
  shows "\<exists>found. find_ctx_in h i l = Some found \<and>
    (case found of None \<Rightarrow> \<forall>a c. a \<in> set l \<longrightarrow> h a = Some c \<longrightarrow> cx_id c \<noteq> i
     | Some a \<Rightarrow> a \<in> set l \<and> (\<exists>c. h a = Some c \<and> cx_id c = i))"
  using assms
proof (induction l)
  case (Cons a l)
  then obtain c where c: "h a = Some c" by auto
  from Cons obtain found where f: "find_ctx_in h i l = Some found"
    "case found of None \<Rightarrow> \<forall>a c. a \<in> set l \<longrightarrow> h a = Some c \<longrightarrow> cx_id c \<noteq> i
     | Some a \<Rightarrow> a \<in> set l \<and> (\<exists>c. h a = Some c \<and> cx_id c = i)"
    by auto
  show ?case
    by (rule exI [of _ "if cx_id c = i then Some a else found"])
      (use c f in \<open>auto split: option.splits\<close>)
qed simp

text \<open>A lookup never faults, and finds the context with the identifier if there is one.\<close>

lemma find_ctx_by_id_spec:
  assumes "drv_inv s"
  shows "find_ctx_by_id i s = Some found \<longleftrightarrow>
    (case found of None \<Rightarrow> \<forall>a c. dv_heap s a = Some c \<longrightarrow> cx_id c \<noteq> i
     | Some a \<Rightarrow> \<exists>c. dv_heap s a = Some c \<and> cx_id c = i)"
proof -
  have d: "set (dv_list s) = dom (dv_heap s)" by (rule drv_invD(2) [OF assms])
  then obtain f where f: "find_ctx_by_id i s = Some f"
    "case f of None \<Rightarrow> \<forall>a c. dv_heap s a = Some c \<longrightarrow> cx_id c \<noteq> i
     | Some a \<Rightarrow> \<exists>c. dv_heap s a = Some c \<and> cx_id c = i"
    using find_ctx_in_spec [of "dv_list s" "dv_heap s" i]
    by (force simp: find_ctx_by_id_def split: option.splits)
  then show ?thesis
    using drv_invD(4) [OF assms] by (fastforce split: option.splits)
qed

section \<open>Every operation keeps the invariant\<close>

lemma use_ctx_inv:
  assumes inv: "drv_inv s" and r: "dv_refs s r = None" and u: "use_ctx i (Some r) s = Some (rc, s')"
  shows "drv_inv s'"
proof -
  obtain found where f: "find_ctx_by_id i s = Some found"
    using u by (auto simp: use_ctx_def split: Option.bind_splits)
  show ?thesis
  proof (cases found)
    case None
    then show ?thesis using u f inv by (auto simp: use_ctx_def)
  next
    case (Some a)
    then obtain c where c: "dv_heap s a = Some c" using u f by (auto simp: use_ctx_def split: Option.bind_splits)
    show ?thesis
    proof (cases "cx_user_lock c")
      case True
      then show ?thesis using u f c Some inv by (auto simp: use_ctx_def)
    next
      case False
      define c' where "c' = c\<lparr>cx_user_lock := True, cx_user_ref := Some r\<rparr>"
      have s': "s' = (put_ctx a c' s)\<lparr>dv_refs := (dv_refs s)(r \<mapsto> a)\<rparr>"
        using u f c Some False by (auto simp: use_ctx_def c'_def)
      have ok: "ctx_ok s c" by (rule drv_invD(3) [OF inv c])
      have noref: "cx_user_ref c = None" using ok False by (simp add: ctx_ok_def)
      have other: "cx_user_ref d \<noteq> Some r" if "dv_heap s b = Some d" for b d
        using drv_invD(5) [OF inv, of r b] that r by auto
      show ?thesis
        unfolding drv_inv_def
      proof (intro conjI allI impI)
        show "distinct (dv_list s')" using drv_invD(1) [OF inv] by (simp add: s' put_ctx_def)
        show "set (dv_list s') = dom (dv_heap s')"
          using drv_invD(2) [OF inv] c by (auto simp: s' put_ctx_def)
      next
        fix b d assume "dv_heap s' b = Some d" then show "ctx_ok s' d"
          using drv_invD(3) [OF inv, of b d] ok
          by (auto simp: s' put_ctx_def c'_def ctx_ok_def split: if_splits)
      next
        fix x y d e assume "dv_heap s' x = Some d" "dv_heap s' y = Some e" "cx_id d = cx_id e"
        then show "x = y"
          using drv_invD(4) [OF inv] c
          by (fastforce simp: s' put_ctx_def c'_def split: if_splits)
      next
        fix r' b
        show "dv_refs s' r' = Some b \<longleftrightarrow> (\<exists>c. dv_heap s' b = Some c \<and> cx_user_ref c = Some r')"
          using drv_invD(5) [OF inv, of r' b] c noref other
          by (auto simp: s' put_ctx_def c'_def)
      qed
    qed
  qed
qed

text \<open>A claim succeeds exactly when the context exists and nobody holds it.\<close>

lemma use_ctx_result:
  assumes inv: "drv_inv s"
  shows "\<exists>rc s'. use_ctx i (Some r) s = Some (rc, s') \<and>
    rc = (if \<exists>a c. dv_heap s a = Some c \<and> cx_id c = i
          then (if \<exists>a c. dv_heap s a = Some c \<and> cx_id c = i \<and> cx_user_ref c = None then 0 else - EBUSY)
          else - ENODEV)
    \<and> (rc = 0 \<longrightarrow> (\<exists>a c. dv_refs s' r = Some a \<and> dv_heap s' a = Some c \<and> cx_id c = i \<and> cx_user_ref c = Some r))
    \<and> (rc \<noteq> 0 \<longrightarrow> s' = s)"
proof (cases "\<exists>a c. dv_heap s a = Some c \<and> cx_id c = i")
  case True
  then obtain a c where a: "dv_heap s a = Some c" "cx_id c = i" by blast
  then have f: "find_ctx_by_id i s = Some (Some a)" using find_ctx_by_id_spec [OF inv, of i "Some a"] by auto
  have lock: "cx_user_lock c = (cx_user_ref c \<noteq> None)" using drv_invD(3) [OF inv a(1)] by (simp add: ctx_ok_def)
  have uniq: "(\<exists>a c. dv_heap s a = Some c \<and> cx_id c = i \<and> cx_user_ref c = None) \<longleftrightarrow> cx_user_ref c = None"
    using a drv_invD(4) [OF inv a(1)] by (metis option.inject)
  show ?thesis
    unfolding uniq using True a f lock by (auto simp: use_ctx_def put_ctx_def)
next
  case False
  then have "find_ctx_by_id i s = Some None" using find_ctx_by_id_spec [OF inv, of i None] by auto
  then show ?thesis using False by (auto simp: use_ctx_def)
qed

text \<open>
  Giving a context back and dropping the reference, the way a client that frees or
  reinitialises its reference does it.
\<close>

definition release_ref :: "addr \<Rightarrow> drv \<Rightarrow> drv option" where
  "release_ref r s = map_option (cctx_ref_init r) (unuse_ctx (Some r) s)"

lemma release_ref_inv:
  assumes inv: "drv_inv s"
  shows "\<exists>s'. release_ref r s = Some s' \<and> drv_inv s' \<and> dv_refs s' r = None"
proof (cases "dv_refs s r")
  case None
  then have "release_ref r s = Some s" by (auto simp: release_ref_def unuse_ctx_def cctx_ref_init_def fun_upd_idem)
  then show ?thesis using inv None by blast
next
  case (Some a)
  then obtain c where c: "dv_heap s a = Some c" "cx_user_ref c = Some r" using drv_invD(5) [OF inv] by blast
  define c' where "c' = c\<lparr>cx_user_ref := None, cx_user_lock := False\<rparr>"
  define s' where "s' = cctx_ref_init r (put_ctx a c' s)"
  have rel: "release_ref r s = Some s'"
    using Some c by (simp add: release_ref_def unuse_ctx_def s'_def c'_def)
  have "drv_inv s'"
    unfolding drv_inv_def
  proof (intro conjI allI impI)
    show "distinct (dv_list s')" using drv_invD(1) [OF inv] by (simp add: s'_def put_ctx_def cctx_ref_init_def)
    show "set (dv_list s') = dom (dv_heap s')"
      using drv_invD(2) [OF inv] c by (auto simp: s'_def put_ctx_def cctx_ref_init_def)
  next
    fix b d assume "dv_heap s' b = Some d" then show "ctx_ok s' d"
      using drv_invD(3) [OF inv, of b d] drv_invD(3) [OF inv c(1)]
      by (auto simp: s'_def put_ctx_def c'_def cctx_ref_init_def ctx_ok_def split: if_splits)
  next
    fix x y d e assume "dv_heap s' x = Some d" "dv_heap s' y = Some e" "cx_id d = cx_id e"
    then show "x = y"
      using drv_invD(4) [OF inv] c
      by (fastforce simp: s'_def put_ctx_def c'_def cctx_ref_init_def split: if_splits)
  next
    fix r' b
    show "dv_refs s' r' = Some b \<longleftrightarrow> (\<exists>c. dv_heap s' b = Some c \<and> cx_user_ref c = Some r')"
      using drv_invD(5) [OF inv, of r' b] drv_invD(5) [OF inv, of r b] c Some
      by (auto simp: s'_def put_ctx_def c'_def cctx_ref_init_def)
  qed
  then show ?thesis using rel by (auto simp: s'_def cctx_ref_init_def)
qed

text \<open>Removing and freeing a context: no reference to it is left.\<close>

lemma remove_free_inv:
  assumes inv: "drv_inv s" and c: "dv_heap s a = Some c"
  shows "\<exists>s'. remove_ctx a s = Some s' \<and> drv_inv (free_ctx a s')
    \<and> dv_heap (free_ctx a s') = (dv_heap s)(a := None)
    \<and> (\<forall>r. dv_refs (free_ctx a s') r \<noteq> Some a)
    \<and> dv_files s' = dv_files s \<and> dv_last_id s' = dv_last_id s \<and> dv_init s' = dv_init s
    \<and> dv_list s' = remove1 a (dv_list s)"
proof -
  define refs where "refs = (case cx_user_ref c of None \<Rightarrow> dv_refs s | Some r \<Rightarrow> (dv_refs s)(r := None))"
  obtain s' where s': "remove_ctx a s = Some s'" using c by (auto simp: remove_ctx_def Let_def)
  then have f: "dv_heap (free_ctx a s') = (dv_heap s)(a := None)"
    "dv_list (free_ctx a s') = remove1 a (dv_list s)" "dv_refs (free_ctx a s') = refs"
    "dv_last_id (free_ctx a s') = dv_last_id s"
    using c by (auto simp: remove_ctx_def free_ctx_def put_ctx_def refs_def Let_def split: option.splits)
  have refs: "refs r = Some b \<longleftrightarrow> dv_refs s r = Some b \<and> b \<noteq> a" for r b
    using drv_invD(5) [OF inv, of r a] drv_invD(5) [OF inv, of r b] c
    by (auto simp: refs_def split: option.splits)
  have "drv_inv (free_ctx a s')"
    unfolding drv_inv_def f
  proof (intro conjI allI impI)
    show "distinct (remove1 a (dv_list s))" using drv_invD(1) [OF inv] by (rule distinct_remove1)
    show "set (remove1 a (dv_list s)) = dom ((dv_heap s)(a := None))"
      using drv_invD(1,2) [OF inv] by (auto simp: set_remove1_eq split: if_splits)
  next
    fix b d assume "((dv_heap s)(a := None)) b = Some d" then show "ctx_ok (free_ctx a s') d"
      using drv_invD(3) [OF inv, of b d] f(4) by (auto simp: ctx_ok_def split: if_splits)
  next
    fix x y d e assume "((dv_heap s)(a := None)) x = Some d" "((dv_heap s)(a := None)) y = Some e"
      "cx_id d = cx_id e"
    then show "x = y" using drv_invD(4) [OF inv, of x d y e] by (auto split: if_splits)
  next
    fix r b
    show "refs r = Some b \<longleftrightarrow> (\<exists>c. ((dv_heap s)(a := None)) b = Some c \<and> cx_user_ref c = Some r)"
      using drv_invD(5) [OF inv, of r b] refs [of r b] by auto
  qed
  moreover have "\<forall>r. dv_refs (free_ctx a s') r \<noteq> Some a" using refs f(3) by simp
  moreover have "dv_files s' = dv_files s \<and> dv_last_id s' = dv_last_id s \<and> dv_init s' = dv_init s
      \<and> dv_list s' = remove1 a (dv_list s)"
    using s' c by (auto simp: remove_ctx_def put_ctx_def Let_def split: option.splits)
  ultimately show ?thesis using s' f(1) by blast
qed

lemma drv_inv_files [simp]: "drv_inv (s\<lparr>dv_files := fs\<rparr>) = drv_inv s"
  by (simp add: drv_inv_def ctx_ok_def)

lemma do_new_ctx_inv:
  assumes inv: "drv_inv s" and ev: "ev_wf ev" and a: "dv_heap s a = None"
    and id: "dv_last_id s \<noteq> - 1" and new: "do_new_ctx ev a pid f arg s = Some (rc, s')"
  shows "drv_inv s'"
proof (cases arg)
  case None
  then show ?thesis using new inv by (simp add: do_new_ctx_def)
next
  case (Some desc)
  obtain rc' res n where m: "make_crypto_ctx ev (dv_last_id s) (ad_alg desc)
      (unat (ad_key_size desc)) (uint (ad_dir desc)) = (rc', res, n)" by (metis prod_cases3)
  have lt: "dv_last_id s < dv_last_id s + 1" using id by (rule word_less_plus_1)
  from ev m show ?thesis
  proof (cases rule: make_crypto_ctx_cases)
    case fail
    then show ?thesis using new Some m inv by (auto simp: do_new_ctx_def drv_inv_def ctx_ok_def)
  next
    case kex_buf
    then show ?thesis using new Some m by (simp add: do_new_ctx_def)
  next
    case (ok c)
    show ?thesis
    proof (cases "rc' < 0")
      case True
      then have "s' = s\<lparr>dv_last_id := dv_last_id s + 1\<rparr>"
        using new Some m ok by (auto simp: do_new_ctx_def)
      then show ?thesis using inv lt by (fastforce simp: drv_inv_def ctx_ok_def)
    next
      case False
      define c' where "c' = c\<lparr>cx_alloc_pid := pid\<rparr>"
      have s': "s' = s\<lparr>dv_last_id := dv_last_id s + 1, dv_heap := (dv_heap s)(a \<mapsto> c'),
          dv_list := a # dv_list s, dv_files := (dv_files s)(f \<mapsto> a)\<rparr>"
        using new Some m ok(1,2) False by (simp add: do_new_ctx_def store_ctx_def put_ctx_def c'_def)
      have fresh: "cx_id d \<noteq> dv_last_id s + 1" if "dv_heap s b = Some d" for b d
        using drv_invD(3) [OF inv that] lt by (auto simp: ctx_ok_def)
      show ?thesis
        unfolding drv_inv_def
      proof (intro conjI allI impI)
        show "distinct (dv_list s')" using drv_invD(1,2) [OF inv] a by (auto simp: s')
        show "set (dv_list s') = dom (dv_heap s')" using drv_invD(2) [OF inv] by (auto simp: s')
      next
        fix b d assume "dv_heap s' b = Some d" then show "ctx_ok s' d"
          using drv_invD(3) [OF inv, of b d] ok lt by (auto simp: s' c'_def ctx_ok_def split: if_splits)
      next
        fix x y d e assume "dv_heap s' x = Some d" "dv_heap s' y = Some e" "cx_id d = cx_id e"
        then show "x = y"
          using drv_invD(4) [OF inv, of x d y e] fresh [of x d] fresh [of y e] ok(5)
          by (auto simp: s' c'_def split: if_splits)
      next
        fix r b
        show "dv_refs s' r = Some b \<longleftrightarrow> (\<exists>c. dv_heap s' b = Some c \<and> cx_user_ref c = Some r)"
          using drv_invD(5) [OF inv, of r b] a ok(7) by (auto simp: s' c'_def)
      qed
    qed
  qed
qed

lemma do_destroy_inv:
  assumes inv: "drv_inv s" and d: "do_destroy f s = Some (rc, s')"
  shows "drv_inv s'"
proof (cases "dv_files s f")
  case None
  then show ?thesis using d inv by (simp add: do_destroy_def)
next
  case (Some a)
  then obtain c where c: "dv_heap s a = Some c" using d by (auto simp: do_destroy_def remove_ctx_def split: Option.bind_splits)
  then obtain s1 where s1: "remove_ctx a s = Some s1" "drv_inv (free_ctx a s1)" using remove_free_inv [OF inv c] by blast
  then show ?thesis using d Some by (auto simp: do_destroy_def)
qed

text \<open>After a process dies none of its contexts is left, and every other one is.\<close>

lemma pid_death_loop_spec:
  assumes "drv_inv s" "distinct l" "set l \<subseteq> dom (dv_heap s)"
  shows "\<exists>s'. pid_death_loop pid l s = Some s' \<and> drv_inv s'
    \<and> dv_heap s' = (\<lambda>a. if a \<in> set l \<and> (\<exists>c. dv_heap s a = Some c \<and> cx_alloc_pid c = pid)
                        then None else dv_heap s a)"
  using assms
proof (induction l arbitrary: s)
  case (Cons a l)
  then obtain c where c: "dv_heap s a = Some c" by auto
  show ?case
  proof (cases "cx_alloc_pid c = pid")
    case True
    obtain s1 where s1: "remove_ctx a s = Some s1" "drv_inv (free_ctx a s1)"
      "dv_heap (free_ctx a s1) = (dv_heap s)(a := None)"
      using remove_free_inv [OF Cons.prems(1) c] by blast
    have "set l \<subseteq> dom (dv_heap (free_ctx a s1))" using Cons.prems s1(3) by auto
    from Cons.IH [OF s1(2) _ this] Cons.prems(2) show ?thesis
      using True c s1 by (auto simp: fun_eq_iff)
  next
    case False
    then show ?thesis using Cons.IH [OF Cons.prems(1)] Cons.prems c by (auto simp: fun_eq_iff)
  qed
qed simp

lemma priv_pid_death_action_spec:
  assumes "drv_inv s" "dv_init s"
  shows "\<exists>s'. priv_pid_death_action pid s = Some s' \<and> drv_inv s'
    \<and> (\<forall>a. dv_heap s' a = (case dv_heap s a of None \<Rightarrow> None
          | Some c \<Rightarrow> if cx_alloc_pid c = pid then None else Some c))"
proof -
  obtain s' where "pid_death_loop pid (dv_list s) s = Some s'" "drv_inv s'"
    "dv_heap s' = (\<lambda>a. if a \<in> set (dv_list s) \<and> (\<exists>c. dv_heap s a = Some c \<and> cx_alloc_pid c = pid)
       then None else dv_heap s a)"
    using pid_death_loop_spec [OF assms(1) drv_invD(1) [OF assms(1)], of pid] drv_invD(2) [OF assms(1)]
    by blast
  moreover have "a \<in> set (dv_list s) \<longleftrightarrow> dv_heap s a \<noteq> None" for a
    using drv_invD(2) [OF assms(1)] by auto
  ultimately show ?thesis
    using assms(2) by (auto simp: priv_pid_death_action_def split: option.splits)
qed

lemma do_set_iv_inv:
  assumes inv: "drv_inv s" and arg: "\<And>d. arg = Some d \<Longrightarrow> length (vd_iv d) = MAX_IV_LEN"
    and iv: "do_set_iv cctx arg s = Some (rc, s')"
  shows "drv_inv s'"
proof (cases "\<exists>a d c. cctx = Some a \<and> arg = Some d \<and> dv_heap s a = Some c")
  case True
  then obtain a d c where c: "cctx = Some a" "arg = Some d" "dv_heap s a = Some c" by blast
  have ok: "ctx_wf c" "length (cx_kex_buf c) = MAX_KEX_MSG_LEN"
    using drv_invD(3) [OF inv c(3)] by (simp_all add: ctx_ok_def)
  obtain rc' c' where p: "priv_set_iv c (unat (vd_iv_size d)) (vd_iv d) = (rc', c')" by fastforce
  have "ctx_wf c'"
    using priv_set_iv_wf [OF ok(1), of "vd_iv d"] priv_set_iv_mismatch [OF ok(1), of "unat (vd_iv_size d)" "vd_iv d"]
      arg [OF c(2)] ok(1) p by (cases "unat (vd_iv_size d) = 16") auto
  moreover have "cx_id c' = cx_id c" "cx_user_lock c' = cx_user_lock c" "cx_user_ref c' = cx_user_ref c"
    "cx_kex_buf c' = cx_kex_buf c"
    using p by (auto simp: priv_set_iv_def Let_def split: if_splits)
  ultimately have "drv_inv (put_ctx a c' s)" using drv_inv_put [OF inv c(3)] ok(2) by simp
  then show ?thesis using iv c p by (simp add: do_set_iv_def)
next
  case False
  then show ?thesis
    using iv inv by (auto simp: do_set_iv_def split: option.splits Option.bind_splits)
qed

lemma do_set_activated_inv:
  assumes inv: "drv_inv s" and act: "do_set_activated cctx i s = Some (rc, s')"
  shows "drv_inv s'"
proof (cases "\<exists>a c. cctx = Some a \<and> dv_heap s a = Some c")
  case True
  then obtain a c where c: "cctx = Some a" "dv_heap s a = Some c" by blast
  have "drv_inv (put_ctx a (c\<lparr>cx_activated := i\<rparr>) s)"
    using drv_inv_put [OF inv c(2)] drv_invD(3) [OF inv c(2)] by (simp add: ctx_ok_def)
  then show ?thesis using act c by (simp add: do_set_activated_def priv_set_activated_def)
next
  case False
  then show ?thesis
    using act inv by (auto simp: do_set_activated_def split: option.splits Option.bind_splits)
qed

lemma do_use_ctx_inv:
  "drv_inv s \<Longrightarrow> do_use_ctx f arg s = Some (rc, s') \<Longrightarrow> drv_inv s'"
  by (auto simp: do_use_ctx_def split: option.splits Option.bind_splits)

section \<open>What the driver relies on from the key exchange\<close>

locale kex_handler =
  fixes pkm :: kex_fn
  assumes pkm_wf: "ctx_wf c \<Longrightarrow> length buf = MAX_KEX_MSG_LEN \<Longrightarrow> in_sz \<le> MAX_KEX_MSG_LEN \<Longrightarrow>
      pkm c MAX_KEX_MSG_LEN in_sz buf = Some (rc, out_sz, c', buf') \<Longrightarrow>
      ctx_wf c' \<and> length buf' = MAX_KEX_MSG_LEN"
    and pkm_frame: "pkm c n in_sz buf = Some (rc, out_sz, c', buf') \<Longrightarrow>
      cx_id c' = cx_id c \<and> cx_user_lock c' = cx_user_lock c \<and> cx_user_ref c' = cx_user_ref c
      \<and> cx_alloc_pid c' = cx_alloc_pid c \<and> cx_activated c' = cx_activated c"
begin

lemma do_kex_inv:
  assumes inv: "drv_inv s" and arg: "\<And>d msg. arg = Some d \<Longrightarrow> kd_in_buf d = Some msg \<Longrightarrow> length msg = unat (kd_in_size d)"
    and k: "do_kex pkm cctx arg s = Some (rc, s', out)"
  shows "drv_inv s'"
proof (cases "s' = s")
  case False
  then obtain d a c msg where c: "arg = Some d" "cctx = Some a" "dv_heap s a = Some c"
      "kd_in_buf d = Some msg" "unat (kd_in_size d) \<le> MAX_KEX_MSG_LEN"
    using k by (auto simp: do_kex_def not_less split: option.splits Option.bind_splits if_splits)
  define buf where "buf = mem_write (cx_kex_buf c) 0 (take (unat (kd_in_size d)) msg)"
  obtain rc' out_sz c' buf' where p: "pkm c MAX_KEX_MSG_LEN (unat (kd_in_size d)) buf = Some (rc', out_sz, c', buf')"
    using k c by (auto simp: do_kex_def buf_def [symmetric] Let_def split: Option.bind_splits)
  have ok: "ctx_wf c" "length (cx_kex_buf c) = MAX_KEX_MSG_LEN"
    using drv_invD(3) [OF inv c(3)] by (simp_all add: ctx_ok_def)
  have "length buf = MAX_KEX_MSG_LEN" using ok c(5) arg [OF c(1,4)] by (simp add: buf_def)
  then have "ctx_wf c'" "length buf' = MAX_KEX_MSG_LEN" using pkm_wf [OF ok(1) _ c(5) p] by auto
  then have "drv_inv (put_ctx a (c'\<lparr>cx_kex_buf := buf'\<rparr>) s)"
    using drv_inv_put [OF inv c(3)] pkm_frame [OF p] by simp
  moreover have "s' = put_ctx a (c'\<lparr>cx_kex_buf := buf'\<rparr>) s"
    using k c p by (auto simp: do_kex_def buf_def [symmetric] Let_def split: if_splits)
  ultimately show ?thesis by simp
qed (use inv in simp)

end

text \<open>
  What the environment promises of an argument: the allocator returns an unused address and
  blocks of the size asked for, the identifier counter has not wrapped, and the decoded user
  memory has the size of its C type.
\<close>

definition arg_ok :: "ioctl_arg \<Rightarrow> drv \<Rightarrow> bool" where
  "arg_ok arg s = (case arg of
     ArgNew ev a d \<Rightarrow> ev_wf ev \<and> dv_heap s a = None \<and> dv_last_id s \<noteq> - 1
   | ArgIv (Some d) \<Rightarrow> length (vd_iv d) = MAX_IV_LEN
   | ArgKex (Some d) \<Rightarrow> (case kd_in_buf d of Some msg \<Rightarrow> length msg = unat (kd_in_size d) | None \<Rightarrow> True)
   | _ \<Rightarrow> True)"

context kex_handler
begin

lemma priv_crypt_ioctl_inv:
  assumes inv: "drv_inv s" and arg: "arg_ok arg s"
    and io: "priv_crypt_ioctl pkm pid f cmd arg s = Some (rc, s', out)"
  shows "drv_inv s'"
proof -
  consider "s' = s"
    | ev a d where "arg = ArgNew ev a d" "do_new_ctx ev a pid f d s = Some (rc, s')"
    | i where "do_use_ctx f i s = Some (rc, s')"
    | "do_set_iv (dv_files s f) (case arg of ArgIv d \<Rightarrow> d | _ \<Rightarrow> None) s = Some (rc, s')"
    | i where "do_set_activated (dv_files s f) i s = Some (rc, s')"
    | "do_destroy f s = Some (rc, s')"
    | "do_kex pkm (dv_files s f) (case arg of ArgKex d \<Rightarrow> d | _ \<Rightarrow> None) s = Some (rc, s', out)"
    using io by (auto simp: priv_crypt_ioctl_def do_crypt_def split: if_splits ioctl_arg.splits)
  then show ?thesis
  proof cases
    case 1 then show ?thesis using inv by simp
  next
    case 2 then show ?thesis using do_new_ctx_inv [OF inv _ _ _ 2(2)] arg by (simp add: arg_ok_def)
  next
    case 3 then show ?thesis using do_use_ctx_inv [OF inv] by blast
  next
    case 4 then show ?thesis
      using do_set_iv_inv [OF inv _ 4] arg
      by (force simp: arg_ok_def split: ioctl_arg.splits option.splits)
  next
    case 5 then show ?thesis using do_set_activated_inv [OF inv] by blast
  next
    case 6 then show ?thesis using do_destroy_inv [OF inv] by blast
  next
    case 7
    have "length msg = unat (kd_in_size d)"
      if "(case arg of ArgKex d \<Rightarrow> d | _ \<Rightarrow> None) = Some d" "kd_in_buf d = Some msg" for d msg
      using that arg by (auto simp: arg_ok_def split: ioctl_arg.splits)
    then show ?thesis using do_kex_inv [OF inv _ 7] by blast
  qed
qed

end

section \<open>Runs of the driver\<close>

text \<open>
  One step: a command, with one of the key-exchange handlers \<open>H\<close>, a claim through an empty reference, giving a reference back, the death
  of a process, or encryption through a held reference. A step is a call that returns; the
  fault cases are the subject of \<open>files_ok\<close> below.
\<close>

inductive drv_step :: "kex_fn set \<Rightarrow> aes_fn \<Rightarrow> drv \<Rightarrow> drv \<Rightarrow> bool" for H aes where
  Ioctl: "pkm \<in> H \<Longrightarrow> arg_ok arg s \<Longrightarrow> priv_crypt_ioctl pkm pid f cmd arg s = Some (rc, s', out) \<Longrightarrow> drv_step H aes s s'"
| Open: "priv_crypt_open f s = (rc, s') \<Longrightarrow> drv_step H aes s s'"
| Use: "dv_refs s r = None \<Longrightarrow> use_ctx i (Some r) s = Some (rc, s') \<Longrightarrow> drv_step H aes s s'"
| Release: "release_ref r s = Some s' \<Longrightarrow> drv_step H aes s s'"
| Death: "priv_pid_death_action pid s = Some s' \<Longrightarrow> drv_step H aes s s'"
| Crypt: "dv_refs s r = Some a \<Longrightarrow> dv_heap s a = Some c \<Longrightarrow>
    priv_crypt aes (Some c) m = (rc, Some c', out) \<Longrightarrow> drv_step H aes s (put_ctx a c' s)"

inductive drv_reach :: "kex_fn set \<Rightarrow> aes_fn \<Rightarrow> drv \<Rightarrow> bool" for H aes where
  Start: "dv_heap s = Map.empty \<Longrightarrow> dv_refs s = Map.empty \<Longrightarrow> priv_crypt_init b1 b2 s = (rc, s') \<Longrightarrow>
    drv_reach H aes s'"
| Step: "drv_reach H aes s \<Longrightarrow> drv_step H aes s s' \<Longrightarrow> drv_reach H aes s'"

lemma priv_crypt_frame:
  assumes "ctx_wf c" "priv_crypt aes (Some c) m = (rc, Some c', out)"
  shows "ctx_wf c'" "cx_id c' = cx_id c" "cx_user_lock c' = cx_user_lock c"
    "cx_user_ref c' = cx_user_ref c" "cx_kex_buf c' = cx_kex_buf c"
proof -
  obtain t where t: "cx_cipher c = Some t" using assms(1) by (rule ctx_wf_cipherE)
  consider "c' = c" | n pg where "c' = advance n pg c" "length pg = PAGE_SIZE"
    using priv_crypt_spec [OF assms(1) _ t, of aes m] priv_crypt_not_activated(1) [of c aes m] assms(2)
    by (cases "allow_encrypt c") auto
  then show "ctx_wf c'" "cx_id c' = cx_id c" "cx_user_lock c' = cx_user_lock c"
    "cx_user_ref c' = cx_user_ref c" "cx_kex_buf c' = cx_kex_buf c"
    using assms(1) by (cases; simp add: advance_wf; simp add: advance_def)+
qed

lemma drv_step_inv:
  assumes H: "\<And>pkm. pkm \<in> H \<Longrightarrow> kex_handler pkm" and step: "drv_step H aes s s'" and inv: "drv_inv s"
  shows "drv_inv s'"
  using step
proof cases
  case (Ioctl pkm arg pid f cmd rc out)
  then show ?thesis using kex_handler.priv_crypt_ioctl_inv [OF H inv] by blast
next
  case (Use r i rc) then show ?thesis using use_ctx_inv [OF inv] by blast
next
  case Open then show ?thesis using inv by (auto simp: priv_crypt_open_def)
next
  case (Release r) then show ?thesis using release_ref_inv [OF inv, of r] by auto
next
  case (Death pid) then show ?thesis
    using priv_pid_death_action_spec [OF inv, of pid] inv
    by (cases "dv_init s") (auto simp: priv_pid_death_action_def)
next
  case (Crypt r a c m rc c' out)
  then show ?thesis
    using priv_crypt_frame drv_inv_put [OF inv Crypt(3)] drv_invD(3) [OF inv Crypt(3)]
    by (metis ctx_ok_def)
qed

lemma drv_reach_inv:
  assumes "\<And>pkm. pkm \<in> H \<Longrightarrow> kex_handler pkm" "drv_reach H aes s"
  shows "drv_inv s"
  using assms(2)
proof (induction rule: drv_reach.induct)
  case (Start s b1 b2 rc s')
  then show ?case
    by (auto simp: priv_crypt_init_def drv_inv_def Let_def split: if_splits)
qed (rule drv_step_inv [OF assms(1)])

section \<open>Encryption through a held reference\<close>

text \<open>
  What every client relies on when it calls \<open>priv_crypt\<close> with the context its reference
  holds: the stream of that context, which stays claimed, active and keyed as before.
\<close>

lemma priv_crypt_held:
  assumes inv: "drv_inv d" and c: "dv_heap d a = Some c" and act: "allow_encrypt c"
  obtains c' where "priv_crypt aes (Some c) data = (0, Some c', ctr_out (kern_cipher aes c) (kern_ctr c) data)"
    "drv_inv (put_ctx a c' d)" "allow_encrypt c'" "kern_cipher aes c' = kern_cipher aes c"
    "kern_ctr c' = ctr_next (kern_ctr c) (length data)" "length (kern_ctr c) = 16"
proof -
  have ok: "ctx_ok d c" by (rule drv_invD(3) [OF inv c])
  then have rdy: "kern_ready c" using act by (simp add: kern_ready_def ctx_ok_def)
  obtain t where t: "cx_cipher c = Some t" "tfm_key t = take (cx_key_size c) (cx_key c)" "tfm_wf t"
    using ok ctx_wf_cipherE unfolding ctx_ok_def by blast
  obtain pg where pg: "length pg = PAGE_SIZE" "priv_crypt aes (Some c) data =
      (0, Some (advance (length data) pg c), ctr_out (aes (tfm_key t)) (tfm_iv t) data)"
    using priv_crypt_spec [of c t aes data] rdy t(1) by (auto simp: kern_ready_def)
  have "drv_inv (put_ctx a (advance (length data) pg c) d)"
    using priv_crypt_frame [OF _ pg(2)] ok drv_inv_put [OF inv c] by (simp add: ctx_ok_def)
  then show thesis
    using that [of "advance (length data) pg c"] pg t act rdy
    by (simp add: kern_ctr_advance kern_cipher_def advance_def allow_encrypt_def tfm_wf_def kern_ctr_def)
qed

section \<open>When a command cannot fault\<close>

text \<open>
  A command dereferences \<open>private_data\<close>. It cannot fault when no open file points at a freed
  context, the key-exchange buffer of a new context can be allocated, and a key exchange is
  only asked for on a file that has a context.
\<close>

definition files_ok :: "drv \<Rightarrow> bool" where
  "files_ok s \<longleftrightarrow> (\<forall>f a. dv_files s f = Some a \<longrightarrow> dv_heap s a \<noteq> None)"

definition cmd_safe :: "addr \<Rightarrow> u32 \<Rightarrow> ioctl_arg \<Rightarrow> drv \<Rightarrow> bool" where
  "cmd_safe f cmd arg s \<longleftrightarrow>
     (cmd = 7 \<longrightarrow> dv_files s f \<noteq> None)
     \<and> (case arg of ArgNew ev a d \<Rightarrow> ev_kex_buf ev \<noteq> None | _ \<Rightarrow> True)"

lemma do_new_ctx_returns:
  assumes "ev_wf ev" "ev_kex_buf ev \<noteq> None"
  shows "do_new_ctx ev a pid f arg s \<noteq> None"
proof (cases arg)
  case (Some desc)
  obtain rc res n where m: "make_crypto_ctx ev (dv_last_id s) (ad_alg desc)
      (unat (ad_key_size desc)) (uint (ad_dir desc)) = (rc, res, n)" by (metis prod_cases3)
  from assms(1) m show ?thesis
    by (cases rule: make_crypto_ctx_cases) (use Some m assms(2) in \<open>auto simp: do_new_ctx_def Let_def\<close>)
qed (simp add: do_new_ctx_def)

lemma do_kex_returns:
  assumes c: "dv_heap s a = Some c" and kex: "\<And>sz buf. pkm c MAX_KEX_MSG_LEN sz buf \<noteq> None"
  shows "do_kex pkm (Some a) d s \<noteq> None"
proof (cases "\<exists>e msg. d = Some e \<and> kd_in_buf e = Some msg")
  case True
  then obtain e msg where d: "d = Some e" "kd_in_buf e = Some msg" by blast
  obtain rc out_sz c' buf' where "pkm c MAX_KEX_MSG_LEN (unat (kd_in_size e))
      (mem_write (cx_kex_buf c) 0 (take (unat (kd_in_size e)) msg)) = Some (rc, out_sz, c', buf')"
    using kex by (metis not_None_eq prod_cases4)
  then show ?thesis using c d by (simp add: do_kex_def Let_def)
next
  case False
  then show ?thesis using c by (auto simp: do_kex_def split: option.splits)
qed


section \<open>Stale references\<close>

text \<open>
  C34. \<open>unuse_ctx\<close> unlocks the context but leaves the pointer in the reference. After one
  client has given a context back and another has claimed it, both references reach the
  context, although claims are meant to be exclusive.
\<close>

lemma unuse_ctx_stale:
  assumes inv: "drv_inv s" and c: "dv_heap s a = Some c" "cx_user_ref c = None"
    and r: "dv_refs s r1 = None" "dv_refs s r2 = None" "r1 \<noteq> r2"
  shows "\<exists>s1 s2 s3. use_ctx (cx_id c) (Some r1) s = Some (0, s1) \<and> unuse_ctx (Some r1) s1 = Some s2
    \<and> use_ctx (cx_id c) (Some r2) s2 = Some (0, s3) \<and> dv_refs s3 r1 = Some a \<and> dv_refs s3 r2 = Some a"
proof -
  let ?c1 = "c\<lparr>cx_user_lock := True, cx_user_ref := Some r1\<rparr>"
  let ?c2 = "?c1\<lparr>cx_user_ref := None, cx_user_lock := False\<rparr>"
  define s1 where "s1 = (put_ctx a ?c1 s)\<lparr>dv_refs := (dv_refs s)(r1 \<mapsto> a)\<rparr>"
  define s2 where "s2 = put_ctx a ?c2 s1"
  have lock: "\<not> cx_user_lock c" using drv_invD(3) [OF inv c(1)] c(2) by (simp add: ctx_ok_def)
  have find: "find_ctx_in h (cx_id c) l = find_ctx_in (dv_heap s) (cx_id c) l"
    if "\<And>b. map_option cx_id (h b) = map_option cx_id (dv_heap s b)" for h l
  proof (induction l)
    case (Cons b l)
    then show ?case using that [of b] by (cases "h b"; cases "dv_heap s b") auto
  qed simp
  have f: "find_ctx_by_id (cx_id c) s = Some (Some a)"
    using find_ctx_by_id_spec [OF inv, of "cx_id c" "Some a"] c by auto
  then have u1: "use_ctx (cx_id c) (Some r1) s = Some (0, s1)"
    using c lock by (simp add: use_ctx_def s1_def)
  have u2: "unuse_ctx (Some r1) s1 = Some s2"
    by (simp add: unuse_ctx_def s1_def s2_def put_ctx_def)
  have "find_ctx_by_id (cx_id c) s2 = find_ctx_by_id (cx_id c) s"
    using c find [of "dv_heap s2" "dv_list s"] by (simp add: find_ctx_by_id_def s2_def s1_def put_ctx_def)
  then obtain s3 where "use_ctx (cx_id c) (Some r2) s2 = Some (0, s3)" "dv_refs s3 r1 = Some a" "dv_refs s3 r2 = Some a"
    using f r(3) by (auto simp: use_ctx_def s2_def s1_def put_ctx_def)
  then show ?thesis using u1 u2 by blast
qed

text \<open>
  C35. A second file that selected a context by its identifier keeps the pointer when the first
  one destroys the context: its next command touches freed memory.
\<close>

lemma destroy_leaves_dangling_file:
  assumes inv: "drv_inv s" and init: "dv_init s" and c: "dv_heap s a = Some c"
    and f: "dv_files s f1 = Some a" "f1 \<noteq> f2"
  shows "\<exists>s1 s2. priv_crypt_ioctl pkm pid f2 2 (ArgUse (Some (cx_id c))) s = Some (0, s1, [])
    \<and> priv_crypt_ioctl pkm pid f1 6 ArgNone s1 = Some (0, s2, [])
    \<and> priv_crypt_ioctl pkm pid f2 4 ArgNone s2 = None"
proof -
  define s1 where "s1 = s\<lparr>dv_files := (dv_files s)(f2 \<mapsto> a)\<rparr>"
  have "find_ctx_by_id (cx_id c) s = Some (Some a)"
    using find_ctx_by_id_spec [OF inv, of "cx_id c" "Some a"] c by auto
  then have u: "priv_crypt_ioctl pkm pid f2 2 (ArgUse (Some (cx_id c))) s = Some (0, s1, [])"
    using init by (simp add: priv_crypt_ioctl_def do_use_ctx_def s1_def)
  have inv1: "drv_inv s1" using inv by (simp add: s1_def)
  have c1: "dv_heap s1 a = Some c" using c by (simp add: s1_def)
  obtain s' where s': "remove_ctx a s1 = Some s'" "dv_heap (free_ctx a s') = (dv_heap s1)(a := None)"
    "dv_files s' = dv_files s1" "dv_init s' = dv_init s1"
    using remove_free_inv [OF inv1 c1] by blast
  define s2 where "s2 = (free_ctx a s')\<lparr>dv_files := (dv_files s')(f1 := None)\<rparr>"
  have "priv_crypt_ioctl pkm pid f1 6 ArgNone s1 = Some (0, s2, [])"
    using f init s' by (simp add: priv_crypt_ioctl_def do_destroy_def s1_def s2_def)
  moreover have "priv_crypt_ioctl pkm pid f2 4 ArgNone s2 = None"
    using f(2) init s'
    by (auto simp: priv_crypt_ioctl_def do_set_activated_def s1_def s2_def free_ctx_def)
  ultimately show ?thesis using u by blast
qed

section \<open>Properties and examples\<close>

definition demo_drv :: drv where
  "demo_drv = \<lparr>dv_init = True, dv_list = [100], dv_heap = [100 \<mapsto> demo_ctx], dv_refs = Map.empty,
     dv_files = [3 \<mapsto> 100], dv_last_id = 1\<rparr>"

lemma demo_drv_inv: "drv_inv demo_drv"
  using demo_ctx_wf by (auto simp: drv_inv_def demo_drv_def ctx_ok_def demo_ctx_def)

lemma demo_drv_fields:
  "dv_heap demo_drv 100 = Some demo_ctx" "cx_user_ref demo_ctx = None" "cx_id demo_ctx = 1" "dv_init demo_drv"
  "dv_refs demo_drv r = None" "dv_files demo_drv 3 = Some 100"
  by (simp_all add: demo_drv_def demo_ctx_def)


theorem unuse_ctx_stale_witness:
  "\<exists>s1 s2 s3. use_ctx 1 (Some 8) demo_drv = Some (0, s1) \<and> unuse_ctx (Some 8) s1 = Some s2
    \<and> use_ctx 1 (Some 9) s2 = Some (0, s3) \<and> dv_refs s3 8 = Some 100 \<and> dv_refs s3 9 = Some 100"
  using unuse_ctx_stale [OF demo_drv_inv demo_drv_fields(1,2), of 8 9] by (simp add: demo_drv_fields)

theorem destroy_leaves_dangling_file_witness:
  "\<exists>s1 s2. priv_crypt_ioctl (\<lambda>c n i buf. Some (0, 0, c, buf)) 7 4 2 (ArgUse (Some 1)) demo_drv = Some (0, s1, [])
    \<and> priv_crypt_ioctl (\<lambda>c n i buf. Some (0, 0, c, buf)) 7 3 6 ArgNone s1 = Some (0, s2, [])
    \<and> priv_crypt_ioctl (\<lambda>c n i buf. Some (0, 0, c, buf)) 7 4 4 ArgNone s2 = None"
  using destroy_leaves_dangling_file [OF demo_drv_inv demo_drv_fields(4,1,6), of 4 "\<lambda>c n i buf. Some (0, 0, c, buf)" 7]
  by (simp add: demo_drv_fields)

text \<open>
  C19. Claiming a context by its identifier: \<open>ENODEV\<close> when there is no such context,
  \<open>EBUSY\<close> when somebody holds it, and otherwise the reference and the context point at
  each other. A failed claim changes nothing.
\<close>

theorem claim_outcome:
  assumes "drv_inv s"
  shows "\<exists>rc s'. use_ctx i (Some r) s = Some (rc, s') \<and>
    rc = (if \<exists>a c. dv_heap s a = Some c \<and> cx_id c = i
          then (if \<exists>a c. dv_heap s a = Some c \<and> cx_id c = i \<and> cx_user_ref c = None then 0 else - EBUSY)
          else - ENODEV)
    \<and> (rc = 0 \<longrightarrow> (\<exists>a c. dv_refs s' r = Some a \<and> dv_heap s' a = Some c \<and> cx_id c = i \<and> cx_user_ref c = Some r))
    \<and> (rc \<noteq> 0 \<longrightarrow> s' = s)"
  using assms by (rule use_ctx_result)

theorem claim_outcome_witness:
  "\<exists>s' a c. use_ctx 1 (Some 8) demo_drv = Some (0, s') \<and> dv_refs s' 8 = Some a \<and> dv_heap s' a = Some c
     \<and> cx_id c = 1 \<and> cx_user_ref c = Some 8"
proof -
  have e: "\<exists>a c. dv_heap demo_drv a = Some c \<and> cx_id c = 1 \<and> cx_user_ref c = None"
    using demo_drv_fields by blast
  then have "\<exists>a c. dv_heap demo_drv a = Some c \<and> cx_id c = 1" by blast
  with e claim_outcome [OF demo_drv_inv, of 1 8] show ?thesis by auto
qed

text \<open>
  C18. When a process dies, exactly the contexts it allocated are removed and freed; every
  other context is untouched, no reference dangles, and the driver's invariant holds.
\<close>

theorem pid_death_removes_contexts:
  assumes "drv_inv s" "dv_init s"
  shows "\<exists>s'. priv_pid_death_action pid s = Some s' \<and> drv_inv s'
    \<and> (\<forall>a. dv_heap s' a = (case dv_heap s a of None \<Rightarrow> None
          | Some c \<Rightarrow> if cx_alloc_pid c = pid then None else Some c))"
  using assms by (rule priv_pid_death_action_spec)

theorem pid_death_removes_contexts_witness:
  "\<exists>s'. priv_pid_death_action 7 demo_drv = Some s' \<and> drv_inv s' \<and> dv_heap s' 100 = None"
  using pid_death_removes_contexts [OF demo_drv_inv demo_drv_fields(4), of 7]
  by (auto simp: demo_drv_fields) (simp add: demo_ctx_def)

end
