(* ===== verification/Privnet.thy ===== *)
theory Privnet
  imports Priv_Crypt_Drv
begin

text \<open>
  The kernel's table of private network addresses,
  \<open>host/linux-3.0/drivers/priv_sysfs/privnet/privnet.c\<close>: a trie of depth six indexed by
  the bytes of a MAC address, whose leaves hold the two context references of a private
  network card; the sysfs text interface to it; and the packet hooks. A node's array of 256
  pointers is a function on bytes with \<open>None\<close> for \<open>NULL\<close>. The locale \<open>mac_table\<close> is the
  contract of a finite map, and the trie is an instance of it. Claims and releases go through
  the driver model, and the theory shows that adding and removing addresses keeps its
  invariant.
\<close>

section \<open>The trie\<close>

record mac_crypt_refs =
  mr_in :: u32
  mr_out :: u32
  mr_addr :: addr

datatype mac_tree = Leaf mac_crypt_refs | Inner "byte \<Rightarrow> mac_tree option"

text \<open>The references embedded in a leaf's memory block.\<close>

definition in_ref :: "mac_crypt_refs \<Rightarrow> addr" where
  "in_ref nid = 2 * mr_addr nid"

definition out_ref :: "mac_crypt_refs \<Rightarrow> addr" where
  "out_ref nid = 2 * mr_addr nid + 1"

definition alloc_mac_tree_node :: mac_tree where
  "alloc_mac_tree_node = Inner (\<lambda>b. None)"

definition child_count :: "(byte \<Rightarrow> mac_tree option) \<Rightarrow> nat" where
  "child_count next_byte = length (filter (\<lambda>i. next_byte (of_nat i) \<noteq> None) [0..<256])"

fun privnet_find_mac :: "mac_tree \<Rightarrow> bytes \<Rightarrow> mac_crypt_refs option" where
  "privnet_find_mac (Leaf nid) [] = Some nid"
| "privnet_find_mac (Inner nb) (b # mac) =
     (case nb b of None \<Rightarrow> None | Some t \<Rightarrow> privnet_find_mac t mac)"
| "privnet_find_mac _ _ = None"

text \<open>
  \<open>privnet_add_mac\<close> first creates the inner nodes on the way and only then looks at the
  last pointer: \<open>mac_path\<close> is the loop, \<open>mac_set\<close> the final store.
\<close>

fun mac_path :: "mac_tree \<Rightarrow> bytes \<Rightarrow> mac_tree" where
  "mac_path (Inner nb) (b # c # mac) =
     (let node = (case nb b of None \<Rightarrow> alloc_mac_tree_node | Some t \<Rightarrow> t)
      in Inner (nb(b \<mapsto> mac_path node (c # mac))))"
| "mac_path t mac = t"

fun mac_set :: "mac_tree \<Rightarrow> bytes \<Rightarrow> mac_crypt_refs \<Rightarrow> mac_tree" where
  "mac_set (Inner nb) [b] nid = Inner (nb(b \<mapsto> Leaf nid))"
| "mac_set (Inner nb) (b # c # mac) nid =
     (case nb b of None \<Rightarrow> Inner nb | Some t \<Rightarrow> Inner (nb(b \<mapsto> mac_set t (c # mac) nid)))"
| "mac_set t mac nid = t"

text \<open>
  The value of the recursive removal is the returned flag (the node is gone), the node
  afterwards and the leaf that was torn down.
\<close>

fun remove_mac_recursive :: "mac_tree \<Rightarrow> bytes \<Rightarrow> bool \<times> mac_tree \<times> mac_crypt_refs option" where
  "remove_mac_recursive (Leaf nid) mac = (True, Leaf nid, Some nid)"
| "remove_mac_recursive (Inner nb) (b # mac) =
     (case nb b of
        None \<Rightarrow> (False, Inner nb, None)
      | Some t \<Rightarrow>
          (case remove_mac_recursive t mac of
             (gone, t', nid) \<Rightarrow>
               if gone then (let nb' = nb(b := None) in (child_count nb' = 0, Inner nb', nid))
               else (False, Inner (nb(b \<mapsto> t')), nid)))"
| "remove_mac_recursive (Inner nb) [] = (False, Inner nb, None)"

definition mac_remove :: "mac_tree \<Rightarrow> bytes \<Rightarrow> mac_tree" where
  "mac_remove t mac = fst (snd (remove_mac_recursive t mac))"

definition mac_insert :: "mac_tree \<Rightarrow> bytes \<Rightarrow> mac_crypt_refs \<Rightarrow> mac_tree" where
  "mac_insert t mac nid = mac_set (mac_path t mac) mac nid"

section \<open>The contract of the table\<close>

locale mac_table =
  fixes empty_t :: 't
    and find_t :: "'t \<Rightarrow> bytes \<Rightarrow> 'v option"
    and insert_t :: "'t \<Rightarrow> bytes \<Rightarrow> 'v \<Rightarrow> 't"
    and remove_t :: "'t \<Rightarrow> bytes \<Rightarrow> 't"
    and wf_t :: "'t \<Rightarrow> bool"
    and len :: nat
  assumes empty_wf: "wf_t empty_t"
    and find_empty: "length m = len \<Longrightarrow> find_t empty_t m = None"
    and insert_wf: "wf_t t \<Longrightarrow> length m = len \<Longrightarrow> wf_t (insert_t t m v)"
    and find_insert: "wf_t t \<Longrightarrow> length m = len \<Longrightarrow> length m' = len \<Longrightarrow>
      find_t (insert_t t m v) m' = (if m' = m then Some v else find_t t m')"
    and remove_wf: "wf_t t \<Longrightarrow> length m = len \<Longrightarrow> wf_t (remove_t t m)"
    and find_remove: "wf_t t \<Longrightarrow> length m = len \<Longrightarrow> length m' = len \<Longrightarrow>
      find_t (remove_t t m) m' = (if m' = m then None else find_t t m')"
begin

text \<open>The abstract table: a partial function on addresses of the right length.\<close>

definition table :: "'t \<Rightarrow> bytes \<Rightarrow> 'v option" where
  "table t = (\<lambda>m. if length m = len then find_t t m else None)"

lemma table_empty: "table empty_t = Map.empty"
  by (auto simp: table_def find_empty)

lemma table_insert:
  "wf_t t \<Longrightarrow> length m = len \<Longrightarrow> table (insert_t t m v) = (table t)(m \<mapsto> v)"
  by (auto simp: table_def fun_eq_iff find_insert)

lemma table_remove:
  "wf_t t \<Longrightarrow> length m = len \<Longrightarrow> table (remove_t t m) = (table t)(m := None)"
  by (auto simp: table_def fun_eq_iff find_remove)

text \<open>A sequence of updates has the effect of the same updates on the map.\<close>

definition apply_upd :: "'t \<Rightarrow> bytes \<times> 'v option \<Rightarrow> 't" where
  "apply_upd t u = (case u of (m, Some v) \<Rightarrow> insert_t t m v | (m, None) \<Rightarrow> remove_t t m)"

lemma table_updates:
  assumes "list_all (\<lambda>u. length (fst u) = len) us"
  shows "wf_t (foldl apply_upd empty_t us)
    \<and> table (foldl apply_upd empty_t us) = foldl (\<lambda>f u. f(fst u := snd u)) Map.empty us"
  using assms
proof (induction us rule: rev_induct)
  case (snoc u us)
  obtain m v where u: "u = (m, v)" by fastforce
  show ?case
    using snoc unfolding u
    by (cases v) (auto simp: apply_upd_def insert_wf remove_wf table_insert table_remove)
qed (simp add: empty_wf table_empty)

end

section \<open>The trie implements the table\<close>

text \<open>All leaves are at the same depth.\<close>

fun wf_tree :: "nat \<Rightarrow> mac_tree \<Rightarrow> bool" where
  "wf_tree 0 (Leaf nid) \<longleftrightarrow> True"
| "wf_tree (Suc n) (Inner nb) \<longleftrightarrow> (\<forall>b t. nb b = Some t \<longrightarrow> wf_tree n t)"
| "wf_tree _ _ \<longleftrightarrow> False"

lemma wf_tree_Inner: "wf_tree (Suc n) t \<longleftrightarrow> (\<exists>nb. t = Inner nb \<and> (\<forall>b t. nb b = Some t \<longrightarrow> wf_tree n t))"
  by (cases t) auto

lemma wf_tree_0: "wf_tree 0 t \<longleftrightarrow> (\<exists>nid. t = Leaf nid)"
  by (cases t) auto

lemma wf_alloc [simp]: "wf_tree (Suc n) alloc_mac_tree_node"
  by (simp add: alloc_mac_tree_node_def)

lemma find_alloc [simp]: "mac \<noteq> [] \<Longrightarrow> privnet_find_mac alloc_mac_tree_node mac = None"
  by (cases mac) (simp_all add: alloc_mac_tree_node_def)

lemma mac_path_spec:
  "wf_tree (length mac) t \<Longrightarrow> wf_tree (length mac) (mac_path t mac)
   \<and> (\<forall>m. length m = length mac \<longrightarrow> privnet_find_mac (mac_path t mac) m = privnet_find_mac t m)"
proof (induction t mac rule: mac_path.induct)
  case (1 nb b c mac)
  let ?t = "case nb b of None \<Rightarrow> alloc_mac_tree_node | Some t \<Rightarrow> t"
  have wf: "wf_tree (length (c # mac)) ?t" using "1.prems" by (auto split: option.split)
  note ih = "1.IH" [OF refl wf]
  have "privnet_find_mac (Inner (nb(b \<mapsto> mac_path ?t (c # mac)))) m = privnet_find_mac (Inner nb) m"
    if len: "length m = length (b # c # mac)" for m
  proof (cases m)
    case (Cons x xs)
    then have "length xs = length (c # mac)" using len by simp
    then show ?thesis using Cons ih by (cases "nb b") (auto simp: length_Suc_conv)
  qed (use len in simp)
  then show ?case using ih "1.prems" by (auto simp: Let_def)
qed auto

lemma mac_set_spec:
  "wf_tree (length mac) t \<Longrightarrow> mac \<noteq> [] \<Longrightarrow> mac_path t mac = t \<Longrightarrow>
   wf_tree (length mac) (mac_set t mac nid)
   \<and> (\<forall>m. length m = length mac \<longrightarrow>
        privnet_find_mac (mac_set t mac nid) m = (if m = mac then Some nid else privnet_find_mac t m))"
proof (induction t mac nid rule: mac_set.induct [case_names last more leaf none])
  case (last nb b nid)
  then show ?case by (auto simp: length_Suc_conv wf_tree_0 split: if_splits)
next
  case (more nb b c mac nid)
  let ?t = "case nb b of None \<Rightarrow> alloc_mac_tree_node | Some t \<Rightarrow> t"
  have "nb(b \<mapsto> mac_path ?t (c # mac)) = nb" using more.prems(3) by (simp add: Let_def)
  from fun_cong [OF this, of b] obtain t where t: "nb b = Some t" by (metis fun_upd_same)
  have wf: "wf_tree (length (c # mac)) t" using more.prems(1) t by simp
  have "mac_path t (c # mac) = t" using more.prems(3) t by (auto simp: Let_def fun_eq_iff split: if_splits)
  note ih = more.IH [OF t wf _ this]
  have "privnet_find_mac (Inner (nb(b \<mapsto> mac_set t (c # mac) nid))) m =
      (if m = b # c # mac then Some nid else privnet_find_mac (Inner nb) m)"
    if len: "length m = length (b # c # mac)" for m
  proof (cases m)
    case (Cons x xs)
    then show ?thesis using ih len t by auto
  qed (use len in simp)
  then show ?case using ih more.prems(1) t by auto
next
  case (leaf v mac nid)
  then show ?case by (cases mac) auto
qed auto

lemma mac_path_idem [simp]: "mac_path (mac_path t mac) mac = mac_path t mac"
  by (induction t mac rule: mac_path.induct) (auto simp: Let_def)

lemma mac_insert_spec:
  assumes "wf_tree (length mac) t" "mac \<noteq> []"
  shows "wf_tree (length mac) (mac_insert t mac nid)"
    and "length m = length mac \<Longrightarrow>
      privnet_find_mac (mac_insert t mac nid) m = (if m = mac then Some nid else privnet_find_mac t m)"
  using mac_set_spec [of mac "mac_path t mac" nid] mac_path_spec [OF assms(1)] assms(2)
  by (auto simp: mac_insert_def)

lemma child_count_0: "child_count nb = 0 \<longleftrightarrow> nb = (\<lambda>b. None)"
proof
  assume a: "child_count nb = 0"
  have "nb b = None" for b
  proof -
    have "unat b \<in> set [0..<256]" using unsigned_less [of b] by simp
    then have "nb (of_nat (unat b)) = None"
      using a unfolding child_count_def length_0_conv filter_empty_conv by blast
    then show ?thesis by simp
  qed
  then show "nb = (\<lambda>b. None)" by (simp add: fun_eq_iff)
qed (simp add: child_count_def)

text \<open>
  What a removal leaves: the address is gone, every other stays, and the flag says that
  nothing is left below the node.
\<close>

lemma remove_mac_recursive_spec:
  "wf_tree (length mac) t \<Longrightarrow> remove_mac_recursive t mac = (gone, t', nid) \<Longrightarrow>
   nid = privnet_find_mac t mac
   \<and> (gone \<longrightarrow> (\<forall>m. length m = length mac \<longrightarrow> m \<noteq> mac \<longrightarrow> privnet_find_mac t m = None))
   \<and> (mac \<noteq> [] \<longrightarrow> wf_tree (length mac) t'
      \<and> (\<forall>m. length m = length mac \<longrightarrow>
           privnet_find_mac t' m = (if m = mac then None else privnet_find_mac t m)))
   \<and> (\<not> gone \<longrightarrow> mac \<noteq> [])"
proof (induction t mac arbitrary: gone t' nid rule: remove_mac_recursive.induct)
  case (1 nid mac)
  then show ?case by (cases mac) auto
next
  case (2 nb b mac)
  show ?case
  proof (cases "nb b")
    case None
    then show ?thesis using "2.prems" by (auto simp: length_Suc_conv)
  next
    case (Some t)
    obtain g u r where rec: "remove_mac_recursive t mac = (g, u, r)" by (metis prod_cases3)
    have wf: "wf_tree (length mac) t" using "2.prems"(1) Some by simp
    note ih = "2.IH" [OF Some wf rec]
    show ?thesis
    proof (cases g)
      case True
      define nb' where "nb' = nb(b := None)"
      have res: "gone = (child_count nb' = 0)" "t' = Inner nb'" "nid = r"
        using "2.prems"(2) Some rec True by (simp_all add: nb'_def Let_def)
      have "privnet_find_mac (Inner nb') m = (if m = b # mac then None else privnet_find_mac (Inner nb) m)"
        if len: "length m = length (b # mac)" for m
        using len ih True Some by (cases m) (auto simp: nb'_def)
      moreover have "privnet_find_mac (Inner nb) m = None"
        if "gone" "length m = length (b # mac)" "m \<noteq> b # mac" for m
      proof (cases m)
        case (Cons x xs)
        have "nb x = None \<or> x = b"
          using that(1) res(1) by (auto simp: child_count_0 nb'_def fun_eq_iff split: if_splits)
        then show ?thesis using Cons ih True Some that by auto
      qed (use that in simp)
      ultimately show ?thesis
        using res ih "2.prems"(1) Some by (auto simp: nb'_def)
    next
      case False
      have res: "\<not> gone" "t' = Inner (nb(b \<mapsto> u))" "nid = r"
        using "2.prems"(2) Some rec False by simp_all
      have ne: "mac \<noteq> []" using ih False by simp
      have "privnet_find_mac t' m = (if m = b # mac then None else privnet_find_mac (Inner nb) m)"
        if len: "length m = length (b # mac)" for m
        using len ih ne Some by (cases m) (auto simp: res(2))
      then show ?thesis using res ih ne "2.prems"(1) Some by auto
    qed
  qed
qed simp

lemma mac_remove_spec:
  assumes "wf_tree (length mac) t" "mac \<noteq> []"
  shows "wf_tree (length mac) (mac_remove t mac)"
    and "length m = length mac \<Longrightarrow>
      privnet_find_mac (mac_remove t mac) m = (if m = mac then None else privnet_find_mac t m)"
proof -
  obtain g t' nid where "remove_mac_recursive t mac = (g, t', nid)" by (metis prod_cases3)
  then show "wf_tree (length mac) (mac_remove t mac)"
    "length m = length mac \<Longrightarrow>
      privnet_find_mac (mac_remove t mac) m = (if m = mac then None else privnet_find_mac t m)"
    using remove_mac_recursive_spec [OF assms(1)] assms(2) by (auto simp: mac_remove_def)
qed

interpretation trie: mac_table alloc_mac_tree_node privnet_find_mac mac_insert mac_remove "wf_tree 6" 6
proof unfold_locales
  have s6: "(6::nat) = Suc 5" by simp
  show "wf_tree 6 alloc_mac_tree_node" unfolding s6 by (rule wf_alloc)
  show "privnet_find_mac alloc_mac_tree_node m = None" if "length m = 6" for m
    using that by (intro find_alloc) auto
  fix t and m m' :: bytes and v assume t: "wf_tree 6 t" "length m = 6"
  then have ne: "m \<noteq> []" "wf_tree (length m) t" by auto
  show "wf_tree 6 (mac_insert t m v)" "wf_tree 6 (mac_remove t m)"
    using mac_insert_spec(1) [OF ne(2,1), of v] mac_remove_spec(1) [OF ne(2,1)] t(2) by simp_all
  assume "length m' = 6"
  then show "privnet_find_mac (mac_insert t m v) m' = (if m' = m then Some v else privnet_find_mac t m')"
    "privnet_find_mac (mac_remove t m) m' = (if m' = m then None else privnet_find_mac t m')"
    using mac_insert_spec(2) [OF ne(2,1)] mac_remove_spec(2) [OF ne(2,1)] t(2) by simp_all
qed

section \<open>Claiming and giving back the contexts of a card\<close>

text \<open>
  A leaf is allocated at an address nobody uses (\<open>mr_addr\<close>). Freeing it makes its two
  references disappear (\<open>free_refs\<close>).
\<close>

definition free_refs :: "mac_crypt_refs \<Rightarrow> drv \<Rightarrow> drv" where
  "free_refs nid d = d\<lparr>dv_refs := (dv_refs d)(in_ref nid := None, out_ref nid := None)\<rparr>"

definition setup_node :: "mac_crypt_refs \<Rightarrow> drv \<Rightarrow> (int \<times> drv) option" where
  "setup_node nid d =
     (let d = cctx_ref_init (out_ref nid) (cctx_ref_init (in_ref nid) d)
      in do {
        (rc, d) \<leftarrow> use_ctx (mr_in nid) (Some (in_ref nid)) d;
        if rc < 0 then Some (- 1, d)
        else do {
          (rc, d) \<leftarrow> use_ctx (mr_out nid) (Some (out_ref nid)) d;
          if rc < 0 then do { d \<leftarrow> unuse_ctx (Some (in_ref nid)) d; Some (- 1, d) }
          else Some (0, d) } })"

definition teardown_node :: "mac_crypt_refs \<Rightarrow> drv \<Rightarrow> drv option" where
  "teardown_node nid d = do {
     d \<leftarrow> unuse_ctx (Some (in_ref nid)) d;
     unuse_ctx (Some (out_ref nid)) d }"

record privnet =
  pn_root :: mac_tree
  pn_delay :: "32 word"

text \<open>\<open>nid_addr\<close> is the address of the new leaf, or \<open>None\<close> when \<open>kmalloc\<close> fails.\<close>

definition privnet_add_mac ::
  "bytes \<Rightarrow> u32 \<Rightarrow> u32 \<Rightarrow> addr option \<Rightarrow> privnet \<times> drv \<Rightarrow> (int \<times> privnet \<times> drv) option" where
  "privnet_add_mac mac i_in i_out nid_addr st =
     (let (p, d) = st;
          root = mac_path (pn_root p) mac;
          p = p\<lparr>pn_root := root\<rparr>
      in if privnet_find_mac root mac \<noteq> None then Some (- EBUSY, p, d)
         else case nid_addr of
           None \<Rightarrow> Some (- ENOMEM, p, d)
         | Some a \<Rightarrow>
             let nid = \<lparr>mr_in = i_in, mr_out = i_out, mr_addr = a\<rparr>
             in do {
               (rc, d) \<leftarrow> setup_node nid d;
               if rc < 0 then Some (rc, p, free_refs nid d)
               else Some (0, p\<lparr>pn_root := mac_set root mac nid\<rparr>, d) })"

definition privnet_remove_mac :: "bytes \<Rightarrow> privnet \<times> drv \<Rightarrow> (privnet \<times> drv) option" where
  "privnet_remove_mac mac st =
     (let (p, d) = st;
          (gone, root, nid) = remove_mac_recursive (pn_root p) mac;
          p = p\<lparr>pn_root := root\<rparr>
      in case nid of
           None \<Rightarrow> Some (p, d)
         | Some nid \<Rightarrow> do { d \<leftarrow> teardown_node nid d; Some (p, free_refs nid d) })"

text \<open>
  The packet hooks. With no context behind the reference, or when \<open>priv_crypt\<close> reports an
  error, the packet is left as it is.
\<close>

definition privnet_crypt :: "aes_fn \<Rightarrow> addr \<Rightarrow> bytes \<Rightarrow> drv \<Rightarrow> (bytes \<times> drv) option" where
  "privnet_crypt aes r data d =
     (case dv_refs d r of
        None \<Rightarrow> Some (data, d)
      | Some a \<Rightarrow> do {
          c \<leftarrow> dv_heap d a;
          let (rc, c', out) = priv_crypt aes (Some c) data;
          if rc < 0 then Some (data, d)
          else do { c' \<leftarrow> c'; Some (out, put_ctx a c' d) } })"

definition privnet_encrypt :: "aes_fn \<Rightarrow> mac_crypt_refs \<Rightarrow> bytes \<Rightarrow> drv \<Rightarrow> (bytes \<times> drv) option" where
  "privnet_encrypt aes nid data d = privnet_crypt aes (in_ref nid) data d"

definition privnet_decrypt :: "aes_fn \<Rightarrow> mac_crypt_refs \<Rightarrow> bytes \<Rightarrow> drv \<Rightarrow> (bytes \<times> drv) option" where
  "privnet_decrypt aes nid data d = privnet_crypt aes (out_ref nid) data d"

section \<open>Adding and removing keep the driver's invariant\<close>

lemma in_out_ref [simp]: "in_ref nid \<noteq> out_ref nid'" "out_ref nid \<noteq> in_ref nid'"
  unfolding in_ref_def out_ref_def by presburger+

lemma cctx_ref_init_idle:
  "dv_refs d r = None \<Longrightarrow> cctx_ref_init r d = d"
  by (simp add: cctx_ref_init_def fun_upd_idem)

lemma unuse_ctx_ref_init:
  "r \<noteq> r' \<Longrightarrow> unuse_ctx (Some r') (cctx_ref_init r d) = map_option (cctx_ref_init r) (unuse_ctx (Some r') d)"
  by (cases "dv_refs d r'"; cases "dv_heap d (the (dv_refs d r'))")
    (simp_all add: unuse_ctx_def cctx_ref_init_def put_ctx_def)

lemma free_refs_init: "free_refs nid d = cctx_ref_init (out_ref nid) (cctx_ref_init (in_ref nid) d)"
  by (simp add: free_refs_def cctx_ref_init_def)

text \<open>Tearing a leaf down and freeing it is giving back both references.\<close>

lemma teardown_free:
  assumes inv: "drv_inv d"
  shows "\<exists>d'. map_option (free_refs nid) (teardown_node nid d) = Some d' \<and> drv_inv d'
    \<and> dv_refs d' (in_ref nid) = None \<and> dv_refs d' (out_ref nid) = None"
proof -
  obtain d1 where d1: "release_ref (in_ref nid) d = Some d1" "drv_inv d1" "dv_refs d1 (in_ref nid) = None"
    using release_ref_inv [OF inv] by blast
  obtain d2 where d2: "release_ref (out_ref nid) d1 = Some d2" "drv_inv d2" "dv_refs d2 (out_ref nid) = None"
    using release_ref_inv [OF d1(2)] by blast
  obtain u where u: "unuse_ctx (Some (in_ref nid)) d = Some u" "d1 = cctx_ref_init (in_ref nid) u"
    using d1(1) by (auto simp: release_ref_def)
  have "map_option (free_refs nid) (teardown_node nid d) = Some d2"
    using d2(1) u
    by (auto simp: teardown_node_def release_ref_def unuse_ctx_ref_init free_refs_init option.map_comp comp_def)
  moreover have "dv_refs d2 (in_ref nid) = None"
    using d2(1) d1(3)
    by (auto simp: release_ref_def unuse_ctx_def cctx_ref_init_def put_ctx_def split: option.splits Option.bind_splits)
  ultimately show ?thesis using d2(2,3) by blast
qed

lemma use_ctx_refs:
  "use_ctx i (Some r) d = Some (rc, d') \<Longrightarrow> r' \<noteq> r \<Longrightarrow> dv_refs d' r' = dv_refs d r'"
  "use_ctx i (Some r) d = Some (rc, d') \<Longrightarrow> rc < 0 \<Longrightarrow> d' = d"
  by (auto simp: use_ctx_def put_ctx_def split: option.splits Option.bind_splits if_splits)

lemma setup_node_spec:
  assumes inv: "drv_inv d" and fresh: "dv_refs d (in_ref nid) = None" "dv_refs d (out_ref nid) = None"
  shows "\<exists>rc d'. setup_node nid d = Some (rc, d') \<and>
    (if rc < 0 then rc = - 1 \<and> drv_inv (free_refs nid d')
     else rc = 0 \<and> drv_inv d' \<and> dv_refs d' (in_ref nid) \<noteq> None \<and> dv_refs d' (out_ref nid) \<noteq> None)"
proof -
  have init: "cctx_ref_init (out_ref nid) (cctx_ref_init (in_ref nid) d) = d"
    using fresh by (simp add: cctx_ref_init_idle)
  obtain rc1 d1 where u1: "use_ctx (mr_in nid) (Some (in_ref nid)) d = Some (rc1, d1)"
      "rc1 = 0 \<longrightarrow> dv_refs d1 (in_ref nid) \<noteq> None" "rc1 \<noteq> 0 \<longrightarrow> rc1 < 0"
    using use_ctx_result [OF inv, of "mr_in nid" "in_ref nid"] by (auto split: if_splits)
  have inv1: "drv_inv d1" by (rule use_ctx_inv [OF inv fresh(1) u1(1)])
  have out1: "dv_refs d1 (out_ref nid) = None" using use_ctx_refs(1) [OF u1(1)] fresh(2) by simp
  show ?thesis
  proof (cases "rc1 < 0")
    case True
    then have "d1 = d" by (rule use_ctx_refs(2) [OF u1(1)])
    then have "free_refs nid d1 = d" using init by (simp add: free_refs_init)
    then show ?thesis using True u1(1) init inv by (auto simp: setup_node_def)
  next
    case False
    obtain rc2 d2 where u2: "use_ctx (mr_out nid) (Some (out_ref nid)) d1 = Some (rc2, d2)"
      "rc2 = 0 \<longrightarrow> dv_refs d2 (out_ref nid) \<noteq> None" "rc2 \<noteq> 0 \<longrightarrow> rc2 < 0"
      using use_ctx_result [OF inv1, of "mr_out nid" "out_ref nid"] by (auto split: if_splits)
    show ?thesis
    proof (cases "rc2 < 0")
      case True
      then have d2: "d2 = d1" by (rule use_ctx_refs(2) [OF u2(1)])
      obtain d3 where d3: "release_ref (in_ref nid) d1 = Some d3" "drv_inv d3"
        using release_ref_inv [OF inv1] by blast
      then obtain u where u: "unuse_ctx (Some (in_ref nid)) d1 = Some u" "d3 = cctx_ref_init (in_ref nid) u"
        by (auto simp: release_ref_def)
      have "dv_refs d3 (out_ref nid) = None"
        using u out1 by (auto simp: unuse_ctx_def cctx_ref_init_def put_ctx_def split: option.splits Option.bind_splits)
      then have "free_refs nid u = d3" using u(2) by (simp add: free_refs_init cctx_ref_init_idle)
      then show ?thesis
        using True False u1(1) u2(1) d2 u(1) d3(2) init by (auto simp: setup_node_def)
    next
      case ok: False
      have "drv_inv d2" by (rule use_ctx_inv [OF inv1 out1 u2(1)])
      moreover have "dv_refs d2 (in_ref nid) \<noteq> None"
        using use_ctx_refs(1) [OF u2(1), of "in_ref nid"] u1(2,3) False by auto
      ultimately show ?thesis
        using ok False u1 u2 init by (auto simp: setup_node_def)
    qed
  qed
qed

definition pn_inv :: "privnet \<times> drv \<Rightarrow> bool" where
  "pn_inv st \<longleftrightarrow> wf_tree 6 (pn_root (fst st)) \<and> drv_inv (snd st)"

definition nid_fresh :: "addr option \<Rightarrow> drv \<Rightarrow> bool" where
  "nid_fresh na d \<longleftrightarrow> (\<forall>a. na = Some a \<longrightarrow> dv_refs d (2 * a) = None \<and> dv_refs d (2 * a + 1) = None)"



text \<open>A packet of a card whose contexts are present and activated goes through the stream.\<close>

lemma privnet_crypt_active:
  assumes inv: "drv_inv d" and r: "dv_refs d r = Some a" "dv_heap d a = Some c" and act: "allow_encrypt c"
  shows "\<exists>d'. privnet_crypt aes r data d = Some (ctr_out (kern_cipher aes c) (kern_ctr c) data, d') \<and> drv_inv d'"
proof -
  obtain c' where "priv_crypt aes (Some c) data = (0, Some c', ctr_out (kern_cipher aes c) (kern_ctr c) data)"
      "drv_inv (put_ctx a c' d)"
    using priv_crypt_held [OF inv r(2) act] by blast
  then show ?thesis using r by (simp add: privnet_crypt_def)
qed

text \<open>
  C37. A packet of a private card whose context is gone or not activated is passed on in the
  clear: the failure of the encryption is not an error for the caller.
\<close>

lemma privnet_crypt_inactive:
  assumes "dv_refs d r = None \<or> (\<exists>a c. dv_refs d r = Some a \<and> dv_heap d a = Some c \<and> \<not> allow_encrypt c)"
  shows "privnet_crypt aes r data d = Some (data, d)"
  using assms by (auto simp: privnet_crypt_def priv_crypt_not_activated)

section \<open>The text interface\<close>

datatype privnet_attr = AttrAddMac | AttrRemoveMac | AttrShowMacs | AttrDelay

definition hex_digit_val :: "byte \<Rightarrow> byte" where
  "hex_digit_val c =
     (if 65 \<le> c \<and> c \<le> 70 then c - 65 + 10
      else if 97 \<le> c \<and> c \<le> 102 then c - 97 + 10
      else if 48 \<le> c \<and> c \<le> 57 then c - 48
      else 0)"

definition hex2char :: "byte \<Rightarrow> byte \<Rightarrow> byte" where
  "hex2char h l = push_bit 4 (hex_digit_val h) + hex_digit_val l"

definition is_hex_digit :: "byte \<Rightarrow> bool" where
  "is_hex_digit c \<longleftrightarrow> (48 \<le> c \<and> c \<le> 57) \<or> (97 \<le> c \<and> c \<le> 102) \<or> (65 \<le> c \<and> c \<le> 70)"

text \<open>The digits of an identifier; past the written bytes the sysfs page holds zeros.\<close>

fun parse_hex_id :: "u32 \<Rightarrow> bytes \<Rightarrow> u32 \<times> bytes" where
  "parse_hex_id acc [] = (acc, [])"
| "parse_hex_id acc (c # cs) =
     (if is_hex_digit c then parse_hex_id (push_bit 4 acc + ucast (hex2char 48 c)) cs else (acc, c # cs))"

text \<open>Kernel code is compiled with wrapping signed arithmetic.\<close>

fun atoi_dec_loop :: "bytes \<Rightarrow> 32 word \<Rightarrow> 32 word \<Rightarrow> 32 word" where
  "atoi_dec_loop [] res weight = res"
| "atoi_dec_loop (c # cs) res weight = atoi_dec_loop cs (res + weight * (scast c - 48)) (weight * 10)"

definition atoi_dec :: "bytes \<Rightarrow> 32 word" where
  "atoi_dec str = atoi_dec_loop (rev str) 0 1"

text \<open>The digits are produced least significant first into \<open>buf\<close> and copied backwards.\<close>

function itoa_dec_loop :: "int \<Rightarrow> bytes \<Rightarrow> bytes" where
  "itoa_dec_loop num buf =
     (if 0 < num then itoa_dec_loop (num div 10) (buf @ [word_of_int (num mod 10) + 48]) else buf)"
  by pat_completeness auto
termination by (relation "measure (\<lambda>(n, b). nat n)") auto

declare itoa_dec_loop.simps [simp del]

definition itoa_dec :: "32 word \<Rightarrow> bytes" where
  "itoa_dec num =
     (let buf = itoa_dec_loop (sint num) []; buf = (if buf = [] then [48] else buf)
      in rev buf @ [10])"

definition str :: "string \<Rightarrow> bytes" where
  "str s = map of_char s"

definition hex_digit :: "nat \<Rightarrow> byte" where
  "hex_digit n = (if n < 10 then of_nat (48 + n) else of_nat (55 + n))"

definition fmt_02X :: "byte \<Rightarrow> bytes" where
  "fmt_02X b = [hex_digit (unat b div 16), hex_digit (unat b mod 16)]"

fun fmt_X :: "nat \<Rightarrow> bytes" where
  "fmt_X n = (if n < 16 then [hex_digit n] else fmt_X (n div 16) @ [hex_digit (n mod 16)])"

declare fmt_X.simps [simp del]

fun fmt_mac :: "bytes \<Rightarrow> bytes" where
  "fmt_mac [] = []"
| "fmt_mac [b] = fmt_02X b"
| "fmt_mac (b # c # m) = fmt_02X b @ str '':'' @ fmt_mac (c # m)"

definition print_mac_line :: "bytes \<Rightarrow> mac_crypt_refs \<Rightarrow> bytes" where
  "print_mac_line mac nid =
     str ''PRIV-MAC: '' @ fmt_mac mac @ str '', id_in: '' @ fmt_X (unat (mr_in nid))
     @ str '', id_out:'' @ fmt_X (unat (mr_out nid)) @ [10]"

text \<open>\<open>n\<close> counts the levels below: \<open>5 - indx\<close> in the source.\<close>

fun print_macs_recursive :: "nat \<Rightarrow> mac_tree \<Rightarrow> bytes \<Rightarrow> bytes" where
  "print_macs_recursive 0 (Inner nb) mac =
     concat (map (\<lambda>i. case nb (of_nat i) of
         Some (Leaf nid) \<Rightarrow> print_mac_line (mac @ [of_nat i]) nid | _ \<Rightarrow> []) [0..<256])"
| "print_macs_recursive (Suc n) (Inner nb) mac =
     concat (map (\<lambda>i. case nb (of_nat i) of
         Some t \<Rightarrow> print_macs_recursive n t (mac @ [of_nat i]) | None \<Rightarrow> []) [0..<256])"
| "print_macs_recursive _ (Leaf nid) mac = []"

definition privnet_print_macs :: "mac_tree \<Rightarrow> bytes" where
  "privnet_print_macs root = print_macs_recursive 5 root []"

definition privnet_show :: "privnet_attr \<Rightarrow> privnet \<Rightarrow> bytes" where
  "privnet_show attr p =
     (case attr of AttrShowMacs \<Rightarrow> privnet_print_macs (pn_root p)
      | AttrDelay \<Rightarrow> itoa_dec (pn_delay p) | _ \<Rightarrow> [])"

definition privnet_store ::
  "privnet_attr \<Rightarrow> bytes \<Rightarrow> addr option \<Rightarrow> privnet \<times> drv \<Rightarrow> (int \<times> privnet \<times> drv) option" where
  "privnet_store attr buffer na st =
     (let sz = int (length buffer);
          mac = map (\<lambda>i. hex2char (buffer ! (i * 3)) (buffer ! (i * 3 + 1))) [0..<6]
      in case attr of
        AttrAddMac \<Rightarrow>
          if sz < 17 then Some (sz, st)
          else if sz < 21 then Some (sz, st)
          else
            let (id_in, rest) = parse_hex_id 0 (drop 18 buffer);
                (id_out, rest') = parse_hex_id 0 (tl rest)
            in do {
              (rc, st') \<leftarrow> privnet_add_mac mac id_in id_out na st;
              if rc < 0 then Some (rc, st') else Some (sz, st') }
      | AttrRemoveMac \<Rightarrow>
          if sz < 17 then Some (sz, st)
          else do { st' \<leftarrow> privnet_remove_mac mac st; Some (sz, st') }
      | AttrDelay \<Rightarrow> Some (sz, (fst st)\<lparr>pn_delay := atoi_dec (take (length buffer - 1) buffer)\<rparr>, snd st)
      | AttrShowMacs \<Rightarrow> Some (sz, st))"

definition privnet_init :: privnet where
  "privnet_init = \<lparr>pn_root = alloc_mac_tree_node, pn_delay = 0\<rparr>"

text \<open>What is freed when the module is unloaded: every node, but no reference is given back.\<close>

fun free_mac_tree_recursive :: "nat \<Rightarrow> mac_tree \<Rightarrow> mac_crypt_refs list" where
  "free_mac_tree_recursive n (Leaf nid) = [nid]"
| "free_mac_tree_recursive 0 (Inner nb) = []"
| "free_mac_tree_recursive (Suc n) (Inner nb) =
     concat (map (\<lambda>i. case nb (of_nat i) of
         Some t \<Rightarrow> free_mac_tree_recursive n t | None \<Rightarrow> []) [0..<256])"

section \<open>What is written is what is read\<close>

lemma hex_digit_cases:
  assumes "n < 16"
  shows "hex_digit_val (hex_digit n) = of_nat n" "is_hex_digit (hex_digit n)"
proof -
  have "n \<in> {0, 1, 2, 3, 4, 5, 6, 7, 8, 9, 10, 11, 12, 13, 14, 15}"
    using assms unfolding insert_iff empty_iff by presburger
  then show "hex_digit_val (hex_digit n) = of_nat n" "is_hex_digit (hex_digit n)"
    by (elim insertE emptyE; simp add: hex_digit_def hex_digit_val_def is_hex_digit_def)+
qed

lemma hex_digit_val_zero [simp]: "hex_digit_val 48 = 0"
  by (simp add: hex_digit_val_def)

lemma hex2char_fmt: "hex2char (hex_digit (unat b div 16)) (hex_digit (unat b mod 16)) = b"
proof -
  have "unat b < 256" using unsigned_less [of b] by simp
  then have lt: "unat b div 16 < 16" by simp
  have "hex2char (hex_digit (unat b div 16)) (hex_digit (unat b mod 16)) =
      of_nat (unat b div 16) * 16 + of_nat (unat b mod 16)"
    using lt by (simp add: hex2char_def hex_digit_cases push_bit_eq_mult mult.commute)
  also have "\<dots> = of_nat (unat b div 16 * 16 + unat b mod 16)"
    by (simp only: of_nat_add of_nat_mult of_nat_numeral)
  also have "\<dots> = b" unfolding div_mult_mod_eq by simp
  finally show ?thesis .
qed

lemma ucast_of_nat_small: "k < 16 \<Longrightarrow> ucast (of_nat k :: byte) = (of_nat k :: u32)"
proof -
  assume "k < 16"
  then have "k \<in> {0, 1, 2, 3, 4, 5, 6, 7, 8, 9, 10, 11, 12, 13, 14, 15}"
    unfolding insert_iff empty_iff by presburger
  then show ?thesis by auto
qed

lemma parse_hex_id_fmt:
  "\<not> is_hex_digit c \<Longrightarrow>
   parse_hex_id 0 (fmt_X n @ c # cs) = (of_nat n, c # cs) \<and> parse_hex_id 0 (fmt_X n) = (of_nat n, [])"
proof -
  have step: "parse_hex_id acc (fmt_X n @ rest) = parse_hex_id (acc * 16 ^ length (fmt_X n) + of_nat n) rest"
    for acc rest
  proof (induction n arbitrary: rest acc rule: fmt_X.induct)
    case (1 n)
    have dig: "push_bit 4 a + ucast (hex2char 48 (hex_digit k)) = a * 16 + of_nat k" if "k < 16" for a :: u32 and k
    proof -
      have "hex2char 48 (hex_digit k) = (of_nat k :: byte)"
        using that by (simp add: hex2char_def hex_digit_cases)
      moreover have "ucast (of_nat k :: byte) = (of_nat k :: u32)"
        using that by (rule ucast_of_nat_small)
      ultimately show ?thesis by (simp add: push_bit_eq_mult mult.commute)
    qed
    show ?case
    proof (cases "n < 16")
      case True
      then show ?thesis by (simp add: fmt_X.simps [of n] hex_digit_cases dig)
    next
      case False
      let ?k = "length (fmt_X (n div 16))"
      have "of_nat n = (of_nat (n div 16 * 16 + n mod 16) :: u32)" unfolding div_mult_mod_eq ..
      then have n: "of_nat n = (of_nat (n div 16) * 16 + of_nat (n mod 16) :: u32)"
        by (simp only: of_nat_add of_nat_mult of_nat_numeral)
      have "parse_hex_id acc (fmt_X n @ rest) =
          parse_hex_id ((acc * 16 ^ ?k + of_nat (n div 16)) * 16 + of_nat (n mod 16)) rest"
        using False "1.IH" [OF False, of acc "hex_digit (n mod 16) # rest"]
        by (simp add: fmt_X.simps [of n] hex_digit_cases dig)
      also have "(acc * 16 ^ ?k + of_nat (n div 16)) * 16 + of_nat (n mod 16) =
          acc * 16 ^ length (fmt_X n) + of_nat n"
        unfolding n using False by (simp add: fmt_X.simps [of n] distrib_right power_Suc2 mult.assoc del: power_Suc)
      finally show ?thesis .
    qed
  qed
  assume "\<not> is_hex_digit c"
  then show ?thesis using step [of 0 "c # cs"] step [of 0 "[]"] by simp
qed

text \<open>The documented input of \<open>add_mac\<close>: the address, then the two identifiers, in hexadecimal.\<close>

definition add_mac_text :: "bytes \<Rightarrow> u32 \<Rightarrow> u32 \<Rightarrow> bytes" where
  "add_mac_text mac i_in i_out =
     fmt_mac mac @ str '','' @ fmt_X (unat i_in) @ str '','' @ fmt_X (unat i_out)"

lemma str_code: "str '':'' = [58]" "str '','' = [44]"
  by (simp_all add: str_def)

lemma fmt_X_nonempty: "fmt_X n \<noteq> []"
  by (simp add: fmt_X.simps)

lemma upt_6: "[0..<6] = [0, 1, 2, 3, 4, 5::nat]"
  by (simp add: upt_rec)

lemma fmt_mac_6:
  assumes "length mac = 6"
  shows "length (fmt_mac mac) = 17"
    and "map (\<lambda>i. hex2char ((fmt_mac mac @ rest) ! (i * 3)) ((fmt_mac mac @ rest) ! (i * 3 + 1))) [0..<6] = mac"
proof -
  obtain a b c d e f where mac: "mac = [a, b, c, d, e, f]"
    using assms by (auto simp: numeral_eq_Suc length_Suc_conv)
  show "length (fmt_mac mac) = 17" by (simp add: mac fmt_02X_def str_code)
  show "map (\<lambda>i. hex2char ((fmt_mac mac @ rest) ! (i * 3)) ((fmt_mac mac @ rest) ! (i * 3 + 1))) [0..<6] = mac"
    by (simp add: mac fmt_02X_def str_code upt_6 hex2char_fmt)
qed


lemma itoa_dec_loop_append: "itoa_dec_loop n buf = buf @ itoa_dec_loop n []"
proof (induction "nat n" arbitrary: n buf rule: less_induct)
  case less
  show ?case
  proof (cases "0 < n")
    case True
    have lt: "nat (n div 10) < nat n" using True by simp
    show ?thesis
      using True less [OF lt, of "buf @ [word_of_int (n mod 10) + 48]"]
        less [OF lt, of "[word_of_int (n mod 10) + 48]"]
      by (simp add: itoa_dec_loop.simps [of n])
  qed (simp add: itoa_dec_loop.simps [of n])
qed

lemma atoi_itoa_digit:
  assumes "0 \<le> k" "k < 10"
  shows "scast (word_of_int k + 48 :: byte) - 48 = (word_of_int k :: 32 word)"
proof -
  have "k \<in> {0, 1, 2, 3, 4, 5, 6, 7, 8, 9}" using assms unfolding insert_iff empty_iff by presburger
  then show ?thesis by auto
qed

lemma atoi_itoa_loop:
  "0 \<le> n \<Longrightarrow> atoi_dec_loop (itoa_dec_loop n []) res w = res + w * word_of_int n"
proof (induction "nat n" arbitrary: n res w rule: less_induct)
  case less
  show ?case
  proof (cases "0 < n")
    case True
    have lt: "nat (n div 10) < nat n" using True by simp
    let ?r = "word_of_int (n mod 10) :: 32 word" and ?q = "word_of_int (n div 10) :: 32 word"
    have "word_of_int n = (word_of_int (n div 10 * 10 + n mod 10) :: 32 word)"
      unfolding div_mult_mod_eq ..
    then have n: "word_of_int n = ?q * 10 + ?r" by (simp only: of_int_add of_int_mult of_int_numeral)
    have "atoi_dec_loop (itoa_dec_loop n []) res w =
        atoi_dec_loop (itoa_dec_loop (n div 10) []) (res + w * ?r) (w * 10)"
      using True itoa_dec_loop_append [of "n div 10" "[word_of_int (n mod 10) + 48]"]
        atoi_itoa_digit [of "n mod 10"]
      by (simp add: itoa_dec_loop.simps [of n])
    also have "\<dots> = res + w * ?r + w * 10 * ?q"
      using True by (intro less.hyps [OF lt]) simp
    also have "\<dots> = res + w * word_of_int n"
      unfolding n by (simp only: distrib_left mult.assoc mult.commute [of 10] add.assoc add.commute [of "w * ?r"])
    finally show ?thesis .
  qed (use less.prems in \<open>simp add: itoa_dec_loop.simps [of 0]\<close>)
qed

text \<open>
  Writing back what \<open>delay\<close> shows leaves the delay as it is.
\<close>

lemma delay_round_trip:
  assumes "0 \<le> sint (pn_delay p)"
  shows "privnet_store AttrDelay (privnet_show AttrDelay p) na (p, d) =
    Some (int (length (itoa_dec (pn_delay p))), p, d)"
proof -
  let ?b = "itoa_dec_loop (sint (pn_delay p)) []"
  have "atoi_dec (rev (if ?b = [] then [48] else ?b)) = pn_delay p"
  proof (cases "?b = []")
    case True
    then have "pn_delay p = 0" using atoi_itoa_loop [OF assms, of 0 1] by simp
    then show ?thesis using True by (simp add: atoi_dec_def)
  next
    case False
    then show ?thesis using atoi_itoa_loop [OF assms, of 0 1] by (simp add: atoi_dec_def)
  qed
  then show ?thesis
    by (simp add: privnet_store_def privnet_show_def itoa_dec_def Let_def split del: if_split)
qed

section \<open>The listing shows the table\<close>

fun mac_entries :: "nat \<Rightarrow> mac_tree \<Rightarrow> bytes \<Rightarrow> (bytes \<times> mac_crypt_refs) list" where
  "mac_entries 0 (Leaf nid) mac = [(mac, nid)]"
| "mac_entries (Suc n) (Inner nb) mac =
     concat (map (\<lambda>i. case nb (of_nat i) of
         Some t \<Rightarrow> mac_entries n t (mac @ [of_nat i]) | None \<Rightarrow> []) [0..<256])"
| "mac_entries _ _ mac = []"

lemma concat_map_concat:
  "concat (map f (concat (map g xs))) = concat (map (\<lambda>x. concat (map f (g x))) xs)"
  by (induction xs) auto

lemma print_macs_entries:
  "wf_tree (Suc n) t \<Longrightarrow>
   print_macs_recursive n t mac = concat (map (\<lambda>(m, nid). print_mac_line m nid) (mac_entries (Suc n) t mac))"
proof (induction n t mac rule: print_macs_recursive.induct)
  case (1 nb mac)
  have "(case nb (of_nat i) of Some (Leaf nid) \<Rightarrow> print_mac_line (mac @ [of_nat i]) nid | _ \<Rightarrow> []) =
      concat (map (\<lambda>(m, nid). print_mac_line m nid)
        (case nb (of_nat i) of Some t \<Rightarrow> mac_entries 0 t (mac @ [of_nat i]) | None \<Rightarrow> []))" for i
    by (cases "nb (of_nat i)"; cases "the (nb (of_nat i))") auto
  then show ?case by (simp only: print_macs_recursive.simps mac_entries.simps concat_map_concat)
next
  case (2 n nb mac)
  have "(case nb (of_nat i) of Some t \<Rightarrow> print_macs_recursive n t (mac @ [of_nat i]) | None \<Rightarrow> []) =
      concat (map (\<lambda>(m, nid). print_mac_line m nid)
        (case nb (of_nat i) of Some t \<Rightarrow> mac_entries (Suc n) t (mac @ [of_nat i]) | None \<Rightarrow> []))"
    if "i \<in> set [0..<256]" for i
    using "2.IH" [OF that] "2.prems" by (cases "nb (of_nat i)") auto
  then show ?case
    unfolding print_macs_recursive.simps mac_entries.simps concat_map_concat
    by (intro arg_cong [of _ _ concat] map_cong refl)
qed simp_all

lemma mac_entries_iff:
  "wf_tree n t \<Longrightarrow>
   (m, nid) \<in> set (mac_entries n t mac) \<longleftrightarrow> (\<exists>x. m = mac @ x \<and> length x = n \<and> privnet_find_mac t x = Some nid)"
proof (induction n t mac rule: mac_entries.induct)
  case (2 n nb mac)
  have byte: "\<exists>i\<in>set [0..<256]. b = of_nat i" for b :: byte
    using unsigned_less [of b] by (intro bexI [of _ "unat b"]) simp_all
  have "(m, nid) \<in> set (mac_entries (Suc n) (Inner nb) mac) \<longleftrightarrow>
      (\<exists>i\<in>set [0..<256]. \<exists>t. nb (of_nat i) = Some t \<and> (m, nid) \<in> set (mac_entries n t (mac @ [of_nat i])))"
    by (auto split: option.splits) force+
  also have "\<dots> \<longleftrightarrow> (\<exists>i\<in>set [0..<256]. \<exists>t x. nb (of_nat i) = Some t \<and> m = mac @ of_nat i # x \<and> length x = n
      \<and> privnet_find_mac t x = Some nid)"
    using "2.IH" "2.prems" by fastforce
  also have "\<dots> \<longleftrightarrow> (\<exists>b t x. nb b = Some t \<and> m = mac @ b # x \<and> length x = n \<and> privnet_find_mac t x = Some nid)"
    using byte by metis
  also have "\<dots> \<longleftrightarrow> (\<exists>x. m = mac @ x \<and> length x = Suc n \<and> privnet_find_mac (Inner nb) x = Some nid)"
    by (auto simp: length_Suc_conv split: option.splits)
  finally show ?case .
qed auto

lemma print_mac_line_length: "length mac = 6 \<Longrightarrow> 48 \<le> length (print_mac_line mac nid)"
proof -
  assume "length mac = 6"
  moreover have "1 \<le> length (fmt_X n)" for n using fmt_X_nonempty [of n] by (cases "fmt_X n") auto
  from this [of "unat (mr_in nid)"] this [of "unat (mr_out nid)"] calculation show ?thesis
    by (simp add: print_mac_line_def str_def fmt_mac_6)
qed

text \<open>The listing is one line per entry of the table, and nothing bounds its length.\<close>

lemma privnet_print_macs_spec:
  assumes "wf_tree 6 t"
  shows "privnet_print_macs t = concat (map (\<lambda>(m, nid). print_mac_line m nid) (mac_entries 6 t []))"
    and "(m, nid) \<in> set (mac_entries 6 t []) \<longleftrightarrow> trie.table t m = Some nid"
    and "48 * length (mac_entries 6 t []) \<le> length (privnet_print_macs t)"
proof -
  have p: "privnet_print_macs t = concat (map (\<lambda>(m, nid). print_mac_line m nid) (mac_entries 6 t []))"
    using print_macs_entries [of 5 t "[]"] assms by (simp add: privnet_print_macs_def)
  have e: "(m, nid) \<in> set (mac_entries 6 t []) \<longleftrightarrow> trie.table t m = Some nid" for m nid
    using mac_entries_iff [OF assms, of m nid "[]"] by (auto simp: trie.table_def)
  show "privnet_print_macs t = concat (map (\<lambda>(m, nid). print_mac_line m nid) (mac_entries 6 t []))"
    "(m, nid) \<in> set (mac_entries 6 t []) \<longleftrightarrow> trie.table t m = Some nid" by (fact p, fact e)
  have "list_all (\<lambda>(m, nid). length m = 6) (mac_entries 6 t [])"
    using e by (auto simp: list_all_iff trie.table_def split: if_splits)
  then have "48 * length l \<le> length (concat (map (\<lambda>(m, nid). print_mac_line m nid) l))"
    if "set l \<subseteq> set (mac_entries 6 t [])" for l
    using that
  proof (induction l)
    case (Cons e l)
    then show ?case using print_mac_line_length [of "fst e" "snd e"]
      by (cases e) (auto simp: list_all_iff)
  qed simp
  then show "48 * length (mac_entries 6 t []) \<le> length (privnet_print_macs t)" by (simp add: p)
qed

section \<open>Properties and examples\<close>





definition demo_net :: privnet where
  "demo_net = \<lparr>pn_root = alloc_mac_tree_node, pn_delay = 5\<rparr>"

lemma demo_net_inv: "pn_inv (demo_net, demo_drv)"
  using demo_drv_inv trie.empty_wf by (simp add: pn_inv_def demo_net_def)



theorem privnet_crypt_inactive_witness: "privnet_crypt (\<lambda>k b. b) 8 [1, 2] demo_drv = Some ([1, 2], demo_drv)"
  by (rule privnet_crypt_inactive) (simp add: demo_drv_fields)


theorem delay_round_trip_witness:
  "privnet_store AttrDelay (privnet_show AttrDelay demo_net) None (demo_net, demo_drv) =
    Some (int (length (itoa_dec 5)), demo_net, demo_drv)"
  using delay_round_trip [of demo_net None demo_drv] by (simp add: demo_net_def)

end
