(* ===== verification/Privsound.thy ===== *)
theory Privsound
  imports Privnet
begin

text \<open>
  The kernel's private sound channels,
  \<open>host/linux-3.0/drivers/priv_sysfs/privsound/privsound.c\<close>: per virtual machine a ring
  buffer of encrypted playback data (written through sysfs, decrypted frame by frame and mixed
  into the hardware buffer) and a ring of captured data (encrypted frame by frame as it is
  taken from the hardware, read through sysfs). Ring pointers are naturals below the ring
  size; intermediate amounts are integers, as in the C code, and a copy of a negative or too
  large amount is the fault \<open>None\<close>. The theory abstracts a ring to the list of bytes it
  holds, and shows that writing appends, reading removes a prefix, and that no copy leaves
  its buffer.
\<close>

section \<open>Data\<close>

abbreviation (input) PSND_IBUF_SIZE :: nat where "PSND_IBUF_SIZE \<equiv> 6400"
abbreviation (input) PSND_OBUF_SIZE :: nat where "PSND_OBUF_SIZE \<equiv> 64000"

record psnd_buf =
  ps_addr :: addr
  ps_ibuffer :: bytes
  ps_obuffer :: bytes
  ps_out_ctx :: u32
  ps_in_ctx :: u32
  ps_owptr :: nat
  ps_ofptr :: nat
  ps_iwptr :: nat
  ps_ifptr :: nat
  ps_input_enabled :: bool

record privsound =
  pv_list :: "psnd_buf list"
  pv_dma :: "bytes option"

definition ps_in_ref :: "psnd_buf \<Rightarrow> addr" where "ps_in_ref b = 2 * ps_addr b"
definition ps_out_ref :: "psnd_buf \<Rightarrow> addr" where "ps_out_ref b = 2 * ps_addr b + 1"

lemma ps_ref_update [simp]:
  "ps_in_ref (b\<lparr>ps_ibuffer := x\<rparr>) = ps_in_ref b" "ps_in_ref (b\<lparr>ps_iwptr := p\<rparr>) = ps_in_ref b"
  "ps_in_ref (b\<lparr>ps_ifptr := p\<rparr>) = ps_in_ref b" "ps_in_ref (b\<lparr>ps_obuffer := x\<rparr>) = ps_in_ref b"
  "ps_in_ref (b\<lparr>ps_owptr := p\<rparr>) = ps_in_ref b" "ps_in_ref (b\<lparr>ps_ofptr := p\<rparr>) = ps_in_ref b"
  "ps_out_ref (b\<lparr>ps_ibuffer := x\<rparr>) = ps_out_ref b" "ps_out_ref (b\<lparr>ps_iwptr := p\<rparr>) = ps_out_ref b"
  "ps_out_ref (b\<lparr>ps_ifptr := p\<rparr>) = ps_out_ref b" "ps_out_ref (b\<lparr>ps_obuffer := x\<rparr>) = ps_out_ref b"
  "ps_out_ref (b\<lparr>ps_owptr := p\<rparr>) = ps_out_ref b" "ps_out_ref (b\<lparr>ps_ofptr := p\<rparr>) = ps_out_ref b"
  by (simp_all add: ps_in_ref_def ps_out_ref_def)

definition set_DMA_buffer_address :: "bytes \<Rightarrow> privsound \<Rightarrow> privsound" where
  "set_DMA_buffer_address dmabuf p = p\<lparr>pv_dma := Some dmabuf\<rparr>"

section \<open>Claiming the contexts of a channel\<close>

definition setup_cctx_refs :: "psnd_buf \<Rightarrow> u32 \<Rightarrow> u32 \<Rightarrow> drv \<Rightarrow> (int \<times> psnd_buf \<times> drv) option" where
  "setup_cctx_refs b i_in i_out d =
     (let b = b\<lparr>ps_in_ctx := i_in, ps_out_ctx := i_out\<rparr>;
          d = cctx_ref_init (ps_in_ref b) d
      in do {
        (rc, d) \<leftarrow> use_ctx i_in (Some (ps_in_ref b)) d;
        if rc < 0 then Some (- 1, b, d)
        else do {
          let d = cctx_ref_init (ps_out_ref b) d;
          (rc, d) \<leftarrow> use_ctx i_out (Some (ps_out_ref b)) d;
          if rc < 0 then do { d \<leftarrow> unuse_ctx (Some (ps_in_ref b)) d; Some (- 1, b, d) }
          else Some (0, b, d) } })"

definition unuse_cctx_refs :: "psnd_buf \<Rightarrow> drv \<Rightarrow> drv option" where
  "unuse_cctx_refs b d = do {
     d \<leftarrow> unuse_ctx (Some (ps_out_ref b)) d;
     unuse_ctx (Some (ps_in_ref b)) d }"

primrec find_psnd_buf :: "u32 \<Rightarrow> psnd_buf list \<Rightarrow> psnd_buf option" where
  "find_psnd_buf ctx [] = None"
| "find_psnd_buf ctx (b # l) = (if ps_in_ctx b = ctx \<or> ps_out_ctx b = ctx then Some b else find_psnd_buf ctx l)"

definition privsound_crypt :: "aes_fn \<Rightarrow> addr \<Rightarrow> bytes \<Rightarrow> drv \<Rightarrow> (bytes \<times> drv) option" where
  "privsound_crypt aes r data d =
     (if data = [] then Some (data, d)
      else case dv_refs d r of
        None \<Rightarrow> Some (data, d)
      | Some a \<Rightarrow> do {
          c \<leftarrow> dv_heap d a;
          let (rc, c', out) = priv_crypt aes (Some c) data;
          if rc < 0 then Some (data, d)
          else do { c' \<leftarrow> c'; Some (out, put_ctx a c' d) } })"

section \<open>Capture\<close>

text \<open>\<open>memcpy\<close> into a buffer at an offset, with the amount as the C code computes it.\<close>

definition memcpy_to :: "bytes \<Rightarrow> nat \<Rightarrow> bytes \<Rightarrow> int \<Rightarrow> bytes option" where
  "memcpy_to dst off src n =
     (if n < 0 \<or> nat n > length src \<or> off + nat n > length dst then None
      else Some (mem_write dst off (take (nat n) src)))"

text \<open>The inner loop: one call to \<open>privsound_crypt\<close> per four bytes, in place.\<close>

primrec crypt_frames ::
  "aes_fn \<Rightarrow> addr \<Rightarrow> nat \<Rightarrow> bytes \<Rightarrow> nat \<Rightarrow> drv \<Rightarrow> (bytes \<times> drv) option" where
  "crypt_frames aes r 0 buf off d = Some (buf, d)"
| "crypt_frames aes r (Suc k) buf off d = do {
     (out, d) \<leftarrow> privsound_crypt aes r (mem_read buf off 4) d;
     crypt_frames aes r k (mem_write buf off out) (off + 4) d }"

definition encrypt_input_buf ::
  "aes_fn \<Rightarrow> bytes \<Rightarrow> psnd_buf \<Rightarrow> drv \<Rightarrow> (psnd_buf \<times> drv) option" where
  "encrypt_input_buf aes data b d =
     (if \<not> ps_input_enabled b then Some (b, d)
      else
        let wp = int (ps_iwptr b); fp = int (ps_ifptr b); len = int (length data) in
        if wp < fp then
          let avail = min (fp - wp - 4) len;
              avail = avail - avail mod 4
          in if avail \<le> 0 then Some (b, d)
             else do {
               buf \<leftarrow> memcpy_to (ps_ibuffer b) (nat wp) data avail;
               (buf, d) \<leftarrow> crypt_frames aes (ps_in_ref b) (nat avail div 4) buf (nat wp) d;
               Some (b\<lparr>ps_ibuffer := buf, ps_iwptr := (ps_iwptr b + nat avail) mod PSND_IBUF_SIZE\<rparr>, d) }
        else
          let avail1 = int PSND_IBUF_SIZE - wp;
              avail = min (avail1 + fp - 4) len;
              avail = avail - avail mod 4;
              avail2 = (if avail1 > avail then 0 else avail - avail1);
              avail1 = (if avail1 > avail then avail else avail1)
          in if avail1 \<le> 0 then Some (b, d)
             else do {
               buf \<leftarrow> memcpy_to (ps_ibuffer b) (nat wp) data avail1;
               (buf, d) \<leftarrow> crypt_frames aes (ps_in_ref b) (nat (avail1 + 3) div 4) buf (nat wp) d;
               let wp' = (ps_iwptr b + nat avail1) mod PSND_IBUF_SIZE;
               let b = b\<lparr>ps_ibuffer := buf, ps_iwptr := wp'\<rparr>;
               if avail2 \<le> 0 then Some (b, d)
               else do {
                 buf \<leftarrow> memcpy_to (ps_ibuffer b) wp' data avail2;
                 (buf, d) \<leftarrow> crypt_frames aes (ps_in_ref b) (nat (avail2 + 3) div 4) buf wp' d;
                 Some (b\<lparr>ps_ibuffer := buf, ps_iwptr := (wp' + nat avail2) mod PSND_IBUF_SIZE\<rparr>, d) } })"

primrec encrypt_input_list ::
  "aes_fn \<Rightarrow> bytes \<Rightarrow> psnd_buf list \<Rightarrow> drv \<Rightarrow> (psnd_buf list \<times> drv) option" where
  "encrypt_input_list aes data [] d = Some ([], d)"
| "encrypt_input_list aes data (b # l) d = do {
     (b, d) \<leftarrow> encrypt_input_buf aes data b d;
     (l, d) \<leftarrow> encrypt_input_list aes data l d;
     Some (b # l, d) }"

text \<open>The result includes the hardware buffer, which is cleared.\<close>

definition privsound_encrypt_input ::
  "aes_fn \<Rightarrow> bytes \<Rightarrow> privsound \<times> drv \<Rightarrow> (bytes \<times> privsound \<times> drv) option" where
  "privsound_encrypt_input aes data st = do {
     (l, d) \<leftarrow> encrypt_input_list aes data (pv_list (fst st)) (snd st);
     Some (replicate (length data) 0, (fst st)\<lparr>pv_list := l\<rparr>, d) }"

definition bin_read :: "nat \<Rightarrow> psnd_buf \<Rightarrow> bytes \<times> psnd_buf" where
  "bin_read count b =
     (let wp = ps_iwptr b; fp = ps_ifptr b;
          avail1 = (if fp \<le> wp then wp - fp else PSND_IBUF_SIZE - fp);
          avail2 = (if fp \<le> wp then 0 else wp);
          avail1 = min avail1 count;
          out1 = mem_read (ps_ibuffer b) fp avail1;
          count = count - avail1;
          fp = (ps_ifptr b + avail1) mod PSND_IBUF_SIZE;
          avail2 = min avail2 count;
          out2 = (if 0 < avail2 then mem_read (ps_ibuffer b) fp avail2 else [])
      in (out1 @ out2, b\<lparr>ps_ifptr := fp + avail2\<rparr>))"

section \<open>Playback\<close>

definition privsound_write_to_buf :: "bytes \<Rightarrow> psnd_buf \<Rightarrow> (int \<times> psnd_buf) option" where
  "privsound_write_to_buf buffer b =
     (let fp = int (ps_ofptr b); wp = int (ps_owptr b); sz = int (length buffer) in
      if wp < fp then
        let avail1 = min (fp - wp - 4) sz
        in do {
          ob \<leftarrow> memcpy_to (ps_obuffer b) (nat wp) buffer avail1;
          Some (avail1, b\<lparr>ps_obuffer := ob, ps_owptr := (ps_owptr b + nat avail1) mod PSND_OBUF_SIZE\<rparr>) }
      else
        let avail1 = int PSND_OBUF_SIZE - wp;
            avail2 = fp;
            avail = min (avail1 + avail2 - 4) sz;
            avail1 = min avail1 avail
        in do {
          ob \<leftarrow> memcpy_to (ps_obuffer b) (nat wp) buffer avail1;
          let b = b\<lparr>ps_obuffer := ob, ps_owptr := (ps_owptr b + nat avail1) mod PSND_OBUF_SIZE\<rparr>;
          let avail2 = avail - avail1;
          if 0 < avail2 then do {
            ob \<leftarrow> memcpy_to (ps_obuffer b) 0 (drop (nat avail1) buffer) avail2;
            Some (avail1 + avail2, b\<lparr>ps_obuffer := ob, ps_owptr := ps_owptr b + nat avail2\<rparr>) }
          else Some (avail1 + avail2, b) })"

definition bin_get_out_avail :: "psnd_buf \<Rightarrow> int" where
  "bin_get_out_avail b =
     (let sz = (if ps_ofptr b \<le> ps_owptr b then int PSND_OBUF_SIZE - int (ps_owptr b) + int (ps_ofptr b)
                else int (ps_ofptr b) - int (ps_owptr b)) - 4
      in if sz < 0 then - (- sz div 4) else sz div 4)"

text \<open>Little-endian 16-bit samples, added with wrap-around.\<close>

definition get16 :: "bytes \<Rightarrow> nat \<Rightarrow> 16 word" where
  "get16 buf off = ucast (buf ! off) OR push_bit 8 (ucast (buf ! (off + 1)))"

definition put16 :: "bytes \<Rightarrow> nat \<Rightarrow> 16 word \<Rightarrow> bytes" where
  "put16 buf off w = mem_write buf off [ucast w, ucast (drop_bit 8 w)]"

definition mix_frame :: "nat \<Rightarrow> bytes \<Rightarrow> nat \<Rightarrow> bytes \<Rightarrow> nat \<Rightarrow> bytes" where
  "mix_frame frame_size hw off ob fp =
     (let hw = put16 hw off (get16 hw off + get16 ob fp)
      in put16 hw (off + frame_size div 2)
           (get16 hw (off + frame_size div 2) + get16 ob (fp + frame_size div 2)))"

primrec buf_to_hw_loop ::
  "aes_fn \<Rightarrow> nat \<Rightarrow> nat \<Rightarrow> bytes \<Rightarrow> nat \<Rightarrow> psnd_buf \<Rightarrow> drv \<Rightarrow> (bytes \<times> psnd_buf \<times> drv) option" where
  "buf_to_hw_loop aes frame_size 0 hw off b d = Some (hw, b, d)"
| "buf_to_hw_loop aes frame_size (Suc k) hw off b d = do {
     (out, d) \<leftarrow> privsound_crypt aes (ps_out_ref b) (mem_read (ps_obuffer b) (ps_ofptr b) 4) d;
     let ob = mem_write (ps_obuffer b) (ps_ofptr b) out;
     let hw = mix_frame frame_size hw off ob (ps_ofptr b);
     let ob = mem_set ob (ps_ofptr b) 0 4;
     let fp = ps_ofptr b + frame_size;
     let fp = (if PSND_OBUF_SIZE \<le> fp then fp - PSND_OBUF_SIZE else fp);
     buf_to_hw_loop aes frame_size k hw (off + frame_size) (b\<lparr>ps_obuffer := ob, ps_ofptr := fp\<rparr>) d }"

primrec buf_to_hw_list ::
  "aes_fn \<Rightarrow> nat \<Rightarrow> nat \<Rightarrow> bytes \<Rightarrow> psnd_buf list \<Rightarrow> drv \<Rightarrow> (bytes \<times> psnd_buf list \<times> drv) option" where
  "buf_to_hw_list aes frame_size frames hw [] d = Some (hw, [], d)"
| "buf_to_hw_list aes frame_size frames hw (b # l) d = (
     let wp = ps_owptr b; fp = ps_ofptr b;
         num = (if fp \<le> wp then wp - fp else PSND_OBUF_SIZE - fp + wp);
         frms = min frames (num div frame_size)
     in do {
       (hw, b, d) \<leftarrow> buf_to_hw_loop aes frame_size frms hw 0 b d;
       (hw, l, d) \<leftarrow> buf_to_hw_list aes frame_size frames hw l d;
       Some (hw, b # l, d) })"

definition privsound_buf_to_hw ::
  "aes_fn \<Rightarrow> nat \<Rightarrow> nat \<Rightarrow> bytes \<Rightarrow> privsound \<times> drv \<Rightarrow> (bytes \<times> privsound \<times> drv) option" where
  "privsound_buf_to_hw aes frame_size frames hw st =
     (if frames = 0 then Some (hw, st)
      else do {
        (hw, l, d) \<leftarrow> buf_to_hw_list aes frame_size frames hw (pv_list (fst st)) (snd st);
        Some (hw, (fst st)\<lparr>pv_list := l\<rparr>, d) })"

section \<open>Creating and removing channels\<close>

text \<open>\<open>mem\<close> is the uninitialised block \<open>kmalloc\<close> returns.\<close>

definition privsound_create_psnd_buf ::
  "psnd_buf option \<Rightarrow> u32 \<Rightarrow> u32 \<Rightarrow> privsound \<times> drv \<Rightarrow> (int \<times> privsound \<times> drv) option" where
  "privsound_create_psnd_buf mem i_in i_out st =
     (let (p, d) = st in
      case mem of
        None \<Rightarrow> Some (- ENOMEM, p, d)
      | Some b \<Rightarrow>
          let b = b\<lparr>ps_iwptr := 0, ps_ifptr := 0, ps_owptr := 0, ps_ofptr := 0, ps_input_enabled := False\<rparr>
          in do {
            (rc, b, d) \<leftarrow> setup_cctx_refs b i_in i_out d;
            if rc < 0 then Some (rc, p, d\<lparr>dv_refs := (dv_refs d)(ps_in_ref b := None, ps_out_ref b := None)\<rparr>)
            else Some (rc, p\<lparr>pv_list := b # pv_list p\<rparr>, d) })"

text \<open>The first component is the image of the freed block.\<close>

definition privsound_free_psnd_buf :: "psnd_buf \<Rightarrow> drv \<Rightarrow> (psnd_buf \<times> drv) option" where
  "privsound_free_psnd_buf b d = do {
     let b = b\<lparr>ps_obuffer := mem_set (ps_obuffer b) 0 0 PSND_OBUF_SIZE,
               ps_ibuffer := mem_set (ps_ibuffer b) 0 0 PSND_IBUF_SIZE\<rparr>;
     d \<leftarrow> unuse_cctx_refs b d;
     Some (b, d\<lparr>dv_refs := (dv_refs d)(ps_in_ref b := None, ps_out_ref b := None)\<rparr>) }"

definition privsound_remove_psnd_buf :: "psnd_buf option \<Rightarrow> privsound \<times> drv \<Rightarrow> (privsound \<times> drv) option" where
  "privsound_remove_psnd_buf b st =
     (case b of
        None \<Rightarrow> Some st
      | Some b \<Rightarrow> do {
          (img, d) \<leftarrow> privsound_free_psnd_buf b (snd st);
          Some ((fst st)\<lparr>pv_list := filter (\<lambda>x. ps_addr x \<noteq> ps_addr b) (pv_list (fst st)),
            pv_dma := map_option (\<lambda>m. replicate (length m) 0) (pv_dma (fst st))\<rparr>, d) })"

datatype privsound_attr = PsRegister | PsRemove | PsShowPointers | PsEnableInput | PsDisableInput

definition hex2int :: "byte \<Rightarrow> int" where
  "hex2int c =
     (if 48 \<le> c \<and> c \<le> 57 then uint c - 48
      else if 97 \<le> c \<and> c \<le> 102 then uint c - 97 + 10
      else if 65 \<le> c \<and> c \<le> 70 then uint c - 65 + 10
      else - 1)"

fun parse_id :: "u32 \<Rightarrow> bytes \<Rightarrow> u32 \<times> bytes" where
  "parse_id acc [] = (acc, [])"
| "parse_id acc (c # cs) =
     (if 0 \<le> hex2int c then parse_id (push_bit 4 acc + word_of_int (hex2int c)) cs else (acc, c # cs))"

definition set_enabled :: "bool \<Rightarrow> u32 \<Rightarrow> psnd_buf list \<Rightarrow> psnd_buf list" where
  "set_enabled e ctx l =
     (case find_psnd_buf ctx l of
        None \<Rightarrow> l
      | Some b \<Rightarrow> map (\<lambda>x. if ps_addr x = ps_addr b then x\<lparr>ps_input_enabled := e\<rparr> else x) l)"

definition privsound_store ::
  "privsound_attr \<Rightarrow> bytes \<Rightarrow> psnd_buf option \<Rightarrow> privsound \<times> drv \<Rightarrow> (int \<times> privsound \<times> drv) option" where
  "privsound_store attr buffer mem st =
     (let sz = int (length buffer);
          (ctx, rest) = parse_id 0 buffer;
          l = pv_list (fst st)
      in case attr of
        PsRegister \<Rightarrow>
          let (out, rest') = parse_id 0 (tl rest)
          in if find_psnd_buf out l = None \<and> find_psnd_buf ctx l = None
             then do {
               (rc, st) \<leftarrow> privsound_create_psnd_buf mem ctx out st;
               Some (if rc < 0 then rc else sz, st) }
             else Some (- EBUSY, st)
      | PsRemove \<Rightarrow> do {
          st \<leftarrow> privsound_remove_psnd_buf (find_psnd_buf ctx l) st;
          Some (sz, st) }
      | PsEnableInput \<Rightarrow> Some (sz, (fst st)\<lparr>pv_list := set_enabled True ctx l\<rparr>, snd st)
      | PsDisableInput \<Rightarrow> Some (sz, (fst st)\<lparr>pv_list := set_enabled False ctx l\<rparr>, snd st)
      | PsShowPointers \<Rightarrow> Some (0, st))"

primrec privsound_exit_loop :: "psnd_buf list \<Rightarrow> drv \<Rightarrow> drv option" where
  "privsound_exit_loop [] d = Some d"
| "privsound_exit_loop (b # l) d = do {
     (img, d) \<leftarrow> privsound_free_psnd_buf b d;
     privsound_exit_loop l d }"

section \<open>A ring as a queue of bytes\<close>

definition ring_used :: "nat \<Rightarrow> nat \<Rightarrow> nat \<Rightarrow> nat" where
  "ring_used N fp wp = (if fp \<le> wp then wp - fp else N - fp + wp)"

definition ring_bytes :: "nat \<Rightarrow> bytes \<Rightarrow> nat \<Rightarrow> nat \<Rightarrow> bytes" where
  "ring_bytes N buf fp wp =
     (if fp \<le> wp then take (wp - fp) (drop fp buf) else drop fp buf @ take wp buf)"

text \<open>Pointers are in range and four bytes are always kept free.\<close>

definition ring_ok :: "nat \<Rightarrow> bytes \<Rightarrow> nat \<Rightarrow> nat \<Rightarrow> bool" where
  "ring_ok N buf fp wp \<longleftrightarrow> length buf = N \<and> fp < N \<and> wp < N \<and> ring_used N fp wp + 4 \<le> N"

lemma length_ring_bytes [simp]: "ring_ok N buf fp wp \<Longrightarrow> length (ring_bytes N buf fp wp) = ring_used N fp wp"
  by (auto simp: ring_ok_def ring_bytes_def ring_used_def)

definition ring_put :: "nat \<Rightarrow> bytes \<Rightarrow> nat \<Rightarrow> bytes \<Rightarrow> bytes" where
  "ring_put N buf wp d =
     (if wp + length d \<le> N then mem_write buf wp d
      else mem_write (mem_write buf wp (take (N - wp) d)) 0 (drop (N - wp) d))"

lemma ring_put_used:
  assumes "ring_ok N buf fp wp" "ring_used N fp wp + n + 4 \<le> N"
  shows "ring_used N fp ((wp + n) mod N) = ring_used N fp wp + n"
proof (cases "wp + n < N")
  case True
  then show ?thesis using assms by (auto simp: ring_ok_def ring_used_def)
next
  case False
  then have "(wp + n) mod N = wp + n - N" using assms by (auto simp: ring_ok_def le_mod_geq ring_used_def split: if_splits)
  then show ?thesis using assms False by (auto simp: ring_ok_def ring_used_def split: if_splits)
qed

lemma length_ring_put:
  assumes "length buf = N" "wp < N" "length d \<le> N"
  shows "length (ring_put N buf wp d) = N"
  using assms by (auto simp: ring_put_def mem_write_def)

lemma ring_put_bytes:
  assumes ok: "ring_ok N buf fp wp" and room: "ring_used N fp wp + length d + 4 \<le> N"
  shows "ring_bytes N (ring_put N buf wp d) fp ((wp + length d) mod N) = ring_bytes N buf fp wp @ d"
proof -
  have r: "length buf = N" "fp < N" "wp < N" using ok by (simp_all add: ring_ok_def)
  consider (before) "wp < fp" | (inside) "fp \<le> wp" "wp + length d < N"
    | (edge) "fp \<le> wp" "wp + length d = N" | (wrap) "fp \<le> wp" "N < wp + length d" by linarith
  then show ?thesis
  proof cases
    case before
    then have "wp + length d < fp" using room r by (simp add: ring_used_def)
    then show ?thesis using before r by (simp add: ring_put_def ring_bytes_def mem_write_def)
  next
    case inside
    then show ?thesis using r by (simp add: ring_put_def ring_bytes_def mem_write_def drop_take)
  next
    case edge
    then have "0 < fp" using room by (simp add: ring_used_def)
    then show ?thesis using edge r by (simp add: ring_put_def ring_bytes_def mem_write_def drop_take)
  next
    case wrap
    then have m: "(wp + length d) mod N = wp + length d - N" "wp + length d - N < fp"
      using room r by (simp_all add: ring_used_def le_mod_geq)
    have e: "length d - (N - wp) = wp + length d - N" using r by simp
    show ?thesis
      using wrap r m by (simp add: ring_put_def ring_bytes_def mem_write_def e drop_take)
  qed
qed

text \<open>What a write does to the whole ring.\<close>

lemma ring_put_ok:
  assumes ok: "ring_ok N buf fp wp" and room: "ring_used N fp wp + length d + 4 \<le> N"
  shows "ring_ok N (ring_put N buf wp d) fp ((wp + length d) mod N)"
  using ok room ring_put_used [OF ok room] length_ring_put [of buf N wp d] by (simp add: ring_ok_def)

lemma ring_take:
  assumes ok: "ring_ok N buf fp wp" and n: "n \<le> ring_used N fp wp"
  shows "ring_bytes N buf ((fp + n) mod N) wp = drop n (ring_bytes N buf fp wp)"
    and "ring_ok N buf ((fp + n) mod N) wp"
    and "ring_used N ((fp + n) mod N) wp = ring_used N fp wp - n"
proof -
  have r: "length buf = N" "fp < N" "wp < N" using ok by (simp_all add: ring_ok_def)
  consider (flat) "fp \<le> wp" "fp + n \<le> wp" | (inside) "wp < fp" "fp + n < N" | (wrap) "wp < fp" "N \<le> fp + n"
    using n by (auto simp: ring_used_def split: if_splits) linarith
  note cases = this
  show u: "ring_used N ((fp + n) mod N) wp = ring_used N fp wp - n"
    using cases by cases (use r n in \<open>auto simp: ring_used_def le_mod_geq\<close>)
  show "ring_bytes N buf ((fp + n) mod N) wp = drop n (ring_bytes N buf fp wp)"
    using cases by cases (use r n in \<open>auto simp: ring_bytes_def ring_used_def le_mod_geq drop_take add.commute\<close>)
  show "ring_ok N buf ((fp + n) mod N) wp" using ok u r by (simp add: ring_ok_def)
qed

section \<open>Playback: what is written is queued\<close>

definition out_ok :: "psnd_buf \<Rightarrow> bool" where
  "out_ok b \<longleftrightarrow> ring_ok PSND_OBUF_SIZE (ps_obuffer b) (ps_ofptr b) (ps_owptr b)"

definition out_queue :: "psnd_buf \<Rightarrow> bytes" where
  "out_queue b = ring_bytes PSND_OBUF_SIZE (ps_obuffer b) (ps_ofptr b) (ps_owptr b)"

lemma memcpy_to_ok:
  "0 \<le> n \<Longrightarrow> nat n \<le> length src \<Longrightarrow> off + nat n \<le> length dst \<Longrightarrow>
   memcpy_to dst off src n = Some (mem_write dst off (take (nat n) src))"
  by (simp add: memcpy_to_def)

text \<open>The write routine is \<open>ring_put\<close> of as much as there is room for.\<close>

lemma privsound_write_to_buf_put:
  fixes buffer :: bytes
  assumes ok: "out_ok b"
  defines "n \<equiv> min (length buffer) (PSND_OBUF_SIZE - 4 - ring_used PSND_OBUF_SIZE (ps_ofptr b) (ps_owptr b))"
  shows "privsound_write_to_buf buffer b =
    Some (int n, b\<lparr>ps_obuffer := ring_put PSND_OBUF_SIZE (ps_obuffer b) (ps_owptr b) (take n buffer),
      ps_owptr := (ps_owptr b + n) mod PSND_OBUF_SIZE\<rparr>)"
proof -
  have r: "length (ps_obuffer b) = 64000" "ps_ofptr b < 64000" "ps_owptr b < 64000"
    "ring_used 64000 (ps_ofptr b) (ps_owptr b) + 4 \<le> 64000"
    using ok by (simp_all add: out_ok_def ring_ok_def)
  show ?thesis
  proof (cases "int (ps_owptr b) < int (ps_ofptr b)")
    case True
    then have a: "min (int (ps_ofptr b) - int (ps_owptr b) - 4) (int (length buffer)) = int n"
      using r by (auto simp: n_def ring_used_def)
    have n: "ps_owptr b + n \<le> 64000" "n \<le> length buffer" using True r by (auto simp: n_def ring_used_def)
    show ?thesis
      unfolding privsound_write_to_buf_def Let_def if_P [OF True] a
      using n r by (simp add: memcpy_to_ok ring_put_def)
  next
    case False
    have a: "min (int 64000 - int (ps_owptr b) + int (ps_ofptr b) - 4) (int (length buffer)) = int n"
      using False r by (auto simp: n_def ring_used_def)
    have nl: "n \<le> length buffer" "n \<le> 64000" by (auto simp: n_def)
    show ?thesis
    proof (cases "ps_owptr b + n \<le> 64000")
      case fit: True
      then have a1: "min (int 64000 - int (ps_owptr b)) (int n) = int n" by simp
      show ?thesis
        unfolding privsound_write_to_buf_def Let_def if_not_P [OF False] a a1
        using fit nl r by (simp add: memcpy_to_ok ring_put_def)
    next
      case wrap: False
      define k where "k = 64000 - ps_owptr b"
      have a1: "min (int 64000 - int (ps_owptr b)) (int n) = int k" and k: "k < n" "k \<le> length buffer"
        "(ps_owptr b + k) mod 64000 = 0" "ps_owptr b + k = 64000"
        using wrap r nl by (auto simp: k_def)
      have m: "(ps_owptr b + n) mod 64000 = n - k" using k r nl by (simp add: k_def le_mod_geq)
      have t: "take (n - k) (drop k buffer) = drop k (take n buffer)" "take k (take n buffer) = take k buffer"
        using k by (simp_all add: drop_take min_def)
      have d: "int n - int k = int (n - k)" using k by simp
      have c1: "memcpy_to (ps_obuffer b) (ps_owptr b) buffer (int k) =
          Some (mem_write (ps_obuffer b) (ps_owptr b) (take k buffer))"
        using k r by (simp add: memcpy_to_ok)
      have c2: "memcpy_to (mem_write (ps_obuffer b) (ps_owptr b) (take k buffer)) 0 (drop k buffer) (int (n - k)) =
          Some (mem_write (mem_write (ps_obuffer b) (ps_owptr b) (take k buffer)) 0 (take (n - k) (drop k buffer)))"
        unfolding memcpy_to_def nat_int using k r nl by (simp add: not_less le_diff_conv)
      have put: "ring_put 64000 (ps_obuffer b) (ps_owptr b) (take n buffer) =
          mem_write (mem_write (ps_obuffer b) (ps_owptr b) (take k buffer)) 0 (drop k (take n buffer))"
        using wrap nl t(2) by (simp add: ring_put_def k_def)
      show ?thesis
        unfolding privsound_write_to_buf_def Let_def if_not_P [OF False] a a1 nat_int c1 d put m
        using k c2 by (simp add: t)
    qed
  qed
qed

text \<open>
  C21. Playback data written through sysfs is queued: the write returns how many bytes it took,
  which is all of them or what the ring has room for, appends exactly those bytes to the
  queue, and never leaves the ring.
\<close>

lemma privsound_write_to_buf_queue:
  assumes ok: "out_ok b"
  shows "\<exists>n b'. privsound_write_to_buf buffer b = Some (int n, b')
    \<and> n = min (length buffer) (PSND_OBUF_SIZE - 4 - length (out_queue b))
    \<and> out_ok b' \<and> out_queue b' = out_queue b @ take n buffer"
proof -
  let ?N = "64000 :: nat"
  define n where "n = min (length buffer) (?N - 4 - ring_used ?N (ps_ofptr b) (ps_owptr b))"
  have rok: "ring_ok ?N (ps_obuffer b) (ps_ofptr b) (ps_owptr b)" using ok by (simp add: out_ok_def)
  have room: "ring_used ?N (ps_ofptr b) (ps_owptr b) + length (take n buffer) + 4 \<le> ?N"
    using rok by (auto simp: ring_ok_def n_def)
  have n: "length (take n buffer) = n" by (simp add: n_def)
  show ?thesis
    using privsound_write_to_buf_put [OF ok, of buffer] ring_put_ok [OF rok room] ring_put_bytes [OF rok room] rok
    unfolding n by (auto simp: out_ok_def out_queue_def n_def)
qed

section \<open>Capture: what is read leaves the queue\<close>

definition in_ok :: "psnd_buf \<Rightarrow> bool" where
  "in_ok b \<longleftrightarrow> ring_ok PSND_IBUF_SIZE (ps_ibuffer b) (ps_ifptr b) (ps_iwptr b) \<and> 4 dvd ps_iwptr b"

definition in_queue :: "psnd_buf \<Rightarrow> bytes" where
  "in_queue b = ring_bytes PSND_IBUF_SIZE (ps_ibuffer b) (ps_ifptr b) (ps_iwptr b)"

lemma bin_read_queue:
  assumes ok: "in_ok b"
  shows "fst (bin_read count b) = take count (in_queue b)"
    and "in_queue (snd (bin_read count b)) = drop count (in_queue b)"
    and "in_ok (snd (bin_read count b))"
proof -
  let ?N = "6400 :: nat" and ?u = "ring_used 6400 (ps_ifptr b) (ps_iwptr b)"
  have rok: "ring_ok ?N (ps_ibuffer b) (ps_ifptr b) (ps_iwptr b)" using ok by (simp add: in_ok_def)
  have r: "length (ps_ibuffer b) = 6400" "ps_ifptr b < 6400" "ps_iwptr b < 6400"
    using rok by (simp_all add: ring_ok_def)
  have "snd (bin_read count b) = b\<lparr>ps_ifptr := (ps_ifptr b + min count ?u) mod ?N\<rparr>
      \<and> fst (bin_read count b) = take count (in_queue b)"
  proof (cases "ps_ifptr b \<le> ps_iwptr b")
    case True
    then show ?thesis
      by (simp add: bin_read_def Let_def ring_used_def in_queue_def ring_bytes_def mem_read_def min.commute)
  next
    case False
    show ?thesis
    proof (cases "count \<le> 6400 - ps_ifptr b")
      case le: True
      then have "min count ?u = count" "min (6400 - ps_ifptr b) count = count"
        using False by (simp_all add: ring_used_def)
      then show ?thesis
        using False le r by (simp add: bin_read_def Let_def in_queue_def ring_bytes_def mem_read_def)
    next
      case gt: False
      define k where "k = min (ps_iwptr b) (count - (6400 - ps_ifptr b))"
      have e: "min (6400 - ps_ifptr b) count = 6400 - ps_ifptr b" "(ps_ifptr b + (6400 - ps_ifptr b)) mod 6400 = 0"
        using gt r by simp_all
      have "ps_ifptr b + min count ?u = 6400 + k" "k < 6400"
        using False gt r by (auto simp: ring_used_def k_def)
      then have m: "(ps_ifptr b + min count ?u) mod ?N = k" by simp
      have "bin_read count b = (mem_read (ps_ibuffer b) (ps_ifptr b) (6400 - ps_ifptr b)
          @ (if 0 < k then mem_read (ps_ibuffer b) 0 k else []), b\<lparr>ps_ifptr := 0 + k\<rparr>)"
        unfolding bin_read_def Let_def if_not_P [OF False] e k_def ..
      then show ?thesis
        unfolding m using False gt r
        by (simp add: mem_read_def in_queue_def ring_bytes_def k_def min.commute)
    qed
  qed
  then have ptr: "snd (bin_read count b) = b\<lparr>ps_ifptr := (ps_ifptr b + min count ?u) mod ?N\<rparr>"
    and "fst (bin_read count b) = take count (in_queue b)" by simp_all
  then show "fst (bin_read count b) = take count (in_queue b)" by simp
  have "min count ?u \<le> ?u" by simp
  note t = ring_take [OF rok this]
  show "in_queue (snd (bin_read count b)) = drop count (in_queue b)"
    using t(1) rok by (auto simp: ptr in_queue_def min_def)
  show "in_ok (snd (bin_read count b))" using t(2) ok by (simp add: ptr in_ok_def)
qed

section \<open>Capture: what is recorded is queued, encrypted frame by frame\<close>

text \<open>Each frame of four bytes is a message of its own, so it consumes one counter value.\<close>

primrec frames_out :: "block_cipher \<Rightarrow> bytes \<Rightarrow> nat \<Rightarrow> bytes \<Rightarrow> bytes" where
  "frames_out E v 0 data = []"
| "frames_out E v (Suc k) data = ctr_out E v (take 4 data) @ frames_out E (be_inc v) k (drop 4 data)"

lemma length_frames_out [simp]: "4 * k \<le> length data \<Longrightarrow> length (frames_out E v k data) = 4 * k"
  by (induction k arbitrary: v data) auto

lemma frames_out_append:
  "length xs = 4 * j \<Longrightarrow>
   frames_out E v (j + k) (xs @ ys) = frames_out E v j xs @ frames_out E ((be_inc ^^ j) v) k ys"
  by (induction j arbitrary: v xs) (simp_all add: funpow_swap1)

lemma frames_out_involutive:
  "length data = 4 * k \<Longrightarrow> frames_out E v k (frames_out E v k data) = data"
proof (induction k arbitrary: v data)
  case (Suc k)
  then have "length (ctr_out E v (take 4 data)) = 4" by simp
  then show ?case using Suc by simp
qed simp

text \<open>The client's view of a reference: it holds a context that is activated.\<close>

definition ref_live :: "drv \<Rightarrow> addr \<Rightarrow> priv_crypt_ctx \<Rightarrow> bool" where
  "ref_live d r c \<longleftrightarrow> (\<exists>a. dv_refs d r = Some a \<and> dv_heap d a = Some c) \<and> allow_encrypt c"

lemma privsound_crypt_live:
  assumes inv: "drv_inv d" and live: "ref_live d r c" and data: "data \<noteq> []"
  obtains d' c' where "privsound_crypt aes r data d = Some (ctr_out (kern_cipher aes c) (kern_ctr c) data, d')"
    "drv_inv d'" "ref_live d' r c'" "kern_cipher aes c' = kern_cipher aes c"
    "kern_ctr c' = ctr_next (kern_ctr c) (length data)" "dv_refs d' = dv_refs d"
proof -
  obtain a where a: "dv_refs d r = Some a" "dv_heap d a = Some c" "allow_encrypt c"
    using live by (auto simp: ref_live_def)
  obtain c' where c': "priv_crypt aes (Some c) data = (0, Some c', ctr_out (kern_cipher aes c) (kern_ctr c) data)"
    "drv_inv (put_ctx a c' d)" "allow_encrypt c'" "kern_cipher aes c' = kern_cipher aes c"
    "kern_ctr c' = ctr_next (kern_ctr c) (length data)"
    using priv_crypt_held [OF inv a(2,3)] by blast
  show thesis
    by (rule that [of "put_ctx a c' d" c'])
      (use a c' data in \<open>simp_all add: privsound_crypt_def ref_live_def put_ctx_def\<close>)
qed

lemma crypt_frames_live:
  assumes "drv_inv d" "ref_live d r c" "off + 4 * k \<le> length buf"
  shows "\<exists>d' c'. crypt_frames aes r k buf off d =
      Some (mem_write buf off (frames_out (kern_cipher aes c) (kern_ctr c) k (mem_read buf off (4 * k))), d')
    \<and> drv_inv d' \<and> ref_live d' r c' \<and> kern_cipher aes c' = kern_cipher aes c
    \<and> kern_ctr c' = (be_inc ^^ k) (kern_ctr c) \<and> dv_refs d' = dv_refs d"
  using assms
proof (induction k arbitrary: buf off d c)
  case (Suc k)
  let ?x = "mem_read buf off 4" and ?E = "kern_cipher aes c" and ?v = "kern_ctr c"
  have x: "length ?x = 4" using Suc.prems(3) by simp
  then have "?x \<noteq> []" by auto
  then obtain d1 c1 where d1: "privsound_crypt aes r ?x d = Some (ctr_out ?E ?v ?x, d1)" "drv_inv d1"
    "ref_live d1 r c1" "kern_cipher aes c1 = ?E" "kern_ctr c1 = ctr_next ?v (length ?x)" "dv_refs d1 = dv_refs d"
    using privsound_crypt_live [OF Suc.prems(1,2), where aes = aes] by metis
  have v1: "kern_ctr c1 = be_inc ?v" using d1(5) x by (simp add: ctr_next_last)
  let ?buf1 = "mem_write buf off (ctr_out ?E ?v ?x)"
  have "off + 4 + 4 * k \<le> length ?buf1" using Suc.prems(3) x by simp
  from Suc.IH [OF d1(2,3) this] obtain d' c' where ih: "crypt_frames aes r k ?buf1 (off + 4) d1 =
      Some (mem_write ?buf1 (off + 4) (frames_out ?E (be_inc ?v) k (mem_read ?buf1 (off + 4) (4 * k))), d')"
    "drv_inv d'" "ref_live d' r c'" "kern_cipher aes c' = ?E" "kern_ctr c' = (be_inc ^^ k) (be_inc ?v)"
    "dv_refs d' = dv_refs d"
    unfolding d1(4) v1 d1(6) by metis
  have rd: "mem_read ?buf1 (off + 4) (4 * k) = drop 4 (mem_read buf off (4 * Suc k))"
    using Suc.prems(3) x by (simp add: mem_read_write_after) (simp add: mem_read_def drop_take add.commute)
  have tk: "take 4 (mem_read buf off (4 + 4 * k)) = ?x" by (simp add: mem_read_def min_def)
  have "mem_write ?buf1 (off + 4) (frames_out ?E (be_inc ?v) k (mem_read ?buf1 (off + 4) (4 * k))) =
      mem_write buf off (frames_out ?E ?v (Suc k) (mem_read buf off (4 * Suc k)))"
    using mem_write_append [of off "ctr_out ?E ?v ?x" "frames_out ?E (be_inc ?v) k (mem_read ?buf1 (off + 4) (4 * k))" buf]
      Suc.prems(3) x
    by (simp add: rd tk)
  then show ?case using d1(1) ih by (auto simp: funpow_swap1)
next
  case 0
  then show ?case by (auto simp: ref_live_def)
qed

text \<open>
  How much of the captured data is taken, and which bytes: when the free part of the ring
  wraps, the second copy starts again at the beginning of the hardware buffer.
\<close>

definition input_amount :: "bytes \<Rightarrow> psnd_buf \<Rightarrow> nat" where
  "input_amount data b =
     4 * (min (PSND_IBUF_SIZE - 4 - ring_used PSND_IBUF_SIZE (ps_ifptr b) (ps_iwptr b)) (length data) div 4)"

definition input_taken :: "bytes \<Rightarrow> psnd_buf \<Rightarrow> bytes" where
  "input_taken data b =
     (let n = input_amount data b; k = PSND_IBUF_SIZE - ps_iwptr b
      in if n \<le> k then take n data else take k data @ take (n - k) data)"

lemma input_amount_le: "input_amount data b \<le> length data"
proof -
  have "4 * (m div 4) \<le> m" for m :: nat by simp
  then show ?thesis unfolding input_amount_def by (meson le_trans min.cobounded2)
qed

lemma length_input_taken: "length (input_taken data b) = input_amount data b"
  using input_amount_le [of data b] by (simp add: input_taken_def Let_def)

lemma int_minus_mod4: "int m - int m mod 4 = int (4 * (m div 4))"
  by (metis minus_mod_eq_mult_div of_nat_mult of_nat_numeral zdiv_int)

lemma nat_frames: "nat (int (4 * q) + 3) div 4 = q"
proof -
  have "nat (int (4 * q) + 3) = 4 * q + 3" by linarith
  then show ?thesis by simp
qed

text \<open>The first of the two copies, or the only one.\<close>

lemma copy_crypt:
  assumes inv: "drv_inv d" "ref_live d r c" and off: "off + 4 * k \<le> length buf" and data: "4 * k \<le> length data"
  obtains d' c' where "memcpy_to buf off data (int (4 * k)) = Some (mem_write buf off (take (4 * k) data))"
    "crypt_frames aes r k (mem_write buf off (take (4 * k) data)) off d =
      Some (mem_write buf off (frames_out (kern_cipher aes c) (kern_ctr c) k (take (4 * k) data)), d')"
    "drv_inv d'" "ref_live d' r c'" "kern_cipher aes c' = kern_cipher aes c"
    "kern_ctr c' = (be_inc ^^ k) (kern_ctr c)" "dv_refs d' = dv_refs d"
proof -
  let ?b = "mem_write buf off (take (4 * k) data)"
  have len: "length (take (4 * k) data) = 4 * k" using data by simp
  then have "mem_read ?b off (4 * k) = take (4 * k) data"
    using mem_read_write_same [of off "take (4 * k) data" buf] off by simp
  moreover have "mem_write ?b off (frames_out E v k (take (4 * k) data)) =
      mem_write buf off (frames_out E v k (take (4 * k) data))" for E v
    using len off by (intro mem_write_write_same) simp_all
  moreover have "off + 4 * k \<le> length ?b" using len off by simp
  ultimately obtain d' c' where *: "crypt_frames aes r k ?b off d =
      Some (mem_write buf off (frames_out (kern_cipher aes c) (kern_ctr c) k (take (4 * k) data)), d')"
    "drv_inv d'" "ref_live d' r c'" "kern_cipher aes c' = kern_cipher aes c"
    "kern_ctr c' = (be_inc ^^ k) (kern_ctr c)" "dv_refs d' = dv_refs d"
    using crypt_frames_live [OF inv, of off k ?b aes] by auto
  have "memcpy_to buf off data (int (4 * k)) = Some ?b"
    unfolding memcpy_to_def nat_int using off data by simp
  then show thesis using * by (rule that)
qed

text \<open>
  How the amount is computed: in whole frames, within the data and within the free part of
  the ring, from the smaller of the two.
\<close>

lemma input_amount_frames:
  assumes ok: "in_ok b" and q: "q = input_amount data b div 4"
    and m: "m = min (6400 - 4 - ring_used 6400 (ps_ifptr b) (ps_iwptr b)) (length data)"
  shows "input_amount data b = 4 * q" "int m - int m mod 4 = int (4 * q)" "4 * q \<le> length data"
    "4 * q + ring_used 6400 (ps_ifptr b) (ps_iwptr b) + 4 \<le> 6400"
proof -
  have mq: "q = m div 4" by (simp add: q m input_amount_def)
  then show "input_amount data b = 4 * q" by (simp add: m input_amount_def)
  show "int m - int m mod 4 = int (4 * q)" unfolding mq by (rule int_minus_mod4)
  have u: "ring_used 6400 (ps_ifptr b) (ps_iwptr b) + 4 \<le> 6400" using ok by (simp add: in_ok_def ring_ok_def)
  have "4 * q \<le> m" by (simp add: mq)
  then have "4 * q \<le> 6400 - 4 - ring_used 6400 (ps_ifptr b) (ps_iwptr b)" "4 * q \<le> length data"
    by (simp_all add: m)
  then show "4 * q \<le> length data" "4 * q + ring_used 6400 (ps_ifptr b) (ps_iwptr b) + 4 \<le> 6400"
    using u by linarith+
qed

text \<open>The two branches in which one copy is enough.\<close>

lemma encrypt_input_one_copy:
  assumes ok: "in_ok b" and en: "ps_input_enabled b" and q: "q = input_amount data b div 4"
    and one: "ps_iwptr b < ps_ifptr b \<or> 4 * q < 6400 - ps_iwptr b"
  shows "encrypt_input_buf aes data b d =
    (if q = 0 then Some (b, d)
     else do {
       buf \<leftarrow> memcpy_to (ps_ibuffer b) (ps_iwptr b) data (int (4 * q));
       (buf, d) \<leftarrow> crypt_frames aes (ps_in_ref b) q buf (ps_iwptr b) d;
       Some (b\<lparr>ps_ibuffer := buf, ps_iwptr := (ps_iwptr b + 4 * q) mod 6400\<rparr>, d) })"
proof -
  have r: "ps_ifptr b < 6400" "ps_iwptr b < 6400" "ring_used 6400 (ps_ifptr b) (ps_iwptr b) + 4 \<le> 6400"
    using ok by (auto simp: in_ok_def ring_ok_def)
  define m where "m = min (6400 - 4 - ring_used 6400 (ps_ifptr b) (ps_iwptr b)) (length data)"
  note amt = input_amount_frames(2) [OF ok q m_def]
  have z: "int (4 * q) \<le> 0 \<longleftrightarrow> q = 0" by simp
  have q4: "nat (int (4 * q)) div 4 = q" "nat (int (4 * q)) = 4 * q" unfolding nat_int by simp_all
  show ?thesis
  proof (cases "int (ps_iwptr b) < int (ps_ifptr b)")
    case True
    have m: "min (int (ps_ifptr b) - int (ps_iwptr b) - 4) (int (length data)) = int m"
      using True r by (auto simp: m_def ring_used_def)
    show ?thesis
      unfolding encrypt_input_buf_def Let_def if_P [OF True] m amt z q4 nat_int using en by simp
  next
    case False
    have m: "min (int 6400 - int (ps_iwptr b) + int (ps_ifptr b) - 4) (int (length data)) = int m"
      using False r by (auto simp: m_def ring_used_def)
    have fit: "int (4 * q) < int 6400 - int (ps_iwptr b)" using one False r by linarith
    show ?thesis
      unfolding encrypt_input_buf_def Let_def if_not_P [OF False] m amt if_P [OF fit] z nat_frames q4 nat_int
      using en by simp
  qed
qed

text \<open>The branch with two copies: \<open>k\<close> frames to the end of the ring, the rest at its start.\<close>

lemma encrypt_input_two_copies:
  assumes ok: "in_ok b" and en: "ps_input_enabled b" and q: "q = input_amount data b div 4"
    and two: "\<not> ps_iwptr b < ps_ifptr b" "6400 - ps_iwptr b = 4 * k" "k \<le> q"
  shows "encrypt_input_buf aes data b d = do {
     buf \<leftarrow> memcpy_to (ps_ibuffer b) (ps_iwptr b) data (int (4 * k));
     (buf, d) \<leftarrow> crypt_frames aes (ps_in_ref b) k buf (ps_iwptr b) d;
     if q = k then Some (b\<lparr>ps_ibuffer := buf, ps_iwptr := 0\<rparr>, d)
     else do {
       buf \<leftarrow> memcpy_to buf 0 data (int (4 * (q - k)));
       (buf, d) \<leftarrow> crypt_frames aes (ps_in_ref b) (q - k) buf 0 d;
       Some (b\<lparr>ps_ibuffer := buf, ps_iwptr := 4 * (q - k) mod 6400\<rparr>, d) } }"
proof -
  have r: "ps_ifptr b < 6400" "ps_iwptr b < 6400" "ring_used 6400 (ps_ifptr b) (ps_iwptr b) + 4 \<le> 6400"
    using ok by (auto simp: in_ok_def ring_ok_def)
  define m where "m = min (6400 - 4 - ring_used 6400 (ps_ifptr b) (ps_iwptr b)) (length data)"
  note amt = input_amount_frames(2) [OF ok q m_def]
  have ge: "\<not> int (ps_iwptr b) < int (ps_ifptr b)" using two(1) by simp
  have k: "int 6400 - int (ps_iwptr b) = int (4 * k)" "0 < k" using two(2) r by linarith+
  have m: "min (int (4 * k) + int (ps_ifptr b) - 4) (int (length data)) = int m"
    using two r k(1) by (auto simp: m_def ring_used_def)
  have w: "\<not> int (4 * q) < int (4 * k)" "\<not> int (4 * k) \<le> 0" using two(3) k(2) by simp_all
  have wp: "(ps_iwptr b + 4 * k) mod 6400 = 0"
  proof -
    have "ps_iwptr b + 4 * k = 6400" using two(2) r by linarith
    then show ?thesis by simp
  qed
  have a2: "int (4 * q) - int (4 * k) = int (4 * (q - k))" "int (4 * (q - k)) \<le> 0 \<longleftrightarrow> q = k" using two(3) by auto
  show ?thesis
    unfolding encrypt_input_buf_def Let_def if_not_P [OF ge] k(1) m amt if_not_P [OF w(1)] if_not_P [OF w(2)]
      nat_int nat_frames a2 wp
    using en by (simp add: wp cong: if_cong)
qed

lemma encrypt_input_wrap:
  assumes inv: "drv_inv d" and live: "ref_live d (ps_in_ref b) c" and ok: "in_ok b" and en: "ps_input_enabled b"
    and q: "q = input_amount data b div 4"
    and two: "\<not> ps_iwptr b < ps_ifptr b" "6400 - ps_iwptr b = 4 * k" "k \<le> q"
  shows "\<exists>d' c'. encrypt_input_buf aes data b d =
      Some (b\<lparr>ps_ibuffer := ring_put PSND_IBUF_SIZE (ps_ibuffer b) (ps_iwptr b)
                (frames_out (kern_cipher aes c) (kern_ctr c) (input_amount data b div 4) (input_taken data b)),
              ps_iwptr := (ps_iwptr b + input_amount data b) mod PSND_IBUF_SIZE\<rparr>, d')
    \<and> drv_inv d' \<and> ref_live d' (ps_in_ref b) c' \<and> kern_cipher aes c' = kern_cipher aes c
    \<and> kern_ctr c' = (be_inc ^^ (input_amount data b div 4)) (kern_ctr c) \<and> dv_refs d' = dv_refs d"
proof -
  note am = input_amount_frames [OF ok q refl]
  have r: "length (ps_ibuffer b) = 6400" "ps_iwptr b < 6400" using ok by (auto simp: in_ok_def ring_ok_def)
  have k: "ps_iwptr b + 4 * k = 6400" using two(2) r by linarith
  have off: "ps_iwptr b + 4 * k \<le> length (ps_ibuffer b)" and kd: "4 * k \<le> length data" using k r am(3) two(3) by linarith+
  let ?E = "kern_cipher aes c" and ?v = "kern_ctr c"
  let ?F1 = "frames_out ?E ?v k (take (4 * k) data)"
  let ?b1 = "mem_write (ps_ibuffer b) (ps_iwptr b) ?F1"
  let ?F2 = "frames_out ?E ((be_inc ^^ k) ?v) (q - k) (take (4 * (q - k)) data)"
  obtain d1 c1 where c: "memcpy_to (ps_ibuffer b) (ps_iwptr b) data (int (4 * k)) =
      Some (mem_write (ps_ibuffer b) (ps_iwptr b) (take (4 * k) data))"
    "crypt_frames aes (ps_in_ref b) k (mem_write (ps_ibuffer b) (ps_iwptr b) (take (4 * k) data)) (ps_iwptr b) d =
      Some (?b1, d1)"
    "drv_inv d1" "ref_live d1 (ps_in_ref b) c1" "kern_cipher aes c1 = ?E" "kern_ctr c1 = (be_inc ^^ k) ?v"
    "dv_refs d1 = dv_refs d"
    using copy_crypt [OF inv live off kd] by metis
  have F1: "length ?F1 = 4 * k" using kd by simp
  have off2: "0 + 4 * (q - k) \<le> length ?b1" and qkd: "4 * (q - k) \<le> length data" using F1 off r am(3,4) by simp_all
  obtain d2 c2 where c2: "memcpy_to ?b1 0 data (int (4 * (q - k))) = Some (mem_write ?b1 0 (take (4 * (q - k)) data))"
    "crypt_frames aes (ps_in_ref b) (q - k) (mem_write ?b1 0 (take (4 * (q - k)) data)) 0 d1 =
      Some (mem_write ?b1 0 ?F2, d2)"
    "drv_inv d2" "ref_live d2 (ps_in_ref b) c2" "kern_cipher aes c2 = ?E"
    "kern_ctr c2 = (be_inc ^^ (q - k)) ((be_inc ^^ k) ?v)" "dv_refs d2 = dv_refs d"
    using copy_crypt [OF c(3,4) off2 qkd, of aes] unfolding c(5-7) by metis
  have taken: "input_taken data b = take (4 * k) data @ take (4 * (q - k)) data"
    using two(2,3) by (auto simp: input_taken_def am(1) Let_def diff_mult_distrib2)
  have frames: "frames_out ?E ?v q (input_taken data b) = ?F1 @ ?F2"
    unfolding taken using frames_out_append [of "take (4 * k) data" k ?E ?v "q - k"] kd two(3) by simp
  have ring: "ring_put 6400 (ps_ibuffer b) (ps_iwptr b) (?F1 @ ?F2) = (if q = k then ?b1 else mem_write ?b1 0 ?F2)"
    using F1 two(2,3) k qkd by (auto simp: ring_put_def)
  have wp: "(ps_iwptr b + 4 * q) mod 6400 = 4 * (q - k) mod 6400"
  proof -
    have "ps_iwptr b + 4 * q = 4 * (q - k) + 6400" using k two(3) by linarith
    then show ?thesis by (simp only: mod_add_self2)
  qed
  have ctr: "(be_inc ^^ (q - k)) ((be_inc ^^ k) ?v) = (be_inc ^^ q) ?v"
    using two(3) by (metis funpow_add le_add_diff_inverse2 o_apply)
  note eq = encrypt_input_two_copies [OF ok en q two, of aes d]
  show ?thesis
  proof (cases "q = k")
    case True
    then show ?thesis using eq c frames ring wp by (auto simp: am(1))
  next
    case False
    then show ?thesis using eq c c2 frames ring wp ctr by (auto simp: am(1))
  qed
qed

lemma encrypt_input_buf_put:
  assumes inv: "drv_inv d" and live: "ref_live d (ps_in_ref b) c" and ok: "in_ok b" and en: "ps_input_enabled b"
  shows "\<exists>d' c'. encrypt_input_buf aes data b d =
      Some (b\<lparr>ps_ibuffer := ring_put PSND_IBUF_SIZE (ps_ibuffer b) (ps_iwptr b)
                (frames_out (kern_cipher aes c) (kern_ctr c) (input_amount data b div 4) (input_taken data b)),
              ps_iwptr := (ps_iwptr b + input_amount data b) mod PSND_IBUF_SIZE\<rparr>, d')
    \<and> drv_inv d' \<and> ref_live d' (ps_in_ref b) c' \<and> kern_cipher aes c' = kern_cipher aes c
    \<and> kern_ctr c' = (be_inc ^^ (input_amount data b div 4)) (kern_ctr c) \<and> dv_refs d' = dv_refs d"
proof -
  define q where "q = input_amount data b div 4"
  note am = input_amount_frames [OF ok q_def refl]
  have r: "length (ps_ibuffer b) = 6400" "ps_ifptr b < 6400" "ps_iwptr b < 6400" "4 dvd ps_iwptr b"
    using ok by (auto simp: in_ok_def ring_ok_def)
  let ?F = "frames_out (kern_cipher aes c) (kern_ctr c)"
  show ?thesis
  proof (cases "ps_iwptr b < ps_ifptr b \<or> 4 * q < 6400 - ps_iwptr b")
    case True
    then have off: "ps_iwptr b + 4 * q \<le> length (ps_ibuffer b)" using r am(4) by (auto simp: ring_used_def)
    obtain d' c' where c: "memcpy_to (ps_ibuffer b) (ps_iwptr b) data (int (4 * q)) =
        Some (mem_write (ps_ibuffer b) (ps_iwptr b) (take (4 * q) data))"
      "crypt_frames aes (ps_in_ref b) q (mem_write (ps_ibuffer b) (ps_iwptr b) (take (4 * q) data)) (ps_iwptr b) d =
        Some (mem_write (ps_ibuffer b) (ps_iwptr b) (?F q (take (4 * q) data)), d')"
      "drv_inv d'" "ref_live d' (ps_in_ref b) c'" "kern_cipher aes c' = kern_cipher aes c"
      "kern_ctr c' = (be_inc ^^ q) (kern_ctr c)" "dv_refs d' = dv_refs d"
      using copy_crypt [OF inv live off am(3)] by metis
    have tk: "input_taken data b = take (4 * q) data" using off r by (simp add: input_taken_def am(1) Let_def)
    have id: "b\<lparr>ps_ibuffer := ps_ibuffer b, ps_iwptr := ps_iwptr b\<rparr> = b" by (cases b) simp
    show ?thesis
    proof (cases "q = 0")
      case True
      then show ?thesis
        using encrypt_input_one_copy [OF ok en q_def \<open>_ \<or> _\<close>, of aes d] inv live id r
        by (auto simp: am(1) tk ring_put_def)
    next
      case False
      then show ?thesis
        using encrypt_input_one_copy [OF ok en q_def \<open>_ \<or> _\<close>, of aes d] c off r am(3)
        by (auto simp: am(1) tk ring_put_def)
    qed
  next
    case False
    then have ge: "\<not> ps_iwptr b < ps_ifptr b" by simp
    have "4 dvd 6400 - ps_iwptr b" using r(4) by (intro dvd_diff_nat) simp_all
    then obtain k where k: "6400 - ps_iwptr b = 4 * k" by (rule dvdE)
    have kq: "k \<le> q" "0 < k" "ps_iwptr b + 4 * k = 6400" using False k r by linarith+
    then show ?thesis using encrypt_input_wrap [OF inv live ok en q_def ge k kq(1)] by simp
  qed
qed

lemma encrypt_input_buf_queue:
  assumes inv: "drv_inv d" and live: "ref_live d (ps_in_ref b) c" and ok: "in_ok b" and en: "ps_input_enabled b"
  shows "\<exists>b' d'. encrypt_input_buf aes data b d = Some (b', d') \<and> drv_inv d' \<and> in_ok b'
    \<and> in_queue b' = in_queue b
        @ frames_out (kern_cipher aes c) (kern_ctr c) (input_amount data b div 4) (input_taken data b)"
proof -
  let ?N = "6400 :: nat" and ?n = "input_amount data b"
  let ?X = "frames_out (kern_cipher aes c) (kern_ctr c) (?n div 4) (input_taken data b)"
  have rok: "ring_ok ?N (ps_ibuffer b) (ps_ifptr b) (ps_iwptr b)" "4 dvd ps_iwptr b" using ok by (simp_all add: in_ok_def)
  have n4: "4 * (?n div 4) = ?n" by (simp add: input_amount_def)
  then have X: "length ?X = ?n" using length_frames_out [of "?n div 4" "input_taken data b"] length_input_taken by simp
  have "?n \<le> ?N - 4 - ring_used ?N (ps_ifptr b) (ps_iwptr b)"
  proof -
    have "4 * (m div 4) \<le> m" for m :: nat by simp
    then show ?thesis unfolding input_amount_def by (meson le_trans min.cobounded1)
  qed
  moreover have "ring_used ?N (ps_ifptr b) (ps_iwptr b) + 4 \<le> ?N" using rok by (simp add: ring_ok_def)
  ultimately have room: "ring_used ?N (ps_ifptr b) (ps_iwptr b) + length ?X + 4 \<le> ?N" unfolding X by linarith
  have "4 dvd (ps_iwptr b + ?n) mod ?N"
    using rok(2) by (intro dvd_mod) (simp_all add: input_amount_def)
  then show ?thesis
    using encrypt_input_buf_put [OF assms, of aes data] ring_put_ok [OF rok(1) room] ring_put_bytes [OF rok(1) room]
    unfolding X by (auto simp: in_ok_def in_queue_def)
qed

text \<open>When the free part of the ring does not wrap, the bytes taken are the recorded ones in order.\<close>

lemma input_taken_straight:
  "input_amount data b \<le> PSND_IBUF_SIZE - ps_iwptr b \<Longrightarrow> input_taken data b = take (input_amount data b) data"
  by (simp add: input_taken_def Let_def)

text \<open>When it does, the part after the wrap repeats the beginning of the recording.\<close>

lemma input_taken_wrap:
  assumes "PSND_IBUF_SIZE - ps_iwptr b < input_amount data b"
  shows "input_taken data b =
    take (PSND_IBUF_SIZE - ps_iwptr b) data @ take (input_amount data b - (PSND_IBUF_SIZE - ps_iwptr b)) data"
  using assms by (simp add: input_taken_def Let_def)

section \<open>Playback: frames leave the queue decrypted, mixed and erased\<close>

primrec mix_frames :: "bytes \<Rightarrow> nat \<Rightarrow> nat \<Rightarrow> bytes \<Rightarrow> bytes" where
  "mix_frames hw off 0 data = hw"
| "mix_frames hw off (Suc k) data = mix_frames (mix_frame 4 hw off data 0) (off + 4) k (drop 4 data)"

lemma ring_overwrite_head:
  assumes ok: "ring_ok N buf fp wp" and x: "length x \<le> ring_used N fp wp" "fp + length x \<le> N"
  shows "ring_bytes N (mem_write buf fp x) ((fp + length x) mod N) wp = drop (length x) (ring_bytes N buf fp wp)"
proof -
  have r: "length buf = N" "fp < N" "wp < N" using ok by (simp_all add: ring_ok_def)
  show ?thesis
  proof (cases "fp \<le> wp")
    case True
    then have "fp + length x \<le> wp" using x(1) by (simp add: ring_used_def)
    then show ?thesis using True r by (simp add: ring_bytes_def mem_write_def drop_take add.commute)
  next
    case False
    then show ?thesis
      using r x by (cases "fp + length x = N") (auto simp: ring_bytes_def mem_write_def add.commute)
  qed
qed

lemma ring_head:
  assumes ok: "ring_ok N buf fp wp" and n: "n \<le> ring_used N fp wp" "fp + n \<le> N"
  shows "mem_read buf fp n = take n (ring_bytes N buf fp wp)"
  using assms by (auto simp: ring_ok_def ring_used_def ring_bytes_def mem_read_def min_def split: if_splits)

lemma mix_frame_read:
  assumes "fp + 4 \<le> length ob"
  shows "mix_frame 4 hw off ob fp = mix_frame 4 hw off (mem_read ob fp 4 @ rest) 0"
proof -
  have "get16 ob fp = get16 (mem_read ob fp 4 @ rest) 0" "get16 ob (fp + 2) = get16 (mem_read ob fp 4 @ rest) 2"
    using assms by (simp_all add: get16_def mem_read_def nth_append numeral_2_eq_2 numeral_3_eq_3)
  moreover have "(4 :: nat) div 2 = 2" by simp
  ultimately show ?thesis by (simp only: mix_frame_def Let_def add_0)
qed

definition out_frames_ok :: "psnd_buf \<Rightarrow> bool" where
  "out_frames_ok b \<longleftrightarrow> out_ok b \<and> 4 dvd ps_ofptr b"

lemma out_frame_step:
  assumes ok: "out_frames_ok b" and u: "4 \<le> length (out_queue b)" and out: "length out = 4"
  defines "ob \<equiv> mem_set (mem_write (ps_obuffer b) (ps_ofptr b) out) (ps_ofptr b) 0 4"
    and "fp \<equiv> (if 64000 \<le> ps_ofptr b + 4 then ps_ofptr b + 4 - 64000 else ps_ofptr b + 4)"
  shows "mem_read (ps_obuffer b) (ps_ofptr b) 4 = take 4 (out_queue b)"
    and "out_frames_ok (b\<lparr>ps_obuffer := ob, ps_ofptr := fp\<rparr>)"
    and "out_queue (b\<lparr>ps_obuffer := ob, ps_ofptr := fp\<rparr>) = drop 4 (out_queue b)"
    and "mem_read ob (ps_ofptr b) 4 = replicate 4 0"
    and "ps_ofptr b + 4 \<le> length (ps_obuffer b)"
proof -
  have rok: "ring_ok 64000 (ps_obuffer b) (ps_ofptr b) (ps_owptr b)" and d: "4 dvd ps_ofptr b"
    using ok by (simp_all add: out_frames_ok_def out_ok_def)
  have r: "length (ps_obuffer b) = 64000" "ps_ofptr b < 64000" using rok by (simp_all add: ring_ok_def)
  have used: "4 \<le> ring_used 64000 (ps_ofptr b) (ps_owptr b)" using u rok by (simp add: out_queue_def)
  have fit: "ps_ofptr b + 4 \<le> 64000"
  proof -
    obtain j where "ps_ofptr b = 4 * j" using d by (rule dvdE)
    then show ?thesis using r(2) by presburger
  qed
  show "ps_ofptr b + 4 \<le> length (ps_obuffer b)" using fit r by simp
  show "mem_read (ps_obuffer b) (ps_ofptr b) 4 = take 4 (out_queue b)"
    unfolding out_queue_def by (rule ring_head [OF rok used fit])
  have ob: "ob = mem_write (ps_obuffer b) (ps_ofptr b) (replicate 4 0)"
    unfolding ob_def mem_set_def using out fit r by (intro mem_write_write_same) simp_all
  have fp: "fp = (ps_ofptr b + length (replicate 4 (0 :: byte))) mod 64000"
    using fit by (auto simp: fp_def)
  have used': "length (replicate 4 (0 :: byte)) \<le> ring_used 64000 (ps_ofptr b) (ps_owptr b)"
    "ps_ofptr b + length (replicate 4 (0 :: byte)) \<le> 64000" using used fit by simp_all
  have lob: "length ob = 64000" using fit r by (simp add: ob)
  show "mem_read ob (ps_ofptr b) 4 = replicate 4 0"
    unfolding ob using mem_read_write_same [of "ps_ofptr b" "replicate 4 0" "ps_obuffer b"] fit r by simp
  show "out_queue (b\<lparr>ps_obuffer := ob, ps_ofptr := fp\<rparr>) = drop 4 (out_queue b)"
    unfolding out_queue_def ob fp using ring_overwrite_head [OF rok used'] by simp
  have "4 dvd fp" using d by (auto simp: fp intro: dvd_mod)
  then show "out_frames_ok (b\<lparr>ps_obuffer := ob, ps_ofptr := fp\<rparr>)"
    using ring_take(2) [OF rok used'(1)] lob by (simp add: out_frames_ok_def out_ok_def ring_ok_def fp)
qed

lemma buf_to_hw_loop_spec:
  assumes "drv_inv d" "ref_live d (ps_out_ref b) c" "out_frames_ok b" "4 * k \<le> length (out_queue b)"
  shows "\<exists>b' d'. buf_to_hw_loop aes 4 k hw off b d =
      Some (mix_frames hw off k (frames_out (kern_cipher aes c) (kern_ctr c) k (out_queue b)), b', d')
    \<and> drv_inv d' \<and> out_frames_ok b' \<and> out_queue b' = drop (4 * k) (out_queue b)"
  using assms
proof (induction k arbitrary: hw off b d c)
  case (Suc k)
  let ?E = "kern_cipher aes c" and ?v = "kern_ctr c" and ?x = "take 4 (out_queue b)"
  have u: "4 \<le> length (out_queue b)" using Suc.prems(4) by simp
  then have x: "length ?x = 4" "?x \<noteq> []" by auto
  obtain d1 c1 where d1: "privsound_crypt aes (ps_out_ref b) ?x d = Some (ctr_out ?E ?v ?x, d1)" "drv_inv d1"
    "ref_live d1 (ps_out_ref b) c1" "kern_cipher aes c1 = ?E" "kern_ctr c1 = ctr_next ?v (length ?x)"
    using privsound_crypt_live [OF Suc.prems(1,2) x(2), where aes = aes] by metis
  have v1: "kern_ctr c1 = be_inc ?v" using d1(5) x(1) by (simp add: ctr_next_last)
  have lo: "length (ctr_out ?E ?v ?x) = 4" using x by simp
  note st = out_frame_step [OF Suc.prems(3) u lo]
  define ob where "ob = mem_set (mem_write (ps_obuffer b) (ps_ofptr b) (ctr_out ?E ?v ?x)) (ps_ofptr b) 0 4"
  define b1 where "b1 = b\<lparr>ps_obuffer := ob,
    ps_ofptr := (if 64000 \<le> ps_ofptr b + 4 then ps_ofptr b + 4 - 64000 else ps_ofptr b + 4)\<rparr>"
  have b1: "out_frames_ok b1" "out_queue b1 = drop 4 (out_queue b)"
    using st(2,3) by (simp_all add: b1_def ob_def)
  have "ref_live d1 (ps_out_ref b1) c1" using d1(3) by (simp add: b1_def)
  moreover have "4 * k \<le> length (out_queue b1)" using Suc.prems(4) b1(2) by simp
  moreover define hw' where "hw' = mix_frame 4 hw off (mem_write (ps_obuffer b) (ps_ofptr b) (ctr_out ?E ?v ?x)) (ps_ofptr b)"
  ultimately obtain b' d' where ih: "buf_to_hw_loop aes 4 k hw' (off + 4) b1 d1 =
      Some (mix_frames hw' (off + 4) k (frames_out ?E (be_inc ?v) k (out_queue b1)), b', d')"
    "drv_inv d'" "out_frames_ok b'" "out_queue b' = drop (4 * k) (out_queue b1)"
    using Suc.IH [OF d1(2) _ b1(1), of c1 hw' "off + 4"] unfolding d1(4) v1 by metis
  have "mem_read (mem_write (ps_obuffer b) (ps_ofptr b) (ctr_out ?E ?v ?x)) (ps_ofptr b) 4 = ctr_out ?E ?v ?x"
    using mem_read_write_same [of "ps_ofptr b" "ctr_out ?E ?v ?x" "ps_obuffer b"] st(5) lo by simp
  then have hw: "hw' = mix_frame 4 hw off (ctr_out ?E ?v ?x @ rest) 0" for rest
    using mix_frame_read [of "ps_ofptr b" "mem_write (ps_obuffer b) (ps_ofptr b) (ctr_out ?E ?v ?x)" hw off rest] st(5) lo
    by (simp add: hw'_def)
  have "buf_to_hw_loop aes 4 (Suc k) hw off b d = buf_to_hw_loop aes 4 k hw' (off + 4) b1 d1"
    using d1(1) st(1) by (simp add: b1_def ob_def hw'_def Let_def)
  moreover have "mix_frames hw off (Suc k) (frames_out ?E ?v (Suc k) (out_queue b)) =
      mix_frames hw' (off + 4) k (frames_out ?E (be_inc ?v) k (out_queue b1))"
    using lo b1(2) by (simp flip: hw)
  ultimately show ?case using ih b1(2) by (auto simp: add.commute)
qed simp

section \<open>Creating and removing channels keep the driver's invariant\<close>

definition psnd_node :: "psnd_buf \<Rightarrow> u32 \<Rightarrow> u32 \<Rightarrow> mac_crypt_refs" where
  "psnd_node b i_in i_out = \<lparr>mr_in = i_in, mr_out = i_out, mr_addr = ps_addr b\<rparr>"

lemma psnd_node_refs [simp]:
  "in_ref (psnd_node b i_in i_out) = ps_in_ref b" "out_ref (psnd_node b i_in i_out) = ps_out_ref b"
  by (simp_all add: psnd_node_def in_ref_def out_ref_def ps_in_ref_def ps_out_ref_def)

lemma ps_refs_neq [simp]: "ps_in_ref b \<noteq> ps_out_ref b'" "ps_out_ref b' \<noteq> ps_in_ref b"
  unfolding ps_in_ref_def ps_out_ref_def by presburger+

lemma ps_ref_ctx [simp]:
  "ps_in_ref (b\<lparr>ps_in_ctx := i, ps_out_ctx := j\<rparr>) = ps_in_ref b"
  "ps_out_ref (b\<lparr>ps_in_ctx := i, ps_out_ctx := j\<rparr>) = ps_out_ref b"
  by (simp_all add: ps_in_ref_def ps_out_ref_def)

text \<open>On a fresh block the claim is the same as that of a network card.\<close>

lemma setup_cctx_refs_node:
  assumes "dv_refs d (ps_in_ref b) = None" "dv_refs d (ps_out_ref b) = None"
  shows "setup_cctx_refs b i_in i_out d =
    map_option (\<lambda>(rc, d). (rc, b\<lparr>ps_in_ctx := i_in, ps_out_ctx := i_out\<rparr>, d)) (setup_node (psnd_node b i_in i_out) d)"
proof -
  have idle: "cctx_ref_init (ps_in_ref b) d = d" "cctx_ref_init (ps_out_ref b) d = d"
    using assms by (simp_all add: cctx_ref_init_idle)
  show ?thesis
  proof (cases "use_ctx i_in (Some (ps_in_ref b)) d")
    case None
    then show ?thesis using idle by (simp add: setup_cctx_refs_def setup_node_def psnd_node_def [of b i_in i_out, symmetric] Let_def)
        (simp add: psnd_node_def)
  next
    case (Some res)
    obtain rc d1 where u: "use_ctx i_in (Some (ps_in_ref b)) d = Some (rc, d1)" using Some by (cases res) simp
    have "dv_refs d1 (ps_out_ref b) = None" using use_ctx_refs(1) [OF u, of "ps_out_ref b"] assms(2) by simp
    then have idle1: "cctx_ref_init (ps_out_ref b) d1 = d1" by (rule cctx_ref_init_idle)
    have id: "mr_in (psnd_node b i_in i_out) = i_in" "mr_out (psnd_node b i_in i_out) = i_out"
      by (simp_all add: psnd_node_def)
    show ?thesis
      using u idle idle1
      by (cases "use_ctx i_out (Some (ps_out_ref b)) d1"; cases "unuse_ctx (Some (ps_in_ref b)) (snd (the (use_ctx i_out (Some (ps_out_ref b)) d1)))")
        (auto simp: setup_cctx_refs_def setup_node_def id Let_def)
  qed
qed

text \<open>
  C23. Removing a channel always returns: both rings of the freed block are zero, both contexts
  are given back, and the context driver stays well formed.
\<close>

lemma privsound_free_inv:
  assumes inv: "drv_inv d" and len: "length (ps_obuffer b) = PSND_OBUF_SIZE" "length (ps_ibuffer b) = PSND_IBUF_SIZE"
  shows "\<exists>img d'. privsound_free_psnd_buf b d = Some (img, d') \<and> drv_inv d'
    \<and> ps_obuffer img = replicate PSND_OBUF_SIZE 0 \<and> ps_ibuffer img = replicate PSND_IBUF_SIZE 0
    \<and> dv_refs d' (ps_in_ref b) = None \<and> dv_refs d' (ps_out_ref b) = None"
proof -
  obtain d1 where d1: "release_ref (ps_out_ref b) d = Some d1" "drv_inv d1"
    using release_ref_inv [OF inv] by blast
  obtain d2 where d2: "release_ref (ps_in_ref b) d1 = Some d2" "drv_inv d2"
    using release_ref_inv [OF d1(2)] by blast
  obtain u where u: "unuse_ctx (Some (ps_out_ref b)) d = Some u" "d1 = cctx_ref_init (ps_out_ref b) u"
    using d1(1) by (auto simp: release_ref_def)
  obtain w where w: "unuse_ctx (Some (ps_in_ref b)) u = Some w" "d2 = cctx_ref_init (ps_in_ref b) (cctx_ref_init (ps_out_ref b) w)"
    using d2(1) u(2) by (auto simp: release_ref_def unuse_ctx_ref_init)
  have "d2 = w\<lparr>dv_refs := (dv_refs w)(ps_in_ref b := None, ps_out_ref b := None)\<rparr>"
    using w(2) by (simp add: cctx_ref_init_def fun_upd_twist)
  moreover have "mem_set (ps_obuffer b) 0 0 64000 = replicate 64000 0" "mem_set (ps_ibuffer b) 0 0 6400 = replicate 6400 0"
    using len by (simp_all add: mem_set_def mem_write_def)
  ultimately show ?thesis
    using d2(2) u(1) w(1) by (simp add: privsound_free_psnd_buf_def unuse_cctx_refs_def)
qed

text \<open>
  C24. Creating a channel always returns. On 0 the channel is at the head of the list with both
  rings empty, capture off and the identifiers asked for; on an error the list is as it was.
  The context driver stays well formed in both cases.
\<close>

lemma privsound_create_inv:
  assumes inv: "drv_inv d"
    and fresh: "\<And>b. mem = Some b \<Longrightarrow> dv_refs d (ps_in_ref b) = None \<and> dv_refs d (ps_out_ref b) = None"
  shows "\<exists>rc p' d'. privsound_create_psnd_buf mem i_in i_out (p, d) = Some (rc, p', d') \<and> drv_inv d'
    \<and> (if rc = 0 then \<exists>b. pv_list p' = b # pv_list p \<and> ps_in_ctx b = i_in \<and> ps_out_ctx b = i_out
         \<and> out_queue b = [] \<and> in_queue b = [] \<and> \<not> ps_input_enabled b
       else p' = p)"
proof (cases mem)
  case None
  then show ?thesis using inv by (simp add: privsound_create_psnd_buf_def)
next
  case (Some b)
  define b0 where "b0 = b\<lparr>ps_iwptr := 0, ps_ifptr := 0, ps_owptr := 0, ps_ofptr := 0, ps_input_enabled := False\<rparr>"
  have refs: "ps_in_ref b0 = ps_in_ref b" "ps_out_ref b0 = ps_out_ref b"
    by (simp_all add: b0_def ps_in_ref_def ps_out_ref_def)
  have fr: "dv_refs d (ps_in_ref b0) = None" "dv_refs d (ps_out_ref b0) = None"
    using fresh [OF Some] refs by simp_all
  let ?nid = "psnd_node b0 i_in i_out"
  obtain rc d' where sn: "setup_node ?nid d = Some (rc, d')"
    "if rc < 0 then rc = - 1 \<and> drv_inv (free_refs ?nid d') else rc = 0 \<and> drv_inv d'"
    using setup_node_spec [OF inv, of ?nid] fr by (auto split: if_splits)
  have create: "privsound_create_psnd_buf mem i_in i_out (p, d) =
      (if rc < 0 then Some (rc, p, free_refs ?nid d')
       else Some (rc, p\<lparr>pv_list := b0\<lparr>ps_in_ctx := i_in, ps_out_ctx := i_out\<rparr> # pv_list p\<rparr>, d'))"
    using sn(1) fr
    by (simp add: privsound_create_psnd_buf_def Some setup_cctx_refs_node free_refs_def flip: b0_def)
  show ?thesis
    using sn(2) unfolding create
    by (auto simp: b0_def out_queue_def in_queue_def ring_bytes_def split: if_splits)
qed

section \<open>Properties and examples\<close>

text \<open>
  C22. Reading captured data through sysfs removes from the queue exactly the bytes it returns,
  the first \<open>count\<close> of them, for every position of the two pointers.
\<close>

theorem bin_read_takes_prefix:
  assumes "in_ok b"
  shows "fst (bin_read count b) = take count (in_queue b)
    \<and> in_queue (snd (bin_read count b)) = drop count (in_queue b) \<and> in_ok (snd (bin_read count b))"
  using bin_read_queue [OF assms] by blast

text \<open>
  C15. Capture: as long as the free part of the ring does not wrap, the recorded data, as far
  as whole frames of it fit, is appended to the queue, each frame of four bytes encrypted
  under its own counter value.
\<close>

theorem capture_appends:
  assumes "drv_inv d" "ref_live d (ps_in_ref b) c" "in_ok b" "ps_input_enabled b"
    and "input_amount data b \<le> PSND_IBUF_SIZE - ps_iwptr b"
  shows "\<exists>b' d'. encrypt_input_buf aes data b d = Some (b', d') \<and> drv_inv d' \<and> in_ok b'
    \<and> in_queue b' = in_queue b
        @ frames_out (kern_cipher aes c) (kern_ctr c) (input_amount data b div 4) (take (input_amount data b) data)"
  using encrypt_input_buf_queue [OF assms(1-4), of aes data] unfolding input_taken_straight [OF assms(5)] .

text \<open>
  C38. When it does wrap, the frames after the wrap are the beginning of the recording once
  more and not its continuation: the second copy starts at the same address as the first.
\<close>

theorem capture_wrap_repeats:
  assumes "drv_inv d" "ref_live d (ps_in_ref b) c" "in_ok b" "ps_input_enabled b"
    and "k = PSND_IBUF_SIZE - ps_iwptr b" "k < input_amount data b"
  shows "\<exists>b' d'. encrypt_input_buf aes data b d = Some (b', d')
    \<and> in_queue b' = in_queue b @ frames_out (kern_cipher aes c) (kern_ctr c) (input_amount data b div 4)
        (take k data @ take (input_amount data b - k) data)"
proof -
  have "input_taken data b = take k data @ take (input_amount data b - k) data"
    using input_taken_wrap assms(5,6) by simp
  then show ?thesis using encrypt_input_buf_queue [OF assms(1-4), of aes data] by auto
qed


text \<open>A driver state in which a channel holds one activated context, and the channel.\<close>

definition demo_ctx_of :: "addr \<Rightarrow> priv_crypt_ctx" where
  "demo_ctx_of r = demo_ctx\<lparr>cx_user_ref := Some r, cx_user_lock := True\<rparr>"

definition demo_held :: "addr \<Rightarrow> drv" where
  "demo_held r = demo_drv\<lparr>dv_heap := [100 \<mapsto> demo_ctx_of r], dv_refs := [r \<mapsto> 100]\<rparr>"

definition demo_buf :: psnd_buf where
  "demo_buf = \<lparr>ps_addr = 20, ps_ibuffer = replicate 6400 0, ps_obuffer = replicate 64000 0, ps_out_ctx = 1, ps_in_ctx = 2,
     ps_owptr = 0, ps_ofptr = 0, ps_iwptr = 0, ps_ifptr = 0, ps_input_enabled = True\<rparr>"

lemma demo_ctx_of_fields:
  "ctx_wf (demo_ctx_of r)" "length (cx_kex_buf (demo_ctx_of r)) = MAX_KEX_MSG_LEN" "cx_id (demo_ctx_of r) = 1"
  "cx_user_ref (demo_ctx_of r) = Some r" "cx_user_lock (demo_ctx_of r)" "allow_encrypt (demo_ctx_of r)"
  by (simp_all add: demo_ctx_of_def demo_ctx_def ctx_wf_def tfm_wf_def allow_encrypt_def)

lemma demo_held_inv: "drv_inv (demo_held r)"
  by (auto simp: drv_inv_def demo_drv_def demo_held_def ctx_ok_def demo_ctx_of_fields split: if_splits)

lemma demo_held_live: "ref_live (demo_held r) r (demo_ctx_of r)"
  by (simp add: ref_live_def demo_held_def demo_ctx_of_fields)

lemma demo_buf_ok: "in_ok demo_buf" "out_ok demo_buf" "out_queue demo_buf = []" "in_queue demo_buf = []"
  by (simp_all add: demo_buf_def in_ok_def out_ok_def ring_ok_def ring_used_def out_queue_def in_queue_def ring_bytes_def)

lemma demo_in_amount:
  "length data = 4 * k \<Longrightarrow> k < 1600 \<Longrightarrow> input_amount data demo_buf = 4 * k"
  by (simp add: input_amount_def demo_buf_def ring_used_def)

theorem privsound_write_to_buf_queue_witness:
  "\<exists>b'. privsound_write_to_buf [1, 2, 3, 4] demo_buf = Some (4, b') \<and> out_ok b' \<and> out_queue b' = [1, 2, 3, 4]"
  using privsound_write_to_buf_queue [OF demo_buf_ok(2), of "[1, 2, 3, 4]"] by (auto simp: demo_buf_ok)

theorem bin_read_takes_prefix_witness: "fst (bin_read 10 demo_buf) = []"
  using bin_read_takes_prefix [OF demo_buf_ok(1), of 10] by (simp add: demo_buf_ok)

theorem capture_appends_witness:
  "\<exists>b' d'. encrypt_input_buf (\<lambda>k b. b) [1, 2, 3, 4] demo_buf (demo_held 40) = Some (b', d') \<and> drv_inv d' \<and> in_ok b'
    \<and> in_queue b' = frames_out (kern_cipher (\<lambda>k b. b) (demo_ctx_of 40)) (kern_ctr (demo_ctx_of 40)) 1 [1, 2, 3, 4]"
proof -
  have amt: "input_amount [1, 2, 3, 4] demo_buf = 4" using demo_in_amount [of "[1, 2, 3, 4]" 1] by simp
  have b: "ps_in_ref demo_buf = 40" "ps_input_enabled demo_buf" "ps_iwptr demo_buf = 0"
    by (simp_all add: demo_buf_def ps_in_ref_def)
  show ?thesis
    using capture_appends [OF demo_held_inv [of 40], of demo_buf "demo_ctx_of 40" "[1, 2, 3, 4]" "\<lambda>k b. b"]
      demo_held_live [of 40] by (simp add: amt b demo_buf_ok)
qed

definition demo_full :: psnd_buf where
  "demo_full = demo_buf\<lparr>ps_iwptr := 6396, ps_ifptr := 200\<rparr>"

theorem capture_wrap_repeats_witness:
  "\<exists>b' d'. encrypt_input_buf (\<lambda>k b. b) [1, 2, 3, 4, 5, 6, 7, 8] demo_full (demo_held 40) = Some (b', d')
    \<and> in_queue b' = in_queue demo_full @ frames_out (kern_cipher (\<lambda>k b. b) (demo_ctx_of 40)) (kern_ctr (demo_ctx_of 40)) 2
        [1, 2, 3, 4, 1, 2, 3, 4]"
proof -
  have b: "ps_in_ref demo_full = 40" "ps_input_enabled demo_full" "ps_iwptr demo_full = 6396" "in_ok demo_full"
    "input_amount [1, 2, 3, 4, 5, 6, 7, 8] demo_full = 8"
    by (simp_all add: demo_full_def demo_buf_def ps_in_ref_def in_ok_def ring_ok_def ring_used_def input_amount_def)
  show ?thesis
    using capture_wrap_repeats [OF demo_held_inv [of 40], of demo_full "demo_ctx_of 40" 4 "[1, 2, 3, 4, 5, 6, 7, 8]" "\<lambda>k b. b"]
      demo_held_live [of 40] by (simp add: b)
qed

definition demo_playing :: "aes_fn \<Rightarrow> psnd_buf" where
  "demo_playing aes = demo_buf\<lparr>ps_obuffer :=
     frames_out (kern_cipher aes (demo_ctx_of 41)) (kern_ctr (demo_ctx_of 41)) 1 [1, 2, 3, 4] @ replicate 63996 0, ps_owptr := 4\<rparr>"


theorem privsound_free_inv_witness:
  "\<exists>img d'. privsound_free_psnd_buf demo_buf (demo_held 40) = Some (img, d') \<and> drv_inv d' \<and> dv_refs d' 40 = None"
  using privsound_free_inv [OF demo_held_inv [of 40], of demo_buf] by (auto simp: demo_buf_def ps_in_ref_def)

theorem privsound_create_inv_witness:
  "\<exists>rc p' d'. privsound_create_psnd_buf (Some demo_buf) 1 2 (\<lparr>pv_list = [], pv_dma = None\<rparr>, demo_drv) = Some (rc, p', d')
    \<and> drv_inv d' \<and> (rc = 0 \<or> pv_list p' = [])"
  using privsound_create_inv [OF demo_drv_inv, of "Some demo_buf" 1 2 "\<lparr>pv_list = [], pv_dma = None\<rparr>"]
  by (fastforce simp: demo_drv_fields split: if_splits)

end
