(* ===== verification/Privos.thy ===== *)
theory Privos
  imports Priv_Crypto "HOL-Library.Monad_Syntax"
begin

text \<open>
  Encrypted swap: \<open>host/linux-3.0/mm/privos.c\<close>, with the hooks the swap path has for it in
  \<open>mm/page_io.c\<close>, \<open>mm/swapfile.c\<close> and \<open>mm/swap_state.c\<close>. A private process has a cipher
  context; a page of it that goes to swap is tracked in a radix tree by its swap entry, is
  encrypted into a scratch page on the way out and decrypted on the way in. Contexts,
  tracking records and pages live in heaps; an access to a freed object, a failed
  \<open>BUG_ON\<close> and a second acquisition of a held spin lock (which never returns) are
  \<open>None\<close>. This theory is the model; \<open>Privos_Inv\<close> has its invariant and \<open>Privos_Swap\<close> what reaches the
  device and what comes back.
\<close>

section \<open>State\<close>

abbreviation (input) PRIVOS_CIPHER_KEY_SIZE :: nat where "PRIVOS_CIPHER_KEY_SIZE \<equiv> 32"
abbreviation (input) PRIVOS_CIPHER_IV_SIZE :: nat where "PRIVOS_CIPHER_IV_SIZE \<equiv> 16"
abbreviation (input) SWAP_MAP_MAX :: byte where "SWAP_MAP_MAX \<equiv> 0x3e"
abbreviation (input) SWAP_HAS_CACHE :: byte where "SWAP_HAS_CACHE \<equiv> 0x40"
abbreviation (input) COUNT_CONTINUED :: byte where "COUNT_CONTINUED \<equiv> 0x80"
abbreviation (input) SWAP_MAP_SHMEM :: byte where "SWAP_MAP_SHMEM \<equiv> 0xbf"

record priv_cipher_ctx =
  pc_lock :: bool
  pc_pagecount :: int
  pc_mapcount :: int
  pc_cipher :: "blkcipher option"

record priv_swapped_page =
  sw_ctx :: "addr option"
  sw_page :: "addr option"
  sw_scratch :: "addr option"
  sw_entry :: u64
  sw_flags :: int

record page =
  pg_private :: u64
  pg_data :: bytes
  pg_swapcache :: bool
  pg_locked :: bool
  pg_dirty :: bool
  pg_error :: bool
  pg_uptodate :: bool
  pg_reclaim :: bool
  pg_writeback :: bool

text \<open>
  The radix tree is its list of slots in ascending order of the key, the order in which
  \<open>radix_tree_gang_lookup\<close> returns them. \<open>po_swap_map\<close> is the use count byte of each slot
  of the swap device and \<open>po_disk\<close> its contents.
\<close>

record privos =
  po_ctx :: "addr \<rightharpoonup> priv_cipher_ctx"
  po_swpd :: "addr \<rightharpoonup> priv_swapped_page"
  po_pages :: "addr \<rightharpoonup> page"
  po_tree :: "(u64 \<times> addr) list"
  po_swap_map :: "u64 \<Rightarrow> byte"
  po_disk :: "u64 \<Rightarrow> bytes"

definition put_pctx :: "addr \<Rightarrow> priv_cipher_ctx \<Rightarrow> privos \<Rightarrow> privos" where
  "put_pctx a c s = s\<lparr>po_ctx := (po_ctx s)(a \<mapsto> c)\<rparr>"

definition put_swpd :: "addr \<Rightarrow> priv_swapped_page \<Rightarrow> privos \<Rightarrow> privos" where
  "put_swpd a w s = s\<lparr>po_swpd := (po_swpd s)(a \<mapsto> w)\<rparr>"

definition put_page :: "addr \<Rightarrow> page \<Rightarrow> privos \<Rightarrow> privos" where
  "put_page a p s = s\<lparr>po_pages := (po_pages s)(a \<mapsto> p)\<rparr>"

definition radix_tree_lookup :: "u64 \<Rightarrow> privos \<Rightarrow> addr option" where
  "radix_tree_lookup k s = map_of (po_tree s) k"

definition radix_tree_remove :: "u64 \<Rightarrow> privos \<Rightarrow> privos" where
  "radix_tree_remove k s = s\<lparr>po_tree := filter (\<lambda>e. fst e \<noteq> k) (po_tree s)\<rparr>"

definition radix_tree_add :: "u64 \<Rightarrow> addr \<Rightarrow> privos \<Rightarrow> privos" where
  "radix_tree_add k a s = s\<lparr>po_tree := insort_key fst (k, a) (po_tree s)\<rparr>"

definition radix_tree_gang_lookup :: "u64 \<Rightarrow> nat \<Rightarrow> privos \<Rightarrow> addr list" where
  "radix_tree_gang_lookup index n s = map snd (take n (filter (\<lambda>e. index \<le> fst e) (po_tree s)))"

section \<open>Reference counts and tracking records\<close>

definition priv_ctx_entry_get :: "addr option \<Rightarrow> privos \<Rightarrow> (int \<times> privos) option" where
  "priv_ctx_entry_get ctx s =
     (case ctx of
        None \<Rightarrow> Some (0, s)
      | Some a \<Rightarrow> do {
          c \<leftarrow> po_ctx s a;
          Some (1, put_pctx a (c\<lparr>pc_pagecount := pc_pagecount c + 1\<rparr>) s) })"

text \<open>
  \<open>atomic_dec_and_lock\<close> takes the lock only when the count drops to zero; the context is
  then unlocked, cleared and freed.
\<close>

definition priv_ctx_entry_put :: "addr option \<Rightarrow> privos \<Rightarrow> privos option" where
  "priv_ctx_entry_put ctx s =
     (case ctx of
        None \<Rightarrow> Some s
      | Some a \<Rightarrow> do {
          c \<leftarrow> po_ctx s a;
          let c' = c\<lparr>pc_pagecount := pc_pagecount c - 1\<rparr>;
          if pc_mapcount c = 0 \<and> pc_pagecount c' = 0
          then if pc_lock c then None else Some (s\<lparr>po_ctx := (po_ctx s)(a := None)\<rparr>)
          else Some (put_pctx a c' s) })"

definition free_scratch_page :: "addr option \<Rightarrow> privos \<Rightarrow> privos option" where
  "free_scratch_page buf s =
     (case buf of
        None \<Rightarrow> Some s
      | Some b \<Rightarrow> do { _ \<leftarrow> po_pages s b; Some (s\<lparr>po_pages := (po_pages s)(b := None)\<rparr>) })"

definition free_priv_page :: "addr option \<Rightarrow> privos \<Rightarrow> privos option" where
  "free_priv_page swpd s =
     (case swpd of
        None \<Rightarrow> Some s
      | Some a \<Rightarrow> do {
          w \<leftarrow> po_swpd s a;
          s \<leftarrow> priv_ctx_entry_put (sw_ctx w) s;
          s \<leftarrow> free_scratch_page (sw_scratch w) s;
          Some (s\<lparr>po_swpd := (po_swpd s)(a := None)\<rparr>) })"

text \<open>
  \<open>buf\<close> and \<open>obj\<close> are what the two slab caches return; \<open>kmem_cache_zalloc\<close> clears both.
\<close>

definition zero_page :: "u64 \<Rightarrow> page" where
  "zero_page priv = \<lparr>pg_private = priv, pg_data = replicate PAGE_SIZE 0, pg_swapcache = False,
     pg_locked = False, pg_dirty = False, pg_error = False, pg_uptodate = False,
     pg_reclaim = False, pg_writeback = False\<rparr>"

definition alloc_priv_page ::
  "addr option \<Rightarrow> addr option \<Rightarrow> addr \<Rightarrow> addr option \<Rightarrow> privos \<Rightarrow> (addr option \<times> privos) option" where
  "alloc_priv_page buf obj pg ctx s = do {
     (got, s) \<leftarrow> priv_ctx_entry_get ctx s;
     if got = 0 then Some (None, s)
     else case buf of
         None \<Rightarrow> Some (None, s)
       | Some b \<Rightarrow>
           (case obj of
              None \<Rightarrow> Some (None, s)
            | Some a \<Rightarrow> do {
                p \<leftarrow> po_pages s pg;
                Some (Some a, put_page b (zero_page (pg_private p))
                  (put_swpd a \<lparr>sw_ctx = ctx, sw_page = Some pg, sw_scratch = Some b,
                     sw_entry = pg_private p, sw_flags = 0\<rparr> s)) }) }"

text \<open>
  \<open>preload\<close> is the result of \<open>radix_tree_preload\<close> and \<open>ins\<close> that of inserting into an empty
  slot. An occupied slot is emptied, its record freed, and the insertion tried again.
\<close>

definition add_to_priv_tree :: "int \<Rightarrow> int \<Rightarrow> addr option \<Rightarrow> privos \<Rightarrow> (int \<times> privos) option" where
  "add_to_priv_tree preload ins swpd s =
     (case swpd of
        None \<Rightarrow> Some (0, s)
      | Some a \<Rightarrow> do {
          w \<leftarrow> po_swpd s a;
          pg \<leftarrow> sw_page w;
          p \<leftarrow> po_pages s pg;
          let entry = pg_private p;
          if entry = 0 then Some (0, s)
          else if preload \<noteq> 0 then Some (0, s)
          else do {
            s \<leftarrow> (case radix_tree_lookup entry s of
                   None \<Rightarrow> Some s
                 | Some old \<Rightarrow> free_priv_page (Some old) (radix_tree_remove entry s));
            if ins \<noteq> 0 then do { s \<leftarrow> free_priv_page (Some a) s; Some (0, s) }
            else Some (1, radix_tree_add entry a s) } })"

text \<open>
  How a page is mapped: its map count, whether it has an anonymous mapping, and the areas
  chained to its \<open>anon_vma\<close> (\<open>None\<close> when it cannot be locked), each with the
  address space and the cipher context of the area.
\<close>

record page_map =
  pm_mapcount :: int
  pm_rmapping :: bool
  pm_anon :: "(addr \<times> addr option) list option"

text \<open>
  The walk over the chain: \<open>None\<close> leaves the page untracked (areas of two address spaces,
  an area without context, an empty chain), \<open>Some\<close> is the context of the last area.
\<close>

fun vma_walk :: "(addr \<times> addr option) option \<Rightarrow> (addr \<times> addr option) list \<Rightarrow> addr option" where
  "vma_walk vma [] = Option.bind vma snd"
| "vma_walk vma (v # vs) =
     (if (case vma of None \<Rightarrow> False | Some w \<Rightarrow> fst w \<noteq> fst v) then None
      else if snd v = None then None
      else vma_walk (Some v) vs)"

definition add_to_priv ::
  "addr option \<Rightarrow> addr option \<Rightarrow> int \<Rightarrow> int \<Rightarrow> page_map \<Rightarrow> addr \<Rightarrow> privos \<Rightarrow> (int \<times> privos) option" where
  "add_to_priv buf obj preload ins pm pg s =
     (if 1 < pm_mapcount pm then Some (1, s)
      else if pm_mapcount pm < 1 \<or> \<not> pm_rmapping pm then Some (1, s)
      else case pm_anon pm of
          None \<Rightarrow> Some (1, s)
        | Some avcs \<Rightarrow>
            (case vma_walk None avcs of
               None \<Rightarrow> Some (1, s)
             | Some ctx \<Rightarrow> do {
                 (swpd, s) \<leftarrow> alloc_priv_page buf obj pg (Some ctx) s;
                 if swpd = None then Some (0, s)
                 else do {
                   (ok, s) \<leftarrow> add_to_priv_tree preload ins swpd s;
                   if ok = 0 then do { s \<leftarrow> free_priv_page swpd s; Some (0, s) }
                   else Some (1, s) } }))"

section \<open>Lookup and removal\<close>

definition find_priv_page :: "u64 \<Rightarrow> privos \<Rightarrow> addr option option" where
  "find_priv_page entry s =
     (case radix_tree_lookup entry s of
        None \<Rightarrow> Some None
      | Some a \<Rightarrow> do {
          w \<leftarrow> po_swpd s a;
          if sw_entry w \<noteq> entry then None else Some (Some a) })"

definition test_swapped_bit :: "u64 \<Rightarrow> privos \<Rightarrow> bool option" where
  "test_swapped_bit off s = do {
     found \<leftarrow> find_priv_page off s;
     case found of
       None \<Rightarrow> Some False
     | Some a \<Rightarrow> do { w \<leftarrow> po_swpd s a; Some (sw_flags w \<noteq> 0) } }"

definition set_swapped_bit :: "u64 \<Rightarrow> int \<Rightarrow> privos \<Rightarrow> privos option" where
  "set_swapped_bit off val s = do {
     found \<leftarrow> find_priv_page off s;
     case found of
       None \<Rightarrow> Some s
     | Some a \<Rightarrow> do { w \<leftarrow> po_swpd s a; Some (put_swpd a (w\<lparr>sw_flags := val\<rparr>) s) } }"

definition delete_from_priv :: "u64 \<Rightarrow> privos \<Rightarrow> privos option" where
  "delete_from_priv entry s =
     (if entry = 0 then Some s
      else do {
        b \<leftarrow> test_swapped_bit entry s;
        if b then Some s
        else free_priv_page (radix_tree_lookup entry s) (radix_tree_remove entry s) })"

definition delete_scratch_page :: "u64 \<Rightarrow> privos \<Rightarrow> privos option" where
  "delete_scratch_page entry s =
     (if entry = 0 then Some s
      else do {
        found \<leftarrow> find_priv_page entry s;
        case found of
          None \<Rightarrow> Some s
        | Some a \<Rightarrow> do {
            w \<leftarrow> po_swpd s a;
            if sw_flags w \<noteq> 0 \<and> sw_scratch w \<noteq> None then do {
              s \<leftarrow> free_scratch_page (sw_scratch w) s;
              Some (put_swpd a (w\<lparr>sw_scratch := None, sw_page := None\<rparr>) s) }
            else Some s } })"

section \<open>Use counts of swap slots\<close>

text \<open>
  \<open>swap_entry_free\<close> of \<open>mm/swapfile.c\<close>. \<open>cont\<close> is what \<open>swap_count_continued\<close> answers.
  The slot that loses its last use is dropped from the tracking tree.
\<close>

unbundle bit_operations_syntax

definition swap_entry_free :: "bool \<Rightarrow> u64 \<Rightarrow> byte \<Rightarrow> privos \<Rightarrow> (byte \<times> privos) option" where
  "swap_entry_free cont entry usage s =
     (let count = po_swap_map s entry;
          has_cache = count AND SWAP_HAS_CACHE;
          count = count AND NOT SWAP_HAS_CACHE;
          (count, has_cache) =
            (if usage = SWAP_HAS_CACHE then (count, 0)
             else if count = SWAP_MAP_SHMEM then (0, has_cache)
             else if count AND NOT COUNT_CONTINUED \<le> SWAP_MAP_MAX then
               (if count = COUNT_CONTINUED
                then if cont then (SWAP_MAP_MAX OR COUNT_CONTINUED, has_cache)
                     else (SWAP_MAP_MAX, has_cache)
                else (count - 1, has_cache))
             else (count, has_cache));
          usage = count OR has_cache;
          s = s\<lparr>po_swap_map := (po_swap_map s)(entry := usage)\<rparr>
      in if usage = 0 then do {
           s \<leftarrow> set_swapped_bit entry 0 s;
           s \<leftarrow> delete_from_priv entry s;
           Some (usage, s) }
         else Some (usage, s))"

text \<open>The part of \<open>swap_info_get\<close> that depends on the slot: zero and unused entries are refused.\<close>

definition swap_info_get :: "u64 \<Rightarrow> privos \<Rightarrow> bool" where
  "swap_info_get entry s \<longleftrightarrow> entry \<noteq> 0 \<and> po_swap_map s entry \<noteq> 0"

definition swap_free :: "bool \<Rightarrow> u64 \<Rightarrow> privos \<Rightarrow> privos option" where
  "swap_free cont entry s =
     (if swap_info_get entry s then map_option snd (swap_entry_free cont entry 1 s) else Some s)"

definition swapcache_free :: "bool \<Rightarrow> u64 \<Rightarrow> privos \<Rightarrow> privos option" where
  "swapcache_free cont entry s =
     (if swap_info_get entry s then map_option snd (swap_entry_free cont entry SWAP_HAS_CACHE s)
      else Some s)"

definition page_swapcount :: "page \<Rightarrow> privos \<Rightarrow> byte" where
  "page_swapcount p s =
     (if swap_info_get (pg_private p) s then po_swap_map s (pg_private p) AND NOT SWAP_HAS_CACHE
      else 0)"

definition delete_from_swap_cache :: "addr \<Rightarrow> privos \<Rightarrow> privos option" where
  "delete_from_swap_cache pg s = do {
     p \<leftarrow> po_pages s pg;
     swapcache_free False (pg_private p) (put_page pg (p\<lparr>pg_private := 0, pg_swapcache := False\<rparr>) s) }"

text \<open>\<open>io\<close>: whether the allowed allocation mask still has \<open>__GFP_IO\<close>.\<close>

definition try_to_free_swap :: "bool \<Rightarrow> addr \<Rightarrow> privos \<Rightarrow> (bool \<times> privos) option" where
  "try_to_free_swap io pg s = do {
     p \<leftarrow> po_pages s pg;
     if \<not> pg_swapcache p then Some (False, s)
     else if pg_writeback p then Some (False, s)
     else if page_swapcount p s \<noteq> 0 then Some (False, s)
     else if \<not> io then Some (False, s)
     else do {
       s \<leftarrow> delete_from_swap_cache pg s;
       p \<leftarrow> po_pages s pg;
       Some (True, put_page pg (p\<lparr>pg_dirty := True\<rparr>) s) } }"

section \<open>Cipher contexts\<close>

text \<open>
  One round of the loop of \<open>delete_all_from_priv\<close> over the records a gang lookup returned.
  The context argument of the C function is not used by its body.
\<close>

fun delete_victims :: "addr list \<Rightarrow> privos \<Rightarrow> privos option" where
  "delete_victims [] s = Some s"
| "delete_victims (v # vs) s = do {
     w \<leftarrow> po_swpd s v;
     b \<leftarrow> test_swapped_bit (sw_entry w) s;
     s \<leftarrow> (if b then set_swapped_bit (sw_entry w) 0 s else Some s);
     w \<leftarrow> po_swpd s v;
     s \<leftarrow> (if sw_page w \<noteq> None then swapcache_free False (sw_entry w) s else Some s);
     delete_victims vs s }"

partial_function (option) delete_all_loop :: "u64 \<Rightarrow> privos \<Rightarrow> privos option" where
  [code]: "delete_all_loop index s =
     (let victims = radix_tree_gang_lookup index 64 s
      in do {
        s \<leftarrow> delete_victims victims s;
        if victims = [] then Some s
        else do {
          w \<leftarrow> po_swpd s (last victims);
          delete_all_loop (sw_entry w + 1) s } })"

definition delete_all_from_priv :: "privos \<Rightarrow> privos option" where
  "delete_all_from_priv s = delete_all_loop 0 s"

text \<open>
  \<open>rng\<close> tells whether the default generator is available, \<open>key\<close> is what the key buffer holds
  after \<open>crypto_rng_get_bytes\<close>, \<open>a\<close> is the result of the first allocation, \<open>desc\<close> whether the
  second succeeds and \<open>err\<close> the error of \<open>crypto_alloc_blkcipher\<close>; the last two are not
  checked by the code.
\<close>

definition priv_ctx_alloc ::
  "bool \<Rightarrow> bytes \<Rightarrow> addr option \<Rightarrow> bool \<Rightarrow> int option \<Rightarrow> privos \<Rightarrow> (addr option \<times> privos) option" where
  "priv_ctx_alloc rng key a desc err s =
     (if \<not> rng then Some (None, s)
      else case a of
          None \<Rightarrow> Some (None, s)
        | Some a \<Rightarrow>
            if \<not> desc then None
            else (case crypto_alloc_blkcipher err of
                Inl e \<Rightarrow> None
              | Inr t \<Rightarrow>
                  let (rc, t) = crypto_blkcipher_setkey t (take PRIVOS_CIPHER_KEY_SIZE key)
                  in Some (Some a, put_pctx a \<lparr>pc_lock = False, pc_pagecount = 0, pc_mapcount = 1,
                       pc_cipher = Some t\<rparr> s)))"

definition priv_ctx_get :: "addr option \<Rightarrow> privos \<Rightarrow> (int \<times> privos) option" where
  "priv_ctx_get ctx s =
     (case ctx of
        None \<Rightarrow> Some (0, s)
      | Some a \<Rightarrow> do {
          c \<leftarrow> po_ctx s a;
          if pc_mapcount c = 0 then Some (0, s)
          else Some (1, put_pctx a (c\<lparr>pc_mapcount := pc_mapcount c + 1\<rparr>) s) })"

text \<open>
  The last \<open>priv_ctx_put\<close> overwrites the key of the transform before it is freed. The second
  component is the transform as it is when its memory goes back to the allocator.
\<close>

definition priv_ctx_put :: "addr option \<Rightarrow> privos \<Rightarrow> (privos \<times> blkcipher option) option" where
  "priv_ctx_put ctx s =
     (case ctx of
        None \<Rightarrow> Some (s, None)
      | Some a \<Rightarrow> do {
          c \<leftarrow> po_ctx s a;
          let c = c\<lparr>pc_mapcount := pc_mapcount c - 1\<rparr>;
          if pc_mapcount c \<noteq> 0 then Some (put_pctx a c s, None)
          else if pc_lock c then None
          else do {
            s \<leftarrow> delete_all_from_priv (put_pctx a (c\<lparr>pc_lock := True\<rparr>) s);
            c \<leftarrow> po_ctx s a;
            t \<leftarrow> pc_cipher c;
            let (rc, t) = crypto_blkcipher_setkey t (replicate PRIVOS_CIPHER_KEY_SIZE 0);
            let c = c\<lparr>pc_cipher := None, pc_mapcount := 0\<rparr>;
            if pc_pagecount c = 0 then Some (s\<lparr>po_ctx := (po_ctx s)(a := None)\<rparr>, Some t)
            else Some (put_pctx a (c\<lparr>pc_lock := False\<rparr>) s, Some t) } })"

section \<open>Encryption of a page\<close>

text \<open>The address returned is that of the page the device is to write.\<close>

definition priv_encrypt_page :: "aes_fn \<Rightarrow> addr \<Rightarrow> privos \<Rightarrow> (addr \<times> privos) option" where
  "priv_encrypt_page aes pg s = do {
     p \<leftarrow> po_pages s pg;
     let entry = pg_private p;
     found \<leftarrow> find_priv_page entry s;
     case found of
       None \<Rightarrow> Some (pg, s)
     | Some a \<Rightarrow> do {
         w \<leftarrow> po_swpd s a;
         case sw_ctx w of
           None \<Rightarrow> Some (pg, s)
         | Some x \<Rightarrow>
             if sw_page w \<noteq> Some pg then do {
               s \<leftarrow> set_swapped_bit entry 0 s;
               s \<leftarrow> delete_from_priv entry s;
               Some (pg, s) }
             else case sw_scratch w of
                 None \<Rightarrow> do {
                   s \<leftarrow> set_swapped_bit entry 0 s;
                   s \<leftarrow> delete_from_priv entry s;
                   Some (pg, s) }
               | Some b \<Rightarrow> do {
                   q \<leftarrow> po_pages s b;
                   if entry \<noteq> pg_private q then None
                   else do {
                     c \<leftarrow> po_ctx s x;
                     if pc_lock c then None
                     else do {
                       t \<leftarrow> pc_cipher c;
                       let t = crypto_blkcipher_set_iv t (replicate PRIVOS_CIPHER_IV_SIZE 0);
                       let (v, out) = crypto_ctr_crypt (aes (tfm_key t)) False (tfm_iv t) (pg_data p);
                       let s = put_pctx x (c\<lparr>pc_cipher := Some (t\<lparr>tfm_iv := v\<rparr>)\<rparr>) s;
                       let s = put_page b (q\<lparr>pg_data := out\<rparr>) s;
                       s \<leftarrow> set_swapped_bit entry 1 s;
                       Some (b, s) } } } } }"

definition priv_decrypt_page :: "aes_fn \<Rightarrow> addr \<Rightarrow> privos \<Rightarrow> privos option" where
  "priv_decrypt_page aes pg s = do {
     p \<leftarrow> po_pages s pg;
     found \<leftarrow> find_priv_page (pg_private p) s;
     case found of
       None \<Rightarrow> Some s
     | Some a \<Rightarrow> do {
         w \<leftarrow> po_swpd s a;
         case sw_ctx w of
           None \<Rightarrow> Some s
         | Some x \<Rightarrow> do {
             c \<leftarrow> po_ctx s x;
             if pc_mapcount c = 0 then Some s
             else if pc_lock c then None
             else do {
               t \<leftarrow> pc_cipher c;
               let t = crypto_blkcipher_set_iv t (replicate PRIVOS_CIPHER_IV_SIZE 0);
               let (t, out) = crypto_blkcipher_decrypt aes t (pg_data p);
               let s = put_pctx x (c\<lparr>pc_cipher := Some t\<rparr>) s;
               Some (put_page pg (p\<lparr>pg_data := out\<rparr>) s) } } } }"

section \<open>The swap path\<close>

text \<open>
  A bio has the page to transfer and its sector, which names the slot of the device. The
  transfer is the device's part: it copies the page to or from the slot.
\<close>

record bio =
  bi_page :: addr
  bi_sector :: u64

definition get_swap_bio :: "bool \<Rightarrow> addr \<Rightarrow> privos \<Rightarrow> bio option option" where
  "get_swap_bio ok pg s = do {
     p \<leftarrow> po_pages s pg;
     Some (if ok then Some \<lparr>bi_page = pg, bi_sector = pg_private p\<rparr> else None) }"

definition page_flags :: "(page \<Rightarrow> page) \<Rightarrow> addr \<Rightarrow> privos \<Rightarrow> privos option" where
  "page_flags f pg s = do { p \<leftarrow> po_pages s pg; Some (put_page pg (f p) s) }"

definition end_swap_bio_write :: "bool \<Rightarrow> bio \<Rightarrow> privos \<Rightarrow> privos option" where
  "end_swap_bio_write uptodate b s = do {
     p \<leftarrow> po_pages s (bi_page b);
     found \<leftarrow> find_priv_page (pg_private p) s;
     (pg, s) \<leftarrow> (case found of
         None \<Rightarrow> Some (bi_page b, s)
       | Some a \<Rightarrow> do {
           w \<leftarrow> po_swpd s a;
           pg \<leftarrow> sw_page w;
           p \<leftarrow> po_pages s pg;
           s \<leftarrow> delete_scratch_page (pg_private p) s;
           Some (pg, s) });
     s \<leftarrow> (if \<not> uptodate
           then page_flags (\<lambda>p. p\<lparr>pg_error := True, pg_dirty := True, pg_reclaim := False\<rparr>) pg s
           else Some s);
     page_flags (\<lambda>p. p\<lparr>pg_writeback := False\<rparr>) pg s }"

definition end_swap_bio_read :: "aes_fn \<Rightarrow> bool \<Rightarrow> bio \<Rightarrow> privos \<Rightarrow> privos option" where
  "end_swap_bio_read aes uptodate b s = do {
     s \<leftarrow> (if \<not> uptodate
           then page_flags (\<lambda>p. p\<lparr>pg_error := True, pg_uptodate := False\<rparr>) (bi_page b) s
           else do {
             s \<leftarrow> priv_decrypt_page aes (bi_page b) s;
             page_flags (\<lambda>p. p\<lparr>pg_uptodate := True\<rparr>) (bi_page b) s });
     page_flags (\<lambda>p. p\<lparr>pg_locked := False\<rparr>) (bi_page b) s }"

definition swap_writepage ::
  "aes_fn \<Rightarrow> bool \<Rightarrow> bool \<Rightarrow> addr \<Rightarrow> privos \<Rightarrow> (int \<times> bio option \<times> privos) option" where
  "swap_writepage aes io ok pg s = do {
     (freed, s) \<leftarrow> try_to_free_swap io pg s;
     if freed then do {
       p \<leftarrow> po_pages s pg;
       s \<leftarrow> set_swapped_bit (pg_private p) 0 s;
       s \<leftarrow> page_flags (\<lambda>p. p\<lparr>pg_locked := False\<rparr>) pg s;
       Some (0, None, s) }
     else do {
       bio \<leftarrow> get_swap_bio ok pg s;
       case bio of
         None \<Rightarrow> do {
           s \<leftarrow> page_flags (\<lambda>p. p\<lparr>pg_dirty := True, pg_locked := False\<rparr>) pg s;
           Some (- ENOMEM, None, s) }
       | Some b \<Rightarrow> do {
           (out, s) \<leftarrow> priv_encrypt_page aes pg s;
           s \<leftarrow> page_flags (\<lambda>p. p\<lparr>pg_writeback := True, pg_locked := False\<rparr>) pg s;
           Some (0, Some (b\<lparr>bi_page := out\<rparr>), s) } } }"

definition swap_readpage :: "bool \<Rightarrow> addr \<Rightarrow> privos \<Rightarrow> (int \<times> bio option \<times> privos) option" where
  "swap_readpage ok pg s = do {
     bio \<leftarrow> get_swap_bio ok pg s;
     case bio of
       None \<Rightarrow> do { s \<leftarrow> page_flags (\<lambda>p. p\<lparr>pg_locked := False\<rparr>) pg s; Some (- ENOMEM, None, s) }
     | Some b \<Rightarrow> Some (0, Some b, s) }"

definition device_write :: "bio \<Rightarrow> privos \<Rightarrow> privos option" where
  "device_write b s = do {
     p \<leftarrow> po_pages s (bi_page b);
     Some (s\<lparr>po_disk := (po_disk s)(bi_sector b := pg_data p)\<rparr>) }"

definition device_read :: "bio \<Rightarrow> privos \<Rightarrow> privos option" where
  "device_read b s = do {
     p \<leftarrow> po_pages s (bi_page b);
     Some (put_page (bi_page b) (p\<lparr>pg_data := po_disk s (bi_sector b)\<rparr>) s) }"

section \<open>Private processes\<close>

text \<open>
  The hook of \<open>copy_mm\<close> for a process started private; \<open>mm\<close> is the context of the new
  address space.
\<close>

definition private_mm_hook ::
  "bool \<Rightarrow> bytes \<Rightarrow> addr option \<Rightarrow> bool \<Rightarrow> int option \<Rightarrow> addr option \<Rightarrow> privos \<Rightarrow>
   (int \<times> addr option \<times> privos) option" where
  "private_mm_hook rng key a desc err mm s =
     (if mm \<noteq> None then Some (0, mm, s)
      else do {
        (ctx, s) \<leftarrow> priv_ctx_alloc rng key a desc err s;
        case ctx of
          None \<Rightarrow> Some (- ENOMEM, mm, s)
        | Some x \<Rightarrow> Some (0, Some x, s) })"

text \<open>
  The end of \<open>bprm_mm_init\<close>: a process that executes a program while private gets a context
  of its own. \<open>cur\<close> is the context of the current address space. The result is the return
  code, whether the new address space was kept, and its context. The error exit returns
  \<open>err\<close>, which is 0 at this point.
\<close>

definition bprm_priv_init ::
  "bool \<Rightarrow> bytes \<Rightarrow> addr option \<Rightarrow> bool \<Rightarrow> int option \<Rightarrow> addr option \<Rightarrow> privos \<Rightarrow>
   (int \<times> bool \<times> addr option \<times> privos) option" where
  "bprm_priv_init rng key a desc err cur s = do {
     (got, s) \<leftarrow> priv_ctx_get cur s;
     if got = 0 then Some (0, True, None, s)
     else do {
       (ctx, s) \<leftarrow> priv_ctx_alloc rng key a desc err s;
       case ctx of
         None \<Rightarrow> Some (0, False, None, s)
       | Some x \<Rightarrow> do { (s, _) \<leftarrow> priv_ctx_put cur s; Some (0, True, Some x, s) } } }"

section \<open>The scan of physical memory for a token\<close>

definition scan_pattern :: bytes where
  "scan_pattern = [0x17, 0x56, 0x13, 0x4a, 0xef, 0xde, 0xab]"

definition match_pattern :: "bytes \<Rightarrow> bool" where
  "match_pattern bs \<longleftrightarrow> take 1 bs = [2] \<and> take 7 (drop 1 bs) = scan_pattern"

function scan_region :: "bytes \<Rightarrow> nat" where
  "scan_region bs =
     (if 8 < length bs
      then if match_pattern bs then Suc (scan_region (drop 8 bs)) else scan_region (drop 1 bs)
      else 0)"
  by auto
termination by (relation "measure length") auto

text \<open>
  \<open>mem\<close> gives the contents of each page of the kernel's map, \<open>None\<close> where the address is not
  valid. The loop ends after \<open>total_pages\<close> valid pages.
\<close>

partial_function (option) scan_loop ::
  "(nat \<Rightarrow> bytes option) \<Rightarrow> nat \<Rightarrow> nat \<Rightarrow> nat \<Rightarrow> nat \<Rightarrow> nat \<Rightarrow> (nat \<times> nat) option" where
  [code]: "scan_loop mem total_pages scanned on matched pages =
     (if total_pages \<le> scanned then Some (matched, pages)
      else case mem on of
          None \<Rightarrow> scan_loop mem total_pages scanned (on + 1) matched pages
        | Some bs \<Rightarrow>
            let matched = matched + scan_region bs
            in scan_loop mem total_pages (scanned + 1) (on + 1) matched
                 (if matched \<noteq> 0 then pages + 1 else pages))"

definition scan_physical :: "(nat \<Rightarrow> bytes option) \<Rightarrow> nat \<Rightarrow> (nat \<times> nat) option" where
  "scan_physical mem total_pages = scan_loop mem total_pages 0 0 0 0"

end
