(* ===== verification/Privos_Inv.thy ===== *)
theory Privos_Inv
  imports Privos
begin

text \<open>
  The invariant of the tracking state of encrypted swap: every tracking record refers to a
  context that has not been freed and is counted by it, and owns its scratch page. Every
  operation of \<open>Privos\<close> keeps it, so it holds in every reachable state.
\<close>

section \<open>The tracking invariant\<close>

text \<open>
  \<open>refs_of s x\<close> are the records that count as references to the context at \<open>x\<close>. \<open>po_inv E s\<close>
  holds when the tree and the heap of records agree, apart from the records \<open>E\<close> that an
  operation in progress holds outside the tree: every record refers to a context that has
  not been freed and whose count covers all of its records, and owns its scratch page. A
  context has a key exactly while something maps it, the moment under its lock in which
  the last \<open>priv_ctx_put\<close> destroys the key excepted.
\<close>

definition refs_of :: "privos \<Rightarrow> addr \<Rightarrow> addr set" where
  "refs_of s x = {a. \<exists>w. po_swpd s a = Some w \<and> sw_ctx w = Some x}"

definition pctx_ok :: "priv_cipher_ctx \<Rightarrow> bool" where
  "pctx_ok c \<longleftrightarrow> 0 \<le> pc_mapcount c \<and> (pc_cipher c = None \<longrightarrow> pc_mapcount c = 0)
     \<and> (pc_mapcount c = 0 \<longrightarrow> pc_cipher c = None \<or> pc_lock c)
     \<and> (\<forall>t. pc_cipher c = Some t \<longrightarrow> length (tfm_iv t) = 16 \<and> length (tfm_key t) = 32)"

definition swpd_ok :: "privos \<Rightarrow> priv_swapped_page \<Rightarrow> bool" where
  "swpd_ok s w \<longleftrightarrow> (\<exists>x c. sw_ctx w = Some x \<and> po_ctx s x = Some c)
     \<and> (\<forall>b. sw_scratch w = Some b \<longrightarrow> (\<exists>q. po_pages s b = Some q \<and> pg_private q = sw_entry w))"

definition po_inv :: "addr set \<Rightarrow> privos \<Rightarrow> bool" where
  "po_inv E s \<longleftrightarrow> sorted (map fst (po_tree s)) \<and> distinct (map fst (po_tree s))
     \<and> (\<forall>k a. (k, a) \<in> set (po_tree s) \<longrightarrow> k \<noteq> 0 \<and> (\<exists>w. po_swpd s a = Some w \<and> sw_entry w = k))
     \<and> dom (po_swpd s) = snd ` set (po_tree s) \<union> E \<and> snd ` set (po_tree s) \<inter> E = {} \<and> finite E
     \<and> (\<forall>a w. po_swpd s a = Some w \<longrightarrow> swpd_ok s w)
     \<and> (\<forall>a w a' w' b. po_swpd s a = Some w \<longrightarrow> po_swpd s a' = Some w' \<longrightarrow> sw_scratch w = Some b \<longrightarrow>
          sw_scratch w' = Some b \<longrightarrow> a = a')
     \<and> (\<forall>x c. po_ctx s x = Some c \<longrightarrow> pctx_ok c \<and> int (card (refs_of s x)) \<le> pc_pagecount c)"

lemmas po_put_defs = put_pctx_def put_swpd_def put_page_def

lemma po_put_frame [simp]:
  "po_ctx (put_pctx a c s) = (po_ctx s)(a \<mapsto> c)" "po_swpd (put_pctx a c s) = po_swpd s"
  "po_pages (put_pctx a c s) = po_pages s" "po_tree (put_pctx a c s) = po_tree s"
  "po_swap_map (put_pctx a c s) = po_swap_map s" "po_disk (put_pctx a c s) = po_disk s"
  "po_ctx (put_swpd a w s) = po_ctx s" "po_swpd (put_swpd a w s) = (po_swpd s)(a \<mapsto> w)"
  "po_pages (put_swpd a w s) = po_pages s" "po_tree (put_swpd a w s) = po_tree s"
  "po_swap_map (put_swpd a w s) = po_swap_map s" "po_disk (put_swpd a w s) = po_disk s"
  "po_ctx (put_page a p s) = po_ctx s" "po_swpd (put_page a p s) = po_swpd s"
  "po_pages (put_page a p s) = (po_pages s)(a \<mapsto> p)" "po_tree (put_page a p s) = po_tree s"
  "po_swap_map (put_page a p s) = po_swap_map s" "po_disk (put_page a p s) = po_disk s"
  by (simp_all add: po_put_defs)

lemma radix_tree_frame [simp]:
  "po_ctx (radix_tree_remove k s) = po_ctx s" "po_swpd (radix_tree_remove k s) = po_swpd s"
  "po_pages (radix_tree_remove k s) = po_pages s"
  "po_tree (radix_tree_remove k s) = filter (\<lambda>e. fst e \<noteq> k) (po_tree s)"
  "po_swap_map (radix_tree_remove k s) = po_swap_map s" "po_disk (radix_tree_remove k s) = po_disk s"
  "po_ctx (radix_tree_add k a s) = po_ctx s" "po_swpd (radix_tree_add k a s) = po_swpd s"
  "po_pages (radix_tree_add k a s) = po_pages s"
  "po_tree (radix_tree_add k a s) = insort_key fst (k, a) (po_tree s)"
  "po_swap_map (radix_tree_add k a s) = po_swap_map s" "po_disk (radix_tree_add k a s) = po_disk s"
  by (simp_all add: radix_tree_remove_def radix_tree_add_def)

lemma po_invD:
  assumes "po_inv E s"
  shows "sorted (map fst (po_tree s))" "distinct (map fst (po_tree s))"
    "(k, a) \<in> set (po_tree s) \<Longrightarrow> k \<noteq> 0 \<and> (\<exists>w. po_swpd s a = Some w \<and> sw_entry w = k)"
    "dom (po_swpd s) = snd ` set (po_tree s) \<union> E" "snd ` set (po_tree s) \<inter> E = {}" "finite E"
    "po_swpd s a = Some w \<Longrightarrow> swpd_ok s w"
    "po_swpd s a = Some w \<Longrightarrow> po_swpd s a' = Some w' \<Longrightarrow> sw_scratch w = Some b \<Longrightarrow>
       sw_scratch w' = Some b \<Longrightarrow> a = a'"
    "po_ctx s x = Some c \<Longrightarrow> pctx_ok c \<and> int (card (refs_of s x)) \<le> pc_pagecount c"
  using assms unfolding po_inv_def by blast+

lemma po_invI:
  assumes "sorted (map fst (po_tree s))" "distinct (map fst (po_tree s))"
    "\<And>k a. (k, a) \<in> set (po_tree s) \<Longrightarrow> k \<noteq> 0 \<and> (\<exists>w. po_swpd s a = Some w \<and> sw_entry w = k)"
    "dom (po_swpd s) = snd ` set (po_tree s) \<union> E" "snd ` set (po_tree s) \<inter> E = {}" "finite E"
    "\<And>a w. po_swpd s a = Some w \<Longrightarrow> swpd_ok s w"
    "\<And>a w a' w' b. po_swpd s a = Some w \<Longrightarrow> po_swpd s a' = Some w' \<Longrightarrow> sw_scratch w = Some b \<Longrightarrow>
       sw_scratch w' = Some b \<Longrightarrow> a = a'"
    "\<And>x c. po_ctx s x = Some c \<Longrightarrow> pctx_ok c \<and> int (card (refs_of s x)) \<le> pc_pagecount c"
  shows "po_inv E s"
  unfolding po_inv_def by ((rule assms; assumption) | rule conjI allI impI)+

lemma radix_tree_lookup_in:
  "po_inv E s \<Longrightarrow> radix_tree_lookup k s = Some a \<longleftrightarrow> (k, a) \<in> set (po_tree s)"
  unfolding radix_tree_lookup_def by (simp add: po_invD(2))

lemma lookup_swpd:
  assumes inv: "po_inv E s" and k: "radix_tree_lookup k s = Some a"
  obtains w where "po_swpd s a = Some w" "sw_entry w = k" "k \<noteq> 0" "a \<notin> E"
proof -
  have ka: "(k, a) \<in> set (po_tree s)" using k by (simp add: radix_tree_lookup_in [OF inv])
  then have "a \<in> snd ` set (po_tree s)" by (rule rev_image_eqI) simp
  then have "a \<notin> E" using po_invD(5) [OF inv] by blast
  then show thesis using that po_invD(3) [OF inv ka] by blast
qed

lemma find_priv_page_inv:
  "po_inv E s \<Longrightarrow> find_priv_page k s = Some (radix_tree_lookup k s)"
  by (cases "radix_tree_lookup k s") (auto simp: find_priv_page_def elim: lookup_swpd)

lemma finite_dom_swpd: "po_inv E s \<Longrightarrow> finite (dom (po_swpd s))"
  by (simp add: po_invD(4,6))

lemma finite_refs_of: "po_inv E s \<Longrightarrow> finite (refs_of s x)"
  by (rule finite_subset [OF _ finite_dom_swpd]) (auto simp: refs_of_def)

lemma swpd_ok_cong: "po_ctx s' = po_ctx s \<Longrightarrow> po_pages s' = po_pages s \<Longrightarrow> swpd_ok s' w = swpd_ok s w"
  by (simp add: swpd_ok_def)

lemma refs_of_cong: "po_swpd s' = po_swpd s \<Longrightarrow> refs_of s' x = refs_of s x"
  by (simp add: refs_of_def)

text \<open>Changing a record in place: its context and entry stay, its scratch page may go.\<close>

lemma put_swpd_inv:
  assumes inv: "po_inv E s" and w: "po_swpd s a = Some w"
    and w': "sw_ctx w' = sw_ctx w" "sw_entry w' = sw_entry w" "sw_scratch w' = sw_scratch w \<or> sw_scratch w' = None"
  shows "po_inv E (put_swpd a w' s)"
proof (rule po_invI)
  let ?s = "put_swpd a w' s"
  show "sorted (map fst (po_tree ?s))" "distinct (map fst (po_tree ?s))"
    "snd ` set (po_tree ?s) \<inter> E = {}" "finite E"
    using po_invD(1,2,5,6) [OF inv] by simp_all
  show "dom (po_swpd ?s) = snd ` set (po_tree ?s) \<union> E" using w po_invD(4) [OF inv] by auto
  have upd: "(\<exists>v. po_swpd s b = Some v \<and> sw_ctx u = sw_ctx v \<and> sw_entry u = sw_entry v
      \<and> (sw_scratch u = sw_scratch v \<or> sw_scratch u = None))" if "po_swpd ?s b = Some u" for b u
    using that w w' by (cases "b = a") auto
  show "k \<noteq> 0 \<and> (\<exists>v. po_swpd ?s b = Some v \<and> sw_entry v = k)" if "(k, b) \<in> set (po_tree ?s)" for k b
    using po_invD(3) [OF inv, of k b] that w w'(2) by auto
  show "swpd_ok ?s v" if "po_swpd ?s b = Some v" for b v
    using upd [OF that] po_invD(7) [OF inv] by (fastforce simp: swpd_ok_def)
  show "b1 = b2" if "po_swpd ?s b1 = Some v1" "po_swpd ?s b2 = Some v2"
    "sw_scratch v1 = Some q" "sw_scratch v2 = Some q" for b1 v1 b2 v2 q
    using upd [OF that(1)] upd [OF that(2)] that(3,4) po_invD(8) [OF inv] by force
  have "refs_of ?s x = refs_of s x" for x
    using w w'(1) by (auto simp: refs_of_def)
  then show "pctx_ok c \<and> int (card (refs_of ?s x)) \<le> pc_pagecount c" if "po_ctx ?s x = Some c" for x c
    using that po_invD(9) [OF inv] by simp
qed

lemma set_swapped_bit_inv:
  assumes "po_inv E s"
  shows "\<exists>s'. set_swapped_bit k v s = Some s' \<and> po_inv E s' \<and> po_tree s' = po_tree s
    \<and> po_ctx s' = po_ctx s \<and> po_pages s' = po_pages s \<and> po_swap_map s' = po_swap_map s \<and> po_disk s' = po_disk s
    \<and> po_swpd s' = (case radix_tree_lookup k s of None \<Rightarrow> po_swpd s
        | Some a \<Rightarrow> (po_swpd s)(a := map_option (\<lambda>w. w\<lparr>sw_flags := v\<rparr>) (po_swpd s a)))"
proof (cases "radix_tree_lookup k s")
  case None
  then show ?thesis using assms by (simp add: set_swapped_bit_def find_priv_page_inv [OF assms])
next
  case (Some a)
  with assms obtain w where w: "po_swpd s a = Some w" by (rule lookup_swpd)
  then have "set_swapped_bit k v s = Some (put_swpd a (w\<lparr>sw_flags := v\<rparr>) s)"
    by (simp add: set_swapped_bit_def find_priv_page_inv [OF assms] Some)
  then show ?thesis using put_swpd_inv [OF assms w, of "w\<lparr>sw_flags := v\<rparr>"] Some w by simp
qed

lemma test_swapped_bit_inv:
  "po_inv E s \<Longrightarrow> test_swapped_bit k s = Some (case radix_tree_lookup k s of None \<Rightarrow> False
     | Some a \<Rightarrow> (case po_swpd s a of None \<Rightarrow> False | Some w \<Rightarrow> sw_flags w \<noteq> 0))"
  by (cases "radix_tree_lookup k s") (auto simp: test_swapped_bit_def find_priv_page_inv elim: lookup_swpd)

lemma radix_tree_remove_slots:
  assumes inv: "po_inv E s" and k: "radix_tree_lookup k s = Some a"
  shows "snd ` set (po_tree (radix_tree_remove k s)) = snd ` set (po_tree s) - {a}"
    and "a \<in> snd ` set (po_tree s)"
proof -
  have ka: "(k, a) \<in> set (po_tree s)" using k radix_tree_lookup_in [OF inv] by simp
  then show "a \<in> snd ` set (po_tree s)" by force
  have key: "k' = k" if "(k', a) \<in> set (po_tree s)" for k'
    using po_invD(3) [OF inv that] po_invD(3) [OF inv ka] by auto
  have slot: "b = a" if "(k, b) \<in> set (po_tree s)" for b
    using that k radix_tree_lookup_in [OF inv, of k b] by simp
  show "snd ` set (po_tree (radix_tree_remove k s)) = snd ` set (po_tree s) - {a}"
  proof (intro set_eqI iffI)
    fix b assume "b \<in> snd ` set (po_tree (radix_tree_remove k s))"
    then obtain k' where "(k', b) \<in> set (po_tree s)" "k' \<noteq> k" by auto
    then show "b \<in> snd ` set (po_tree s) - {a}" using key by force
  next
    fix b assume "b \<in> snd ` set (po_tree s) - {a}"
    then obtain k' where "(k', b) \<in> set (po_tree s)" "b \<noteq> a" by auto
    then show "b \<in> snd ` set (po_tree (radix_tree_remove k s))" using slot by force
  qed
qed

lemma radix_tree_remove_inv:
  assumes inv: "po_inv E s" and k: "radix_tree_lookup k s = Some a"
  shows "po_inv (insert a E) (radix_tree_remove k s)"
proof (rule po_invI)
  let ?s = "radix_tree_remove k s"
  show "dom (po_swpd ?s) = snd ` set (po_tree ?s) \<union> insert a E" "snd ` set (po_tree ?s) \<inter> insert a E = {}"
    unfolding radix_tree_remove_slots(1) [OF inv k]
    using radix_tree_remove_slots(2) [OF inv k] po_invD(4,5) [OF inv] by auto
  show "sorted (map fst (po_tree ?s))" "distinct (map fst (po_tree ?s))"
    using po_invD(1,2) [OF inv] by (auto simp: sorted_filter distinct_map_filter)
  show "k' \<noteq> 0 \<and> (\<exists>w. po_swpd ?s b = Some w \<and> sw_entry w = k')" if "(k', b) \<in> set (po_tree ?s)" for k' b
    using that po_invD(3) [OF inv, of k' b] by simp
  show "finite (insert a E)" using po_invD(6) [OF inv] by simp
  show "swpd_ok ?s w" if "po_swpd ?s b = Some w" for b w
    using that po_invD(7) [OF inv] swpd_ok_cong [of ?s s w] by simp
  show "b1 = b2" if "po_swpd ?s b1 = Some v1" "po_swpd ?s b2 = Some v2"
    "sw_scratch v1 = Some q" "sw_scratch v2 = Some q" for b1 v1 b2 v2 q
    using that po_invD(8) [OF inv] by simp
  show "pctx_ok c \<and> int (card (refs_of ?s x)) \<le> pc_pagecount c" if "po_ctx ?s x = Some c" for x c
    using that po_invD(9) [OF inv] refs_of_cong [of ?s s x] by simp
qed

text \<open>
  Freeing a record: its context loses one reference and is freed only when this was the last
  record that used it; the scratch page goes with the record.
\<close>

definition ctx_after_put :: "priv_cipher_ctx \<Rightarrow> priv_cipher_ctx option" where
  "ctx_after_put c = (if pc_mapcount c = 0 \<and> pc_pagecount c = 1 then None
     else Some (c\<lparr>pc_pagecount := pc_pagecount c - 1\<rparr>))"

definition unlocked :: "privos \<Rightarrow> bool" where
  "unlocked s \<longleftrightarrow> (\<forall>x c. po_ctx s x = Some c \<longrightarrow> \<not> pc_lock c)"

lemma priv_ctx_entry_put_spec:
  assumes "po_ctx s x = Some c" "ctx_after_put c = None \<Longrightarrow> \<not> pc_lock c"
  shows "priv_ctx_entry_put (Some x) s = Some (s\<lparr>po_ctx := (po_ctx s)(x := ctx_after_put c)\<rparr>)"
  using assms by (auto simp: priv_ctx_entry_put_def ctx_after_put_def put_pctx_def Let_def split: if_splits)

lemma free_priv_page_eq:
  assumes inv: "po_inv E s" and w: "po_swpd s a = Some w"
    and x: "sw_ctx w = Some x" "po_ctx s x = Some c" "ctx_after_put c = None \<Longrightarrow> \<not> pc_lock c"
  shows "free_priv_page (Some a) s = Some (s\<lparr>po_ctx := (po_ctx s)(x := ctx_after_put c),
    po_pages := (case sw_scratch w of None \<Rightarrow> po_pages s | Some b \<Rightarrow> (po_pages s)(b := None)),
    po_swpd := (po_swpd s)(a := None)\<rparr>)"
proof -
  have "po_pages s b \<noteq> None" if "sw_scratch w = Some b" for b
    using po_invD(7) [OF inv w] that by (auto simp: swpd_ok_def)
  then show ?thesis
    using w x by (auto simp: free_priv_page_def priv_ctx_entry_put_spec free_scratch_page_def split: option.splits)
qed

lemma free_priv_page_inv:
  assumes inv: "po_inv E s" and w: "po_swpd s a = Some w" and a: "a \<in> E"
    and x: "sw_ctx w = Some x" "po_ctx s x = Some c" "ctx_after_put c = None \<Longrightarrow> \<not> pc_lock c"
    and s': "free_priv_page (Some a) s = Some s'"
  shows "po_inv (E - {a}) s'"
proof (rule po_invI)
  have s': "s' = s\<lparr>po_ctx := (po_ctx s)(x := ctx_after_put c),
      po_pages := (case sw_scratch w of None \<Rightarrow> po_pages s | Some b \<Rightarrow> (po_pages s)(b := None)),
      po_swpd := (po_swpd s)(a := None)\<rparr>"
    using s' free_priv_page_eq [OF inv w x(1,2)] x(3) by simp
  have aref: "a \<in> refs_of s x" using w x by (auto simp: refs_of_def)
  have refs: "refs_of s' y = refs_of s y - {a}" for y by (auto simp: refs_of_def s')
  have card: "int (card (refs_of s' x)) = int (card (refs_of s x)) - 1"
    unfolding refs using card_Suc_Diff1 [OF finite_refs_of [OF inv] aref] by linarith
  have gone: "refs_of s' x = {}" if "ctx_after_put c = None"
  proof -
    have "card (refs_of s' x) = 0"
      using that card po_invD(9) [OF inv x(2)] by (simp add: ctx_after_put_def split: if_splits)
    then show ?thesis using finite_refs_of [OF inv, of x] by (simp add: refs)
  qed
  show "sorted (map fst (po_tree s'))" "distinct (map fst (po_tree s'))" "finite (E - {a})"
    "snd ` set (po_tree s') \<inter> (E - {a}) = {}"
    using po_invD(1,2,5,6) [OF inv] by (auto simp: s')
  show "dom (po_swpd s') = snd ` set (po_tree s') \<union> (E - {a})"
    using po_invD(4,5) [OF inv] a by (auto simp: s')
  show "k \<noteq> 0 \<and> (\<exists>v. po_swpd s' b = Some v \<and> sw_entry v = k)" if "(k, b) \<in> set (po_tree s')" for k b
  proof -
    have "(k, b) \<in> set (po_tree s)" using that by (simp add: s')
    moreover from this have "b \<noteq> a" using po_invD(5) [OF inv] a by (metis disjoint_iff image_eqI snd_conv)
    ultimately show ?thesis using po_invD(3) [OF inv] by (simp add: s')
  qed
  show "b1 = b2" if "po_swpd s' b1 = Some v1" "po_swpd s' b2 = Some v2"
    "sw_scratch v1 = Some q" "sw_scratch v2 = Some q" for b1 v1 b2 v2 q
    using that po_invD(8) [OF inv] by (auto simp: s' split: if_splits)
  show "swpd_ok s' v" if v: "po_swpd s' b = Some v" for b v
  proof -
    have v': "po_swpd s b = Some v" "b \<noteq> a" using v by (auto simp: s' split: if_splits)
    then have ok: "swpd_ok s v" using po_invD(7) [OF inv] by blast
    have "sw_ctx v = Some x \<Longrightarrow> ctx_after_put c \<noteq> None" using gone v by (auto simp: refs_of_def)
    moreover have "sw_scratch v = Some q \<Longrightarrow> sw_scratch w \<noteq> Some q" for q
      using po_invD(8) [OF inv v'(1) w] v'(2) by blast
    ultimately show ?thesis
      using ok unfolding swpd_ok_def by (cases "sw_scratch w") (auto simp: s')
  qed
  show "pctx_ok d \<and> int (card (refs_of s' y)) \<le> pc_pagecount d" if d: "po_ctx s' y = Some d" for y d
  proof (cases "y = x")
    case True
    then have "ctx_after_put c = Some d" using d by (simp add: s')
    then show ?thesis using True card po_invD(9) [OF inv x(2)]
      by (auto simp: ctx_after_put_def pctx_ok_def split: if_splits)
  next
    case False
    then have "po_ctx s y = Some d" using d by (simp add: s')
    moreover have "card (refs_of s' y) \<le> card (refs_of s y)"
      unfolding refs by (rule card_mono [OF finite_refs_of [OF inv]]) blast
    ultimately show ?thesis using po_invD(9) [OF inv] by fastforce
  qed
qed

lemma free_priv_page_returns:
  assumes "free_priv_page (Some a) s = Some s'" "po_swpd s a = Some w" "sw_ctx w = Some x" "po_ctx s x = Some c"
  shows "ctx_after_put c = None \<Longrightarrow> \<not> pc_lock c"
  using assms
  by (auto simp: free_priv_page_def priv_ctx_entry_put_def ctx_after_put_def Let_def split: if_splits Option.bind_splits)

lemma swpd_ctx:
  assumes "po_inv E s" "po_swpd s a = Some w"
  obtains x c where "sw_ctx w = Some x" "po_ctx s x = Some c"
  using po_invD(7) [OF assms] by (auto simp: swpd_ok_def)

lemma radix_tree_remove_none:
  assumes "radix_tree_lookup k s = None"
  shows "radix_tree_remove k s = s"
proof -
  have "filter (\<lambda>e. fst e \<noteq> k) (po_tree s) = po_tree s"
    using assms unfolding radix_tree_lookup_def map_of_eq_None_iff filter_id_conv by blast
  then show ?thesis by (simp add: radix_tree_remove_def)
qed

lemma drop_tracked:
  assumes inv: "po_inv E s" and s': "free_priv_page (radix_tree_lookup k s) (radix_tree_remove k s) = Some s'"
  shows "po_inv E s'"
proof (cases "radix_tree_lookup k s")
  case None
  then have "s' = s" using s' by (simp add: free_priv_page_def radix_tree_remove_none)
  then show ?thesis using inv by simp
next
  case (Some a)
  note inv' = radix_tree_remove_inv [OF inv Some]
  obtain w where w: "po_swpd s a = Some w" "a \<notin> E" using inv Some by (rule lookup_swpd)
  then have w': "po_swpd (radix_tree_remove k s) a = Some w" by simp
  obtain x c where x: "sw_ctx w = Some x" "po_ctx (radix_tree_remove k s) x = Some c"
    using inv' w' by (rule swpd_ctx)
  have "po_inv (insert a E - {a}) s'"
    by (rule free_priv_page_inv [OF inv' w' _ x]) (use s' Some w' x in \<open>auto dest: free_priv_page_returns\<close>)
  then show ?thesis using w(2) by simp
qed

lemma delete_from_priv_inv:
  assumes "po_inv E s" "delete_from_priv k s = Some s'"
  shows "po_inv E s'"
  using assms drop_tracked [OF assms(1)] by (auto simp: delete_from_priv_def split: if_splits Option.bind_splits)

lemma delete_from_priv_returns:
  assumes inv: "po_inv E s" and "unlocked s"
  shows "\<exists>s'. delete_from_priv k s = Some s'"
proof (cases "radix_tree_lookup k s")
  case None
  then show ?thesis
    by (auto simp: delete_from_priv_def test_swapped_bit_inv [OF inv] radix_tree_remove_none free_priv_page_def)
next
  case (Some a)
  obtain w where w: "po_swpd s a = Some w" using inv Some by (rule lookup_swpd)
  then have w': "po_swpd (radix_tree_remove k s) a = Some w" by simp
  obtain x c where x: "sw_ctx w = Some x" "po_ctx (radix_tree_remove k s) x = Some c"
    using radix_tree_remove_inv [OF inv Some] w' by (rule swpd_ctx)
  then have "\<not> pc_lock c" using assms(2) by (auto simp: unlocked_def)
  then show ?thesis
    using free_priv_page_eq [OF radix_tree_remove_inv [OF inv Some] w' x] Some
    by (simp add: delete_from_priv_def test_swapped_bit_inv [OF inv])
qed

text \<open>Updates that do not touch the tracking state.\<close>

lemma po_inv_untracked [simp]:
  "po_inv E (s\<lparr>po_swap_map := m\<rparr>) = po_inv E s" "po_inv E (s\<lparr>po_disk := d\<rparr>) = po_inv E s"
  by (simp_all add: po_inv_def refs_of_def swpd_ok_def)

lemma put_page_inv:
  assumes inv: "po_inv E s"
    and p: "\<And>a w. po_swpd s a = Some w \<Longrightarrow> sw_scratch w = Some pg \<Longrightarrow> pg_private p = sw_entry w"
  shows "po_inv E (put_page pg p s)"
proof -
  have "swpd_ok (put_page pg p s) w" if "po_swpd s a = Some w" for a w
    using po_invD(7) [OF inv that] p [OF that] by (auto simp: swpd_ok_def)
  moreover have "refs_of (put_page pg p s) = refs_of s" by (simp add: refs_of_def fun_eq_iff)
  ultimately show ?thesis
    using inv by (simp add: po_inv_def)
qed

lemma put_pctx_inv:
  assumes inv: "po_inv E s" and "po_ctx s x = Some c" "pctx_ok c'" "pc_pagecount c \<le> pc_pagecount c'"
  shows "po_inv E (put_pctx x c' s)"
proof -
  have "swpd_ok (put_pctx x c' s) w" if "po_swpd s a = Some w" for a w
    using po_invD(7) [OF inv that] by (auto simp: swpd_ok_def)
  moreover have "refs_of (put_pctx x c' s) = refs_of s" by (simp add: refs_of_def fun_eq_iff)
  moreover have "int (card (refs_of s x)) \<le> pc_pagecount c'"
    using po_invD(9) [OF inv assms(2)] assms(4) by simp
  ultimately show ?thesis
    using inv assms(3) by (simp add: po_inv_def)
qed

lemma swap_entry_free_count:
  obtains n where "swap_entry_free cont k u s = (let s = s\<lparr>po_swap_map := (po_swap_map s)(k := n)\<rparr> in
    if n = 0 then do { s \<leftarrow> set_swapped_bit k 0 s; s \<leftarrow> delete_from_priv k s; Some (n, s) } else Some (n, s))"
  by (rule that) (unfold swap_entry_free_def Let_def split_beta, rule refl)

lemma swap_entry_free_inv:
  assumes inv: "po_inv E s" and "swap_entry_free cont k u s = Some (r, s')"
  shows "po_inv E s'"
proof -
  obtain n where n: "swap_entry_free cont k u s = (let s = s\<lparr>po_swap_map := (po_swap_map s)(k := n)\<rparr> in
      if n = 0 then do { s \<leftarrow> set_swapped_bit k 0 s; s \<leftarrow> delete_from_priv k s; Some (n, s) } else Some (n, s))"
    by (rule swap_entry_free_count)
  define s0 where "s0 = s\<lparr>po_swap_map := (po_swap_map s)(k := n)\<rparr>"
  have inv0: "po_inv E s0" using inv by (simp add: s0_def)
  obtain s1 where s1: "set_swapped_bit k 0 s0 = Some s1" "po_inv E s1" using set_swapped_bit_inv [OF inv0] by blast
  show ?thesis
    using assms(2) inv0 s1 delete_from_priv_inv [OF s1(2), of k s']
    unfolding n Let_def s0_def [symmetric] by (auto split: if_splits Option.bind_splits)
qed

lemma swapcache_free_inv:
  "po_inv E s \<Longrightarrow> swapcache_free cont k s = Some s' \<Longrightarrow> po_inv E s'"
  by (auto simp: swapcache_free_def dest: swap_entry_free_inv split: if_splits)

lemma swap_free_inv:
  "po_inv E s \<Longrightarrow> swap_free cont k s = Some s' \<Longrightarrow> po_inv E s'"
  by (auto simp: swap_free_def dest: swap_entry_free_inv split: if_splits)

subsection \<open>Tracking a page\<close>

lemma map_fst_insort_key: "map fst (insort_key fst (k, a) xs) = insort k (map fst xs)"
  by (induction xs) auto

lemma radix_tree_add_inv:
  assumes inv: "po_inv (insert a E) s" and a: "a \<notin> E"
    and w: "po_swpd s a = Some w" "sw_entry w = k" "k \<noteq> 0" and k: "radix_tree_lookup k s = None"
  shows "po_inv E (radix_tree_add k a s)"
proof (rule po_invI)
  let ?s = "radix_tree_add k a s"
  have fresh: "k \<notin> set (map fst (po_tree s))"
    using k by (simp add: radix_tree_lookup_def map_of_eq_None_iff)
  have set: "set (po_tree ?s) = insert (k, a) (set (po_tree s))" by (simp add: set_insort_key)
  show "sorted (map fst (po_tree ?s))" using po_invD(1) [OF inv] by (simp add: sorted_insort_key)
  show "distinct (map fst (po_tree ?s))"
    using po_invD(2) [OF inv] fresh unfolding radix_tree_frame map_fst_insort_key by (simp add: distinct_insort)
  show "k' \<noteq> 0 \<and> (\<exists>v. po_swpd ?s b = Some v \<and> sw_entry v = k')" if "(k', b) \<in> set (po_tree ?s)" for k' b
    using that w po_invD(3) [OF inv, of k' b] unfolding set by auto
  show "dom (po_swpd ?s) = snd ` set (po_tree ?s) \<union> E" "snd ` set (po_tree ?s) \<inter> E = {}"
    using po_invD(4,5) [OF inv] a unfolding set by auto
  show "finite E" using po_invD(6) [OF inv] by simp
  show "swpd_ok ?s v" if "po_swpd ?s b = Some v" for b v
    using that po_invD(7) [OF inv] swpd_ok_cong [of ?s s v] by simp
  show "b1 = b2" if "po_swpd ?s b1 = Some v1" "po_swpd ?s b2 = Some v2"
    "sw_scratch v1 = Some q" "sw_scratch v2 = Some q" for b1 v1 b2 v2 q
    using that po_invD(8) [OF inv] by simp
  show "pctx_ok c \<and> int (card (refs_of ?s x)) \<le> pc_pagecount c" if "po_ctx ?s x = Some c" for x c
    using that po_invD(9) [OF inv] refs_of_cong [of ?s s x] by simp
qed

text \<open>A new record with a new scratch page, held outside the tree.\<close>

lemma new_swpd_inv:
  assumes inv: "po_inv {} s" and fresh: "po_swpd s a = None" "po_pages s b = None"
    and x: "po_ctx s x = Some c" and w: "sw_ctx w = Some x" "sw_scratch w = Some b" "sw_entry w = pg_private q"
  shows "po_inv {a} (put_page b q (put_swpd a w (put_pctx x (c\<lparr>pc_pagecount := pc_pagecount c + 1\<rparr>) s)))"
    (is "po_inv _ ?s")
proof (rule po_invI)
  have nin: "a \<notin> snd ` set (po_tree s)" using po_invD(4) [OF inv] fresh(1) by (metis Un_iff domIff)
  show "sorted (map fst (po_tree ?s))" "distinct (map fst (po_tree ?s))" "finite {a}"
    "snd ` set (po_tree ?s) \<inter> {a} = {}" "dom (po_swpd ?s) = snd ` set (po_tree ?s) \<union> {a}"
    using po_invD(1,2,4) [OF inv] nin by auto
  show "k \<noteq> 0 \<and> (\<exists>v. po_swpd ?s d = Some v \<and> sw_entry v = k)" if "(k, d) \<in> set (po_tree ?s)" for k d
    using that po_invD(3) [OF inv, of k d] fresh(1) by auto
  have other: "sw_scratch v \<noteq> Some b" if "po_swpd s d = Some v" for d v
    using po_invD(7) [OF inv that] fresh(2) by (auto simp: swpd_ok_def)
  show "swpd_ok ?s v" if v: "po_swpd ?s d = Some v" for d v
  proof (cases "d = a")
    case True
    then show ?thesis using v w by (simp add: swpd_ok_def)
  next
    case False
    then have v: "po_swpd s d = Some v" using v by simp
    then show ?thesis using po_invD(7) [OF inv v] other [OF v] by (auto simp: swpd_ok_def)
  qed
  show "d1 = d2" if "po_swpd ?s d1 = Some v1" "po_swpd ?s d2 = Some v2"
    "sw_scratch v1 = Some r" "sw_scratch v2 = Some r" for d1 v1 d2 v2 r
  proof (cases "d1 = a \<or> d2 = a")
    case True
    then show ?thesis using that w(2) other by (auto split: if_splits)
  next
    case False
    then show ?thesis using that po_invD(8) [OF inv] by simp
  qed
  have refs: "refs_of ?s y = (if y = x then insert a (refs_of s x) else refs_of s y)" for y
    using fresh(1) w(1) by (auto simp: refs_of_def)
  have "card (insert a (refs_of s x)) = card (refs_of s x) + 1"
    using fresh(1) finite_refs_of [OF inv] by (simp add: refs_of_def)
  note card = this
  show "pctx_ok d \<and> int (card (refs_of ?s y)) \<le> pc_pagecount d" if d: "po_ctx ?s y = Some d" for y d
  proof (cases "y = x")
    case True
    then have "d = c\<lparr>pc_pagecount := pc_pagecount c + 1\<rparr>" using d by simp
    then show ?thesis using po_invD(9) [OF inv x] True card unfolding refs by (simp add: pctx_ok_def)
  next
    case False
    then show ?thesis using d po_invD(9) [OF inv, of y d] unfolding refs by simp
  qed
qed

lemma alloc_priv_page_inv:
  assumes inv: "po_inv {} s" and al: "alloc_priv_page buf obj pg (Some x) s = Some (r, s')"
    and fresh: "\<And>a. obj = Some a \<Longrightarrow> po_swpd s a = None" "\<And>b. buf = Some b \<Longrightarrow> po_pages s b = None"
  shows "case r of None \<Rightarrow> po_inv {} s'
    | Some a \<Rightarrow> po_inv {a} s' \<and> (\<exists>w p. po_swpd s' a = Some w \<and> sw_page w = Some pg
        \<and> po_pages s' pg = Some p \<and> sw_entry w = pg_private p)"
proof -
  obtain c where c: "po_ctx s x = Some c"
    using al by (auto simp: alloc_priv_page_def priv_ctx_entry_get_def split: Option.bind_splits)
  define s1 where "s1 = put_pctx x (c\<lparr>pc_pagecount := pc_pagecount c + 1\<rparr>) s"
  have inv1: "po_inv {} s1"
    unfolding s1_def by (rule put_pctx_inv [OF inv c]) (use po_invD(9) [OF inv c] in \<open>auto simp: pctx_ok_def\<close>)
  consider "r = None" "s' = s1" | b a p where "buf = Some b" "obj = Some a" "po_pages s pg = Some p" "r = Some a"
      "s' = put_page b (zero_page (pg_private p)) (put_swpd a \<lparr>sw_ctx = Some x, sw_page = Some pg, sw_scratch = Some b,
         sw_entry = pg_private p, sw_flags = 0\<rparr> s1)"
    using al c by (auto simp: alloc_priv_page_def priv_ctx_entry_get_def s1_def split: option.splits Option.bind_splits)
  then show ?thesis
  proof cases
    case 1
    then show ?thesis using inv1 by simp
  next
    case 2
    have "po_inv {a} s'"
      unfolding 2(5) s1_def
      by (rule new_swpd_inv [OF inv _ _ c]) (use 2 fresh in \<open>auto simp: zero_page_def\<close>)
    moreover have "b \<noteq> pg" using 2(1,3) fresh(2) by auto
    ultimately show ?thesis using 2 by (simp add: s1_def)
  qed
qed

lemma add_to_priv_tree_inv:
  assumes inv: "po_inv {a} s" and w: "po_swpd s a = Some w" "sw_page w = Some pg" "po_pages s pg = Some p"
      "sw_entry w = pg_private p"
    and ad: "add_to_priv_tree preload 0 (Some a) s = Some (r, s')"
  shows "if r = 0 then po_inv {a} s' \<and> po_swpd s' = po_swpd s \<and> po_ctx s' = po_ctx s else po_inv {} s'"
proof (cases "pg_private p = 0 \<or> preload \<noteq> 0")
  case True
  then have "r = 0 \<and> s' = s" using ad w by (auto simp: add_to_priv_tree_def Let_def split: if_splits)
  then show ?thesis using inv by simp
next
  case False
  let ?k = "pg_private p"
  obtain s1 where s1: "free_priv_page (radix_tree_lookup ?k s) (radix_tree_remove ?k s) = Some s1"
    "r = 1" "s' = radix_tree_add ?k a s1"
    using ad w False
    by (auto simp: add_to_priv_tree_def Let_def free_priv_page_def radix_tree_remove_none split: option.splits Option.bind_splits)
  have inv1: "po_inv {a} s1" by (rule drop_tracked [OF inv s1(1)])
  have "po_tree s1 = po_tree (radix_tree_remove ?k s) \<and> po_swpd s1 a = Some w"
  proof (cases "radix_tree_lookup ?k s")
    case None
    then show ?thesis using s1(1) w by (auto simp: free_priv_page_def)
  next
    case (Some d)
    obtain v where v: "po_swpd s d = Some v" "d \<notin> {a}" using inv Some by (rule lookup_swpd)
    then have v': "po_swpd (radix_tree_remove ?k s) d = Some v" by simp
    obtain x c where x: "sw_ctx v = Some x" "po_ctx (radix_tree_remove ?k s) x = Some c"
      using radix_tree_remove_inv [OF inv Some] v' by (rule swpd_ctx)
    have fr: "free_priv_page (Some d) (radix_tree_remove ?k s) = Some s1" using s1(1) Some by simp
    note eq = free_priv_page_eq [OF radix_tree_remove_inv [OF inv Some] v' x]
    show ?thesis using eq [OF free_priv_page_returns [OF fr v' x]] fr w(1) v(2) by auto
  qed
  then have "radix_tree_lookup ?k s1 = None" "po_swpd s1 a = Some w"
    by (auto simp: radix_tree_lookup_def map_of_eq_None_iff)
  then have "po_inv {} s'"
    unfolding s1(3) using radix_tree_add_inv [OF inv1 _ _ w(4)] False by simp
  then show ?thesis using s1(2) by simp
qed

lemma add_to_priv_inv:
  assumes inv: "po_inv {} s" and ad: "add_to_priv buf obj preload 0 pm pg s = Some (r, s')"
    and fresh: "\<And>a. obj = Some a \<Longrightarrow> po_swpd s a = None" "\<And>b. buf = Some b \<Longrightarrow> po_pages s b = None"
  shows "po_inv {} s'"
proof (cases "s' = s")
  case False
  then obtain x where x: "do { (swpd, s) \<leftarrow> alloc_priv_page buf obj pg (Some x) s;
      if swpd = None then Some (0, s)
      else do { (ok, s) \<leftarrow> add_to_priv_tree preload 0 swpd s;
        if ok = 0 then do { s \<leftarrow> free_priv_page swpd s; Some (0, s) } else Some (1, s) } } = Some (r, s')"
    using ad by (auto simp: add_to_priv_def split: if_splits option.splits)
  then obtain sw s1 where s1: "alloc_priv_page buf obj pg (Some x) s = Some (sw, s1)"
    by (auto split: Option.bind_splits)
  note al = alloc_priv_page_inv [OF inv s1 fresh]
  show ?thesis
  proof (cases sw)
    case None
    then show ?thesis using al x s1 by simp
  next
    case (Some a)
    then obtain w p where w: "po_inv {a} s1" "po_swpd s1 a = Some w" "sw_page w = Some pg"
        "po_pages s1 pg = Some p" "sw_entry w = pg_private p" using al by auto
    obtain ok s2 where s2: "add_to_priv_tree preload 0 (Some a) s1 = Some (ok, s2)"
      "if ok = 0 then free_priv_page (Some a) s2 = Some s' else s' = s2"
      using x s1 Some by (auto split: Option.bind_splits if_splits)
    note tr = add_to_priv_tree_inv [OF w s2(1)]
    show ?thesis
    proof (cases "ok = 0")
      case True
      then have i2: "po_inv {a} s2" "po_swpd s2 a = Some w" using tr w(2) by auto
      obtain y d where y: "sw_ctx w = Some y" "po_ctx s2 y = Some d" using i2 by (rule swpd_ctx)
      have "po_inv ({a} - {a}) s'"
        by (rule free_priv_page_inv [OF i2 _ y]) (use s2 True i2 y in \<open>auto dest: free_priv_page_returns\<close>)
      then show ?thesis by simp
    next
      case False
      then show ?thesis using tr s2(2) by simp
    qed
  qed
qed (use inv in simp)

lemma free_scratch_inv:
  assumes inv: "po_inv E s" and w: "po_swpd s a = Some w" "sw_scratch w = Some b"
    and w': "sw_ctx w' = sw_ctx w" "sw_entry w' = sw_entry w" "sw_scratch w' = None"
  shows "po_inv E (put_swpd a w' (s\<lparr>po_pages := (po_pages s)(b := None)\<rparr>))" (is "po_inv E ?s")
proof (rule po_invI)
  have inv': "po_inv E (put_swpd a w' s)" by (rule put_swpd_inv [OF inv w(1) w'(1,2)]) (simp add: w'(3))
  have same: "po_tree ?s = po_tree (put_swpd a w' s)" "po_swpd ?s = po_swpd (put_swpd a w' s)"
    "po_ctx ?s = po_ctx (put_swpd a w' s)" by simp_all
  show "sorted (map fst (po_tree ?s))" "distinct (map fst (po_tree ?s))" "finite E"
    "snd ` set (po_tree ?s) \<inter> E = {}" "dom (po_swpd ?s) = snd ` set (po_tree ?s) \<union> E"
    unfolding same using po_invD(1,2,4,5,6) [OF inv'] by simp_all
  show "k \<noteq> 0 \<and> (\<exists>v. po_swpd ?s d = Some v \<and> sw_entry v = k)" if "(k, d) \<in> set (po_tree ?s)" for k d
    using that unfolding same by (rule po_invD(3) [OF inv'])
  show "d1 = d2" if "po_swpd ?s d1 = Some v1" "po_swpd ?s d2 = Some v2"
    "sw_scratch v1 = Some r" "sw_scratch v2 = Some r" for d1 v1 d2 v2 r
    using that unfolding same by (rule po_invD(8) [OF inv'])
  show "swpd_ok ?s v" if v: "po_swpd ?s d = Some v" for d v
  proof -
    have "sw_scratch v \<noteq> Some b"
      using v w' po_invD(8) [OF inv _ w(1) _ w(2), of d v] by (auto split: if_splits)
    moreover have "swpd_ok (put_swpd a w' s) v" using v unfolding same by (rule po_invD(7) [OF inv'])
    ultimately show ?thesis by (auto simp: swpd_ok_def)
  qed
  show "pctx_ok c \<and> int (card (refs_of ?s x)) \<le> pc_pagecount c" if "po_ctx ?s x = Some c" for x c
    using that po_invD(9) [OF inv'] unfolding same refs_of_cong [OF same(2)] by blast
qed

lemma delete_scratch_page_inv:
  assumes inv: "po_inv E s" and "delete_scratch_page k s = Some s'"
  shows "po_inv E s'"
proof (cases "s' = s")
  case False
  then obtain a w b where w: "po_swpd s a = Some w" "sw_scratch w = Some b"
    "s' = put_swpd a (w\<lparr>sw_scratch := None, sw_page := None\<rparr>) (s\<lparr>po_pages := (po_pages s)(b := None)\<rparr>)"
    using assms(2)
    by (auto simp: delete_scratch_page_def free_scratch_page_def split: if_splits option.splits Option.bind_splits)
  then show ?thesis using free_scratch_inv [OF inv w(1,2), of "w\<lparr>sw_scratch := None, sw_page := None\<rparr>"] by simp
qed (use inv in simp)

section \<open>Out to the device and back\<close>

text \<open>
  \<open>tracked s e a w x c t\<close>: slot \<open>e\<close> is tracked by the record \<open>w\<close> at \<open>a\<close>, whose context \<open>c\<close> at
  \<open>x\<close> is mapped and has the transform \<open>t\<close>.
\<close>

definition tracked ::
  "privos \<Rightarrow> u64 \<Rightarrow> addr \<Rightarrow> priv_swapped_page \<Rightarrow> addr \<Rightarrow> priv_cipher_ctx \<Rightarrow> blkcipher \<Rightarrow> bool" where
  "tracked s e a w x c t \<longleftrightarrow> radix_tree_lookup e s = Some a \<and> po_swpd s a = Some w \<and> sw_entry w = e
     \<and> sw_ctx w = Some x \<and> po_ctx s x = Some c \<and> pc_mapcount c \<noteq> 0 \<and> \<not> pc_lock c
     \<and> pc_cipher c = Some t \<and> length (tfm_iv t) = 16"

abbreviation (input) swap_iv :: bytes where "swap_iv \<equiv> replicate 16 0"

lemma set_iv_zero: "length (tfm_iv t) = 16 \<Longrightarrow> crypto_blkcipher_set_iv t swap_iv = t\<lparr>tfm_iv := swap_iv\<rparr>"
  by (simp add: crypto_blkcipher_set_iv_def mem_write_def)

lemma tracked_find: "tracked s e a w x c t \<Longrightarrow> find_priv_page e s = Some (Some a)"
  by (simp add: tracked_def find_priv_page_def)

lemma priv_encrypt_page_tracked:
  assumes tr: "tracked s (pg_private p) a w x c t" and p: "po_pages s pg = Some p"
    and w: "sw_page w = Some pg" "sw_scratch w = Some b" "po_pages s b = Some q" "pg_private q = pg_private p"
  shows "priv_encrypt_page aes pg s = Some (b,
    put_swpd a (w\<lparr>sw_flags := 1\<rparr>)
      (put_page b (q\<lparr>pg_data := ctr_out (aes (tfm_key t)) swap_iv (pg_data p)\<rparr>)
        (put_pctx x (c\<lparr>pc_cipher := Some (t\<lparr>tfm_iv := ctr_next swap_iv (length (pg_data p))\<rparr>)\<rparr>) s)))"
proof -
  have "set_swapped_bit (pg_private p) v (put_page b q' (put_pctx x c' s)) =
      Some (put_swpd a (w\<lparr>sw_flags := v\<rparr>) (put_page b q' (put_pctx x c' s)))" for v q' c'
    using tr by (simp add: tracked_def set_swapped_bit_def find_priv_page_def radix_tree_lookup_def)
  then show ?thesis
    using tr p w unfolding priv_encrypt_page_def
    by (simp add: tracked_find [OF tr]) (simp add: tracked_def set_iv_zero crypto_ctr_crypt_spec)
qed

lemma priv_decrypt_page_tracked:
  assumes tr: "tracked s (pg_private p) a w x c t" and p: "po_pages s pg = Some p"
  shows "priv_decrypt_page aes pg s = Some (
    put_page pg (p\<lparr>pg_data := ctr_out (aes (tfm_key t)) swap_iv (pg_data p)\<rparr>)
      (put_pctx x (c\<lparr>pc_cipher := Some (t\<lparr>tfm_iv := ctr_next swap_iv (length (pg_data p))\<rparr>)\<rparr>) s))"
  using tr p unfolding priv_decrypt_page_def
  by (simp add: tracked_find [OF tr])
    (simp add: tracked_def set_iv_zero crypto_blkcipher_decrypt_def crypto_ctr_crypt_spec)

text \<open>A page whose slot is not tracked, or whose context nothing maps any more, is left as it is.\<close>

lemma priv_decrypt_page_dead:
  assumes "po_pages s pg = Some p" "find_priv_page (pg_private p) s = Some found"
    "\<And>a w x. found = Some a \<Longrightarrow> po_swpd s a = Some w \<Longrightarrow> sw_ctx w = Some x \<Longrightarrow>
       \<exists>c. po_ctx s x = Some c \<and> pc_mapcount c = 0"
    "\<And>a. found = Some a \<Longrightarrow> po_swpd s a \<noteq> None"
  shows "priv_decrypt_page aes pg s = Some s"
  using assms by (cases found) (force simp: priv_decrypt_page_def split: option.splits)+

text \<open>The whole way out and the whole way in, when the device succeeds.\<close>

definition swap_out :: "aes_fn \<Rightarrow> addr \<Rightarrow> privos \<Rightarrow> privos option" where
  "swap_out aes pg s = do {
     (rc, b, s) \<leftarrow> swap_writepage aes True True pg s;
     b \<leftarrow> b;
     s \<leftarrow> device_write b s;
     end_swap_bio_write True b s }"

definition swap_in :: "aes_fn \<Rightarrow> addr \<Rightarrow> privos \<Rightarrow> privos option" where
  "swap_in aes pg s = do {
     (rc, b, s) \<leftarrow> swap_readpage True pg s;
     b \<leftarrow> b;
     s \<leftarrow> device_read b s;
     end_swap_bio_read aes True b s }"

lemma swap_writepage_tracked:
  assumes tr: "tracked s (pg_private p) a w x c t" and p: "po_pages s pg = Some p" "page_swapcount p s \<noteq> 0"
    and w: "sw_page w = Some pg" "sw_scratch w = Some b" "po_pages s b = Some q" "pg_private q = pg_private p" "b \<noteq> pg"
  shows "swap_writepage aes io True pg s = Some (0, Some \<lparr>bi_page = b, bi_sector = pg_private p\<rparr>,
    put_page pg (p\<lparr>pg_writeback := True, pg_locked := False\<rparr>)
      (put_swpd a (w\<lparr>sw_flags := 1\<rparr>)
        (put_page b (q\<lparr>pg_data := ctr_out (aes (tfm_key t)) swap_iv (pg_data p)\<rparr>)
          (put_pctx x (c\<lparr>pc_cipher := Some (t\<lparr>tfm_iv := ctr_next swap_iv (length (pg_data p))\<rparr>)\<rparr>) s))))"
  using p w priv_encrypt_page_tracked [OF tr p(1) w(1-4), of aes]
  by (simp add: swap_writepage_def try_to_free_swap_def get_swap_bio_def page_flags_def)

lemma swap_out_tracked:
  assumes tr: "tracked s e a w x c t" and p: "po_pages s pg = Some p" "pg_private p = e" "page_swapcount p s \<noteq> 0"
    and w: "sw_page w = Some pg" "sw_scratch w = Some b" "po_pages s b = Some q" "pg_private q = e" "b \<noteq> pg"
    and e: "e \<noteq> 0"
  obtains s' where "swap_out aes pg s = Some s'"
    "po_disk s' = (po_disk s)(e := ctr_out (aes (tfm_key t)) swap_iv (pg_data p))"
    "tracked s' e a (w\<lparr>sw_flags := 1, sw_scratch := None, sw_page := None\<rparr>) x
       (c\<lparr>pc_cipher := Some (t\<lparr>tfm_iv := ctr_next swap_iv (length (pg_data p))\<rparr>)\<rparr>)
       (t\<lparr>tfm_iv := ctr_next swap_iv (length (pg_data p))\<rparr>)"
    "po_pages s' b = None" "po_pages s' pg = Some (p\<lparr>pg_locked := False, pg_writeback := False\<rparr>)"
    "po_tree s' = po_tree s"
proof -
  define out where "out = ctr_out (aes (tfm_key t)) swap_iv (pg_data p)"
  define c' where "c' = c\<lparr>pc_cipher := Some (t\<lparr>tfm_iv := ctr_next swap_iv (length (pg_data p))\<rparr>)\<rparr>"
  define s1 where "s1 = put_page pg (p\<lparr>pg_writeback := True, pg_locked := False\<rparr>)
      (put_swpd a (w\<lparr>sw_flags := 1\<rparr>) (put_page b (q\<lparr>pg_data := out\<rparr>) (put_pctx x c' s)))"
  define s2 where "s2 = s1\<lparr>po_disk := (po_disk s)(e := out)\<rparr>"
  have wr: "swap_writepage aes True True pg s = Some (0, Some \<lparr>bi_page = b, bi_sector = e\<rparr>, s1)"
    using swap_writepage_tracked [of s p a w x c t pg b q aes True] tr p w
    by (simp add: s1_def out_def c'_def)
  have dev: "device_write \<lparr>bi_page = b, bi_sector = e\<rparr> s1 = Some s2"
    using w(5) by (simp add: device_write_def s2_def s1_def)
  have find: "find_priv_page e s2 = Some (Some a)"
    using tr by (simp add: find_priv_page_def radix_tree_lookup_def tracked_def s2_def s1_def)
  have fields: "po_swpd s2 a = Some (w\<lparr>sw_flags := 1\<rparr>)" "po_pages s2 pg = Some (p\<lparr>pg_writeback := True, pg_locked := False\<rparr>)"
    "po_pages s2 b = Some (q\<lparr>pg_data := out\<rparr>)" "po_tree s2 = po_tree s" "po_ctx s2 x = Some c'"
    "po_disk s2 = (po_disk s)(e := out)"
    using w(5) by (simp_all add: s2_def s1_def)
  define s3 where "s3 = put_swpd a (w\<lparr>sw_flags := 1, sw_scratch := None, sw_page := None\<rparr>)
      (s2\<lparr>po_pages := (po_pages s2)(b := None)\<rparr>)"
  have "delete_scratch_page e s2 = Some s3"
    using e w by (simp add: delete_scratch_page_def find fields free_scratch_page_def s3_def)
  then have "end_swap_bio_write True \<lparr>bi_page = b, bi_sector = e\<rparr> s2 =
      Some (put_page pg (p\<lparr>pg_locked := False, pg_writeback := False\<rparr>) s3)"
    using w p(2) by (simp add: end_swap_bio_write_def find fields page_flags_def s3_def)
  then have "swap_out aes pg s = Some (put_page pg (p\<lparr>pg_locked := False, pg_writeback := False\<rparr>) s3)"
    by (simp add: swap_out_def wr dev)
  then show thesis
    by (rule that) (use tr w(5) in \<open>simp_all add: s3_def fields out_def c'_def tracked_def radix_tree_lookup_def\<close>)
qed

lemma swap_in_tracked:
  assumes tr: "tracked s e a w x c t" and p: "po_pages s pg = Some p" "pg_private p = e"
  shows "\<exists>s'. swap_in aes pg s = Some s' \<and> po_disk s' = po_disk s
    \<and> po_pages s' pg = Some (p\<lparr>pg_data := ctr_out (aes (tfm_key t)) swap_iv (po_disk s e),
        pg_uptodate := True, pg_locked := False\<rparr>)"
proof -
  define s1 where "s1 = put_page pg (p\<lparr>pg_data := po_disk s e\<rparr>) s"
  have "tracked s1 e a w x c t" using tr by (simp add: tracked_def s1_def radix_tree_lookup_def)
  then have d: "priv_decrypt_page aes pg s1 = Some (
      put_page pg (p\<lparr>pg_data := ctr_out (aes (tfm_key t)) swap_iv (po_disk s e)\<rparr>)
        (put_pctx x (c\<lparr>pc_cipher := Some (t\<lparr>tfm_iv := ctr_next swap_iv (length (po_disk s e))\<rparr>)\<rparr>) s1))"
    using priv_decrypt_page_tracked [of s1 "p\<lparr>pg_data := po_disk s e\<rparr>" a w x c t pg aes] p(2)
    by (simp add: s1_def)
  have "device_read \<lparr>bi_page = pg, bi_sector = e\<rparr> s = Some s1" using p by (simp add: device_read_def s1_def)
  then show ?thesis
    using p d by (simp add: swap_in_def swap_readpage_def get_swap_bio_def end_swap_bio_read_def page_flags_def s1_def)
qed

section \<open>Every operation keeps the invariant\<close>

text \<open>\<open>ctx_le s s'\<close>: an operation may free contexts and change their page counts, nothing else.\<close>

definition ctx_le :: "privos \<Rightarrow> privos \<Rightarrow> bool" where
  "ctx_le s s' \<longleftrightarrow> (\<forall>x c'. po_ctx s' x = Some c' \<longrightarrow> (\<exists>c. po_ctx s x = Some c
     \<and> pc_lock c' = pc_lock c \<and> pc_mapcount c' = pc_mapcount c \<and> pc_cipher c' = pc_cipher c))"

lemma ctx_le_same: "po_ctx s' = po_ctx s \<Longrightarrow> ctx_le s s'"
  by (simp add: ctx_le_def)

lemma ctx_le_trans: "ctx_le s s1 \<Longrightarrow> ctx_le s1 s2 \<Longrightarrow> ctx_le s s2"
  unfolding ctx_le_def by metis

lemma ctx_le_unlocked: "ctx_le s s' \<Longrightarrow> unlocked s \<Longrightarrow> unlocked s'"
  unfolding ctx_le_def unlocked_def by metis

lemma free_priv_page_le: "free_priv_page a s = Some s' \<Longrightarrow> ctx_le s s'"
  unfolding ctx_le_def
  by (auto simp: free_priv_page_def priv_ctx_entry_put_def free_scratch_page_def Let_def put_pctx_def
      split: option.splits Option.bind_splits if_splits)

lemma set_swapped_bit_le: "set_swapped_bit k v s = Some s' \<Longrightarrow> ctx_le s s'"
  by (rule ctx_le_same) (auto simp: set_swapped_bit_def split: option.splits Option.bind_splits)

lemma delete_from_priv_le: "delete_from_priv k s = Some s' \<Longrightarrow> ctx_le s s'"
  using free_priv_page_le [of _ "radix_tree_remove k s" s']
  by (auto simp: delete_from_priv_def ctx_le_def split: if_splits Option.bind_splits)

lemma swap_entry_free_le:
  assumes "swap_entry_free cont k u s = Some (r, s')"
  shows "ctx_le s s'"
proof -
  obtain n where n: "swap_entry_free cont k u s = (let s = s\<lparr>po_swap_map := (po_swap_map s)(k := n)\<rparr> in
      if n = 0 then do { s \<leftarrow> set_swapped_bit k 0 s; s \<leftarrow> delete_from_priv k s; Some (n, s) } else Some (n, s))"
    by (rule swap_entry_free_count)
  define s0 where "s0 = s\<lparr>po_swap_map := (po_swap_map s)(k := n)\<rparr>"
  have "ctx_le s s0" by (rule ctx_le_same) (simp add: s0_def)
  moreover have "s' = s0 \<or> (\<exists>s1. set_swapped_bit k 0 s0 = Some s1 \<and> delete_from_priv k s1 = Some s')"
    using assms unfolding n Let_def s0_def [symmetric] by (auto split: if_splits Option.bind_splits)
  ultimately show ?thesis using ctx_le_trans set_swapped_bit_le delete_from_priv_le by metis
qed

lemma swapcache_free_le: "swapcache_free cont k s = Some s' \<Longrightarrow> ctx_le s s'"
  by (auto simp: swapcache_free_def ctx_le_same dest: swap_entry_free_le split: if_splits)

lemma swap_free_le: "swap_free cont k s = Some s' \<Longrightarrow> ctx_le s s'"
  by (auto simp: swap_free_def ctx_le_same dest: swap_entry_free_le split: if_splits)

lemma delete_victim_step:
  assumes "po_inv E s" "(if b then set_swapped_bit k 0 s else Some s) = Some s1"
    "(if d then swapcache_free False k' s1 else Some s1) = Some s2"
  shows "po_inv E s2 \<and> ctx_le s s2"
proof -
  have "po_inv E s1 \<and> ctx_le s s1"
    using assms(1,2) set_swapped_bit_inv [OF assms(1), of k 0] set_swapped_bit_le
    by (auto simp: ctx_le_same split: if_splits)
  then show ?thesis
    using assms(3) swapcache_free_inv swapcache_free_le ctx_le_trans by (cases d) auto
qed

lemma delete_victims_inv:
  "po_inv E s \<Longrightarrow> delete_victims vs s = Some s' \<Longrightarrow> po_inv E s' \<and> ctx_le s s'"
proof (induction vs arbitrary: s)
  case (Cons v vs)
  from Cons.prems(2) obtain b k s1 d k' s2 where
    "(if b then set_swapped_bit k 0 s else Some s) = Some s1"
    "(if d then swapcache_free False k' s1 else Some s1) = Some s2" "delete_victims vs s2 = Some s'"
    by (auto simp del: not_None_eq split: Option.bind_splits)
  with Cons.IH [of s2] delete_victim_step [OF Cons.prems(1), of b k s1 d k' s2] ctx_le_trans
  show ?case by blast
qed (simp add: ctx_le_same)

lemma delete_all_loop_inv:
  assumes "delete_all_loop i s = Some s'" "po_inv E s"
  shows "po_inv E s' \<and> ctx_le s s'"
  using assms
proof (induction rule: delete_all_loop.raw_induct [rotated, consumes 1])
  case (1 loop i s s')
  let ?vs = "radix_tree_gang_lookup i 64 s"
  from 1(2) obtain s1 where s1: "delete_victims ?vs s = Some s1" by (auto simp: Let_def split: Option.bind_splits)
  then have d: "po_inv E s1 \<and> ctx_le s s1" using delete_victims_inv [OF 1(3)] by blast
  show ?case
  proof (cases "?vs = []")
    case True
    then show ?thesis using 1(2) s1 d by simp
  next
    case False
    then obtain j where "loop j s1 = Some s'" using 1(2) s1 by (auto simp: Let_def split: Option.bind_splits)
    then show ?thesis using 1(1) d ctx_le_trans by blast
  qed
qed

lemma delete_all_from_priv_inv:
  "delete_all_from_priv s = Some s' \<Longrightarrow> po_inv E s \<Longrightarrow> po_inv E s' \<and> ctx_le s s'"
  unfolding delete_all_from_priv_def by (rule delete_all_loop_inv)

lemma free_pctx_inv:
  assumes inv: "po_inv E s" and c: "po_ctx s x = Some c" "pc_pagecount c = 0"
  shows "po_inv E (s\<lparr>po_ctx := (po_ctx s)(x := None)\<rparr>)" (is "po_inv E ?s")
proof (rule po_invI)
  have "refs_of s x = {}" using po_invD(9) [OF inv c(1)] c(2) finite_refs_of [OF inv, of x] by simp
  then have other: "sw_ctx w \<noteq> Some x" if "po_swpd s a = Some w" for a w
    using that by (auto simp: refs_of_def)
  show "sorted (map fst (po_tree ?s))" "distinct (map fst (po_tree ?s))" "finite E"
    "snd ` set (po_tree ?s) \<inter> E = {}" "dom (po_swpd ?s) = snd ` set (po_tree ?s) \<union> E"
    using po_invD(1,2,4,5,6) [OF inv] by simp_all
  show "k \<noteq> 0 \<and> (\<exists>v. po_swpd ?s d = Some v \<and> sw_entry v = k)" if "(k, d) \<in> set (po_tree ?s)" for k d
    using that po_invD(3) [OF inv] by simp
  show "d1 = d2" if "po_swpd ?s d1 = Some v1" "po_swpd ?s d2 = Some v2"
    "sw_scratch v1 = Some r" "sw_scratch v2 = Some r" for d1 v1 d2 v2 r
    using that po_invD(8) [OF inv] by simp
  show "swpd_ok ?s v" if "po_swpd ?s d = Some v" for d v
    using that po_invD(7) [OF inv, of d v] other [of d v] by (auto simp: swpd_ok_def)
  show "pctx_ok d \<and> int (card (refs_of ?s y)) \<le> pc_pagecount d" if "po_ctx ?s y = Some d" for y d
    using that po_invD(9) [OF inv] refs_of_cong [of ?s s y] by (simp split: if_splits)
qed

definition po_ok :: "privos \<Rightarrow> bool" where
  "po_ok s \<longleftrightarrow> po_inv {} s \<and> unlocked s"

lemma po_okI: "po_ok s \<Longrightarrow> po_inv {} s' \<Longrightarrow> ctx_le s s' \<Longrightarrow> po_ok s'"
  unfolding po_ok_def using ctx_le_unlocked by blast

lemma priv_ctx_put_ok:
  assumes ok: "po_ok s" and c: "po_ctx s x = Some c" "0 < pc_mapcount c"
    and put: "priv_ctx_put (Some x) s = Some (s', t)"
  shows "po_ok s'"
proof (cases "pc_mapcount c = 1")
  case False
  then have s': "s' = put_pctx x (c\<lparr>pc_mapcount := pc_mapcount c - 1\<rparr>) s"
    using put c by (simp add: priv_ctx_put_def Let_def)
  have "po_inv {} s'"
    unfolding s' using ok c False po_invD(9) [OF _ c(1), of "{}"]
    by (intro put_pctx_inv [OF _ c(1)]) (auto simp: po_ok_def pctx_ok_def)
  moreover have "unlocked s'" using ok c by (auto simp: po_ok_def unlocked_def s')
  ultimately show ?thesis by (simp add: po_ok_def)
next
  case True
  have inv: "po_inv {} s" and un: "unlocked s" using ok by (simp_all add: po_ok_def)
  have unl: "\<not> pc_lock c" using un c(1) by (simp add: unlocked_def)
  define s0 where "s0 = put_pctx x (c\<lparr>pc_mapcount := 0, pc_lock := True\<rparr>) s"
  have inv0: "po_inv {} s0"
    unfolding s0_def by (rule put_pctx_inv [OF inv c(1)]) (use po_invD(9) [OF inv c(1)] in \<open>auto simp: pctx_ok_def\<close>)
  obtain s1 d where s1: "delete_all_from_priv s0 = Some s1" "po_ctx s1 x = Some d"
    "s' = (if pc_pagecount d = 0 then s1\<lparr>po_ctx := (po_ctx s1)(x := None)\<rparr>
       else put_pctx x (d\<lparr>pc_cipher := None, pc_mapcount := 0, pc_lock := False\<rparr>) s1)"
    using put c True unl
    by (auto simp: priv_ctx_put_def Let_def s0_def split: Option.bind_splits if_splits prod.splits)
  have inv1: "po_inv {} s1" and le: "ctx_le s0 s1" using delete_all_from_priv_inv [OF s1(1) inv0] by blast+
  have "po_inv {} s'"
    unfolding s1(3) using free_pctx_inv [OF inv1 s1(2)] put_pctx_inv [OF inv1 s1(2)]
    by (auto simp: pctx_ok_def)
  moreover have "unlocked s'"
    using le un unfolding s1(3) unlocked_def ctx_le_def s0_def by (auto split: if_splits)
  ultimately show ?thesis by (simp add: po_ok_def)
qed

lemma priv_ctx_get_ok:
  assumes ok: "po_ok s" and get: "priv_ctx_get ctx s = Some (r, s')"
  shows "po_ok s'"
proof (cases "s' = s")
  case False
  then obtain x c where c: "po_ctx s x = Some c" "pc_mapcount c \<noteq> 0"
    "s' = put_pctx x (c\<lparr>pc_mapcount := pc_mapcount c + 1\<rparr>) s"
    using get by (auto simp: priv_ctx_get_def split: option.splits Option.bind_splits if_splits)
  have "po_inv {} s'"
    unfolding c(3) using ok c(2) po_invD(9) [OF _ c(1), of "{}"]
    by (intro put_pctx_inv [OF _ c(1)]) (auto simp: po_ok_def pctx_ok_def)
  moreover have "unlocked s'" using ok c(1) by (auto simp: po_ok_def unlocked_def c(3))
  ultimately show ?thesis by (simp add: po_ok_def)
qed (use ok in simp)

lemma priv_ctx_alloc_ok:
  assumes ok: "po_ok s" and al: "priv_ctx_alloc rng key a desc err s = Some (r, s')"
    and key: "32 \<le> length key" and fresh: "\<And>x. a = Some x \<Longrightarrow> po_ctx s x = None"
  shows "po_ok s'"
proof (cases "s' = s")
  case False
  then obtain x where x: "a = Some x"
    "s' = put_pctx x \<lparr>pc_lock = False, pc_pagecount = 0, pc_mapcount = 1,
       pc_cipher = Some \<lparr>tfm_key = take 32 key, tfm_iv = replicate 16 0\<rparr>\<rparr> s"
    using al key
    by (auto simp: priv_ctx_alloc_def crypto_alloc_blkcipher_def crypto_blkcipher_setkey_def min_def
        split: if_splits option.splits)
  have inv: "po_inv {} s" using ok by (simp add: po_ok_def)
  have none: "po_ctx s x = None" using fresh x(1) by simp
  have ref: "sw_ctx w \<noteq> Some x" if "po_swpd s b = Some w" for b w
    using po_invD(7) [OF inv that] none by (auto simp: swpd_ok_def)
  have "po_inv {} s'"
  proof (rule po_invI)
    show "sorted (map fst (po_tree s'))" "distinct (map fst (po_tree s'))" "finite {}"
      "snd ` set (po_tree s') \<inter> {} = {}" "dom (po_swpd s') = snd ` set (po_tree s') \<union> {}"
      using po_invD(1,2,4) [OF inv] by (simp_all add: x(2))
    show "k \<noteq> 0 \<and> (\<exists>v. po_swpd s' d = Some v \<and> sw_entry v = k)" if "(k, d) \<in> set (po_tree s')" for k d
      using that po_invD(3) [OF inv] by (simp add: x(2))
    show "d1 = d2" if "po_swpd s' d1 = Some v1" "po_swpd s' d2 = Some v2"
      "sw_scratch v1 = Some r" "sw_scratch v2 = Some r" for d1 v1 d2 v2 r
      using that po_invD(8) [OF inv] by (simp add: x(2))
    show "swpd_ok s' v" if "po_swpd s' d = Some v" for d v
      using that po_invD(7) [OF inv, of d v] none by (auto simp: swpd_ok_def x(2))
    have refs: "refs_of s' y = refs_of s y" for y by (rule refs_of_cong) (simp add: x(2))
    have none_refs: "refs_of s x = {}" using ref by (auto simp: refs_of_def)
    show "pctx_ok d \<and> int (card (refs_of s' y)) \<le> pc_pagecount d" if "po_ctx s' y = Some d" for y d
      using that po_invD(9) [OF inv, of y d] key none_refs unfolding refs
      by (cases "y = x") (auto simp: x(2) pctx_ok_def)
  qed
  moreover have "unlocked s'" using ok by (auto simp: po_ok_def unlocked_def x(2))
  ultimately show ?thesis by (simp add: po_ok_def)
qed (use ok in simp)

text \<open>
  The pages the memory manager hands to the swap path are its own, never the scratch pages
  that the records own.
\<close>

definition is_scratch :: "privos \<Rightarrow> addr \<Rightarrow> bool" where
  "is_scratch s pg \<longleftrightarrow> (\<exists>a w. po_swpd s a = Some w \<and> sw_scratch w = Some pg)"

lemma put_own_page_ok: "po_ok s \<Longrightarrow> \<not> is_scratch s pg \<Longrightarrow> po_ok (put_page pg p s)"
  unfolding po_ok_def is_scratch_def by (auto simp: unlocked_def intro!: put_page_inv)

lemma put_same_entry_ok:
  assumes "po_ok s" "po_pages s pg = Some p" "pg_private p' = pg_private p"
  shows "po_ok (put_page pg p' s)"
proof -
  have "po_inv {} (put_page pg p' s)"
  proof (rule put_page_inv)
    show "po_inv {} s" using assms(1) by (simp add: po_ok_def)
    then show "pg_private p' = sw_entry w" if "po_swpd s a = Some w" "sw_scratch w = Some pg" for a w
      using po_invD(7) [OF _ that(1)] that(2) assms(2,3) by (auto simp: swpd_ok_def)
  qed
  then show ?thesis using assms(1) by (simp add: po_ok_def unlocked_def)
qed

lemma page_flags_ok:
  assumes "po_ok s" "page_flags f pg s = Some s'" "\<And>p. pg_private (f p) = pg_private p"
  shows "po_ok s'"
  using assms put_same_entry_ok by (auto simp: page_flags_def split: Option.bind_splits)

lemma set_swapped_bit_ok: "po_ok s \<Longrightarrow> set_swapped_bit k v s = Some s' \<Longrightarrow> po_ok s'"
  using set_swapped_bit_inv [of "{}" s k v] by (auto simp: po_ok_def unlocked_def)

lemma delete_from_priv_ok: "po_ok s \<Longrightarrow> delete_from_priv k s = Some s' \<Longrightarrow> po_ok s'"
  using delete_from_priv_inv delete_from_priv_le po_okI by (metis po_ok_def)

lemma swapcache_free_ok: "po_ok s \<Longrightarrow> swapcache_free cont k s = Some s' \<Longrightarrow> po_ok s'"
  using swapcache_free_inv swapcache_free_le po_okI by (metis po_ok_def)

lemma swap_free_ok: "po_ok s \<Longrightarrow> swap_free cont k s = Some s' \<Longrightarrow> po_ok s'"
  using swap_free_inv swap_free_le po_okI by (metis po_ok_def)

lemma put_cipher_ok:
  assumes ok: "po_ok s" and c: "po_ctx s x = Some c" "pc_cipher c = Some t"
    and t': "tfm_key t' = tfm_key t" "length (tfm_iv t') = 16"
  shows "po_ok (put_pctx x (c\<lparr>pc_cipher := Some t'\<rparr>) s)"
proof -
  have "pctx_ok c" "\<not> pc_lock c" using ok c(1) po_invD(9) by (auto simp: po_ok_def unlocked_def)
  then have "po_inv {} (put_pctx x (c\<lparr>pc_cipher := Some t'\<rparr>) s)"
    using ok c t' by (intro put_pctx_inv [OF _ c(1)]) (auto simp: po_ok_def pctx_ok_def)
  then show ?thesis using ok c(1) by (auto simp: po_ok_def unlocked_def)
qed

text \<open>A context whose cipher the code uses has one: it is mapped.\<close>

lemma tracked_of_lookup:
  assumes ok: "po_ok s" and a: "radix_tree_lookup e s = Some a" "po_swpd s a = Some w" "sw_ctx w = Some x"
    and c: "po_ctx s x = Some c" "pc_cipher c = Some t"
  shows "tracked s e a w x c t"
proof -
  have inv: "po_inv {} s" and un: "\<not> pc_lock c" using ok c by (auto simp: po_ok_def unlocked_def)
  have "pctx_ok c" using po_invD(9) [OF inv c(1)] by blast
  moreover have "sw_entry w = e" using lookup_swpd [OF inv a(1)] a(2) by (metis option.inject)
  ultimately show ?thesis using a c un by (auto simp: tracked_def pctx_ok_def)
qed

lemma priv_decrypt_page_ok:
  assumes ok: "po_ok s" and dec: "priv_decrypt_page aes pg s = Some s'"
  shows "po_ok s'"
proof (cases "s' = s")
  case False
  have inv: "po_inv {} s" using ok by (simp add: po_ok_def)
  from False dec obtain p a w x c t where p: "po_pages s pg = Some p" "radix_tree_lookup (pg_private p) s = Some a"
      "po_swpd s a = Some w" "sw_ctx w = Some x" "po_ctx s x = Some c" "pc_cipher c = Some t"
    by (auto simp: priv_decrypt_page_def find_priv_page_inv [OF inv] split: option.splits Option.bind_splits if_splits)
  note tr = tracked_of_lookup [OF ok p(2-6)]
  let ?c = "c\<lparr>pc_cipher := Some (t\<lparr>tfm_iv := ctr_next swap_iv (length (pg_data p))\<rparr>)\<rparr>"
  have "po_ok (put_pctx x ?c s)" by (rule put_cipher_ok [OF ok p(5,6)]) simp_all
  then show ?thesis
    using dec priv_decrypt_page_tracked [OF tr p(1), of aes] put_same_entry_ok [of "put_pctx x ?c s" pg p] p(1) by auto
qed (use ok in simp)

lemma priv_encrypt_page_ok:
  assumes ok: "po_ok s" and enc: "priv_encrypt_page aes pg s = Some (out, s')"
  shows "po_ok s'"
proof -
  have inv: "po_inv {} s" using ok by (simp add: po_ok_def)
  obtain p where p: "po_pages s pg = Some p" using enc by (auto simp: priv_encrypt_page_def split: Option.bind_splits)
  let ?e = "pg_private p"
  have found: "find_priv_page ?e s = Some (radix_tree_lookup ?e s)" by (rule find_priv_page_inv [OF inv])
  consider "s' = s" | s1 where "set_swapped_bit ?e 0 s = Some s1" "delete_from_priv ?e s1 = Some s'"
    | a w x c t b q where "radix_tree_lookup ?e s = Some a" "po_swpd s a = Some w" "sw_ctx w = Some x"
        "po_ctx s x = Some c" "pc_cipher c = Some t" "sw_page w = Some pg" "sw_scratch w = Some b"
        "po_pages s b = Some q" "pg_private q = ?e"
  proof (cases "radix_tree_lookup ?e s")
    case None
    then show thesis using that(1) enc p found by (simp add: priv_encrypt_page_def Let_def)
  next
    case (Some a)
    obtain w where w: "po_swpd s a = Some w" using inv Some by (rule lookup_swpd)
    obtain x c where x: "sw_ctx w = Some x" "po_ctx s x = Some c" using inv w by (rule swpd_ctx)
    note eq = enc [unfolded priv_encrypt_page_def Let_def]
    show thesis
    proof (cases "sw_page w \<noteq> Some pg \<or> sw_scratch w = None")
      case True
      then show thesis using that(2) eq p found Some w x by (auto split: Option.bind_splits if_splits)
    next
      case False
      then obtain b where b: "sw_page w = Some pg" "sw_scratch w = Some b" by blast
      then obtain q t where "po_pages s b = Some q" "pg_private q = ?e" "pc_cipher c = Some t"
        using eq p found Some w x by (auto split: Option.bind_splits if_splits)
      then show thesis using that(3) Some w x b by blast
    qed
  qed
  then show ?thesis
  proof cases
    case 1
    then show ?thesis using ok by simp
  next
    case 2
    then show ?thesis using ok set_swapped_bit_ok delete_from_priv_ok by blast
  next
    case 3
    note tr = tracked_of_lookup [OF ok 3(1-5)]
    let ?s1 = "put_pctx x (c\<lparr>pc_cipher := Some (t\<lparr>tfm_iv := ctr_next swap_iv (length (pg_data p))\<rparr>)\<rparr>) s"
    let ?s2 = "put_page b (q\<lparr>pg_data := ctr_out (aes (tfm_key t)) swap_iv (pg_data p)\<rparr>) ?s1"
    have "po_ok ?s1" by (rule put_cipher_ok [OF ok 3(4,5)]) simp_all
    then have ok2: "po_ok ?s2" using put_same_entry_ok [of ?s1 b q] 3(8) by simp
    have s': "s' = put_swpd a (w\<lparr>sw_flags := 1\<rparr>) ?s2"
      using enc priv_encrypt_page_tracked [OF tr p 3(6-9), of aes] by auto
    have "po_inv {} s'"
      unfolding s' by (rule put_swpd_inv [of "{}" ?s2 a w]) (use ok2 3(2) in \<open>simp_all add: po_ok_def\<close>)
    then show ?thesis using ok2 by (simp add: po_ok_def unlocked_def s')
  qed
qed

lemma delete_from_swap_cache_ok:
  assumes "po_ok s" "\<not> is_scratch s pg" "delete_from_swap_cache pg s = Some s'"
  shows "po_ok s'"
  using assms(3) swapcache_free_ok [OF put_own_page_ok [OF assms(1,2)]]
  by (auto simp: delete_from_swap_cache_def split: Option.bind_splits)

lemma try_to_free_swap_ok:
  assumes ok: "po_ok s" and pg: "\<not> is_scratch s pg" and fr: "try_to_free_swap io pg s = Some (r, s')"
  shows "po_ok s'"
proof (cases "s' = s")
  case False
  then obtain s1 p where s1: "delete_from_swap_cache pg s = Some s1" "po_pages s1 pg = Some p"
    "s' = put_page pg (p\<lparr>pg_dirty := True\<rparr>) s1"
    using fr by (auto simp: try_to_free_swap_def split: Option.bind_splits if_splits)
  then show ?thesis using put_same_entry_ok [OF delete_from_swap_cache_ok [OF ok pg s1(1)] s1(2)] by simp
qed (use ok in simp)

lemma swap_writepage_ok:
  assumes ok: "po_ok s" and pg: "\<not> is_scratch s pg" and wr: "swap_writepage aes io b pg s = Some (r, bio, s')"
  shows "po_ok s'"
proof -
  obtain fr s1 where s1: "try_to_free_swap io pg s = Some (fr, s1)"
    using wr by (auto simp: swap_writepage_def split: Option.bind_splits)
  have ok1: "po_ok s1" using try_to_free_swap_ok [OF ok pg s1] .
  note eq = wr [unfolded swap_writepage_def s1 get_swap_bio_def]
  show ?thesis
  proof (cases "fr \<or> \<not> b")
    case True
    then obtain s2 f where "po_ok s2" "page_flags f pg s2 = Some s'" "\<And>p. pg_private (f p) = pg_private p"
      using eq ok1 set_swapped_bit_ok [OF ok1] by (cases fr) (force split: Option.bind_splits)+
    then show ?thesis by (rule page_flags_ok)
  next
    case False
    then obtain out s2 where "priv_encrypt_page aes pg s1 = Some (out, s2)"
      "page_flags (\<lambda>p. p\<lparr>pg_writeback := True, pg_locked := False\<rparr>) pg s2 = Some s'"
      using eq by (auto split: Option.bind_splits)
    then show ?thesis using page_flags_ok [OF priv_encrypt_page_ok [OF ok1]] by simp
  qed
qed

lemma delete_scratch_page_ok:
  assumes "po_ok s" "delete_scratch_page k s = Some s'"
  shows "po_ok s'"
proof (rule po_okI [OF assms(1)])
  show "po_inv {} s'" using assms delete_scratch_page_inv unfolding po_ok_def by blast
  show "ctx_le s s'"
    using assms(2) by (intro ctx_le_same)
      (auto simp: delete_scratch_page_def free_scratch_page_def split: if_splits option.splits Option.bind_splits)
qed

lemma end_swap_bio_write_ok:
  assumes ok: "po_ok s" and en: "end_swap_bio_write u b s = Some s'"
  shows "po_ok s'"
proof -
  obtain s1 pg where s1: "po_ok s1" "do { s \<leftarrow> (if \<not> u
       then page_flags (\<lambda>p. p\<lparr>pg_error := True, pg_dirty := True, pg_reclaim := False\<rparr>) pg s1 else Some s1);
     page_flags (\<lambda>p. p\<lparr>pg_writeback := False\<rparr>) pg s } = Some s'"
    using en ok delete_scratch_page_ok [OF ok]
    by (auto simp: end_swap_bio_write_def split: Option.bind_splits option.splits)
  then obtain s2 where "(if \<not> u
       then page_flags (\<lambda>p. p\<lparr>pg_error := True, pg_dirty := True, pg_reclaim := False\<rparr>) pg s1 else Some s1) = Some s2"
     "page_flags (\<lambda>p. p\<lparr>pg_writeback := False\<rparr>) pg s2 = Some s'"
    by (auto split: Option.bind_splits)
  moreover from this(1) s1(1) have "po_ok s2"
    by (cases u) (auto intro: page_flags_ok)
  ultimately show ?thesis by (auto intro: page_flags_ok)
qed

lemma end_swap_bio_read_ok:
  assumes ok: "po_ok s" and en: "end_swap_bio_read aes u b s = Some s'"
  shows "po_ok s'"
proof -
  obtain s1 where s1: "(if \<not> u then page_flags (\<lambda>p. p\<lparr>pg_error := True, pg_uptodate := False\<rparr>) (bi_page b) s
      else do { s \<leftarrow> priv_decrypt_page aes (bi_page b) s;
        page_flags (\<lambda>p. p\<lparr>pg_uptodate := True\<rparr>) (bi_page b) s }) = Some s1"
    "page_flags (\<lambda>p. p\<lparr>pg_locked := False\<rparr>) (bi_page b) s1 = Some s'"
    using en by (auto simp: end_swap_bio_read_def split: Option.bind_splits)
  have "po_ok s1"
  proof (cases u)
    case True
    then obtain s0 where "priv_decrypt_page aes (bi_page b) s = Some s0"
      "page_flags (\<lambda>p. p\<lparr>pg_uptodate := True\<rparr>) (bi_page b) s0 = Some s1"
      using s1(1) by (auto split: Option.bind_splits)
    then show ?thesis using page_flags_ok [OF priv_decrypt_page_ok [OF ok]] by simp
  next
    case False
    then show ?thesis using s1(1) ok by (auto intro: page_flags_ok)
  qed
  then show ?thesis using s1(2) by (auto intro: page_flags_ok)
qed

lemma unlocked_radix [simp]:
  "unlocked (radix_tree_add k a s) = unlocked s" "unlocked (radix_tree_remove k s) = unlocked s"
  by (simp_all add: unlocked_def)

lemma free_priv_page_unlocked: "unlocked s \<Longrightarrow> free_priv_page a s = Some s' \<Longrightarrow> unlocked s'"
  using free_priv_page_le ctx_le_unlocked by blast

lemma alloc_priv_page_unlocked:
  "unlocked s \<Longrightarrow> alloc_priv_page buf obj pg x s = Some (r, s') \<Longrightarrow> unlocked s'"
  by (auto simp: alloc_priv_page_def priv_ctx_entry_get_def unlocked_def
      split: option.splits Option.bind_splits if_splits)

lemma add_to_priv_tree_unlocked:
  assumes un: "unlocked s" and ad: "add_to_priv_tree preload ins (Some a) s = Some (r, s')"
  shows "unlocked s'"
proof (cases "s' = s")
  case False
  then obtain k s1 where s1: "(case radix_tree_lookup k s of None \<Rightarrow> Some s
      | Some old \<Rightarrow> free_priv_page (Some old) (radix_tree_remove k s)) = Some s1"
    "free_priv_page (Some a) s1 = Some s' \<or> s' = radix_tree_add k a s1"
    using ad by (auto simp: add_to_priv_tree_def Let_def split: Option.bind_splits if_splits)
  have "unlocked s1"
    using s1(1) un free_priv_page_unlocked [of "radix_tree_remove k s"] by (auto split: option.splits)
  then show ?thesis using s1(2) free_priv_page_unlocked by auto
qed (use un in simp)

lemma add_to_priv_unlocked:
  assumes un: "unlocked s" and ad: "add_to_priv buf obj preload ins pm pg s = Some (r, s')"
  shows "unlocked s'"
proof (cases "s' = s")
  case False
  then obtain x a s1 where s1: "alloc_priv_page buf obj pg (Some x) s = Some (a, s1)"
    "s' = s1 \<or> (\<exists>b ok s2. a = Some b \<and> add_to_priv_tree preload ins (Some b) s1 = Some (ok, s2)
       \<and> (s' = s2 \<or> free_priv_page (Some b) s2 = Some s'))"
    using ad by (auto simp: add_to_priv_def split: if_splits option.splits Option.bind_splits)
  note un1 = alloc_priv_page_unlocked [OF un s1(1)]
  then show ?thesis
    using s1(2) add_to_priv_tree_unlocked [OF un1] free_priv_page_unlocked by metis
qed (use un in simp)

section \<open>Reachable states\<close>

text \<open>
  What happens to the tracking state: contexts are created, shared and dropped (only by a
  holder), pages are tracked, written, read and released, and the device completes its
  transfers. New objects get addresses that are not in use. An insertion into a tree whose
  nodes have been preloaded does not fail.
\<close>

inductive privos_step :: "aes_fn \<Rightarrow> privos \<Rightarrow> privos \<Rightarrow> bool" for aes where
  Alloc: "priv_ctx_alloc rng key a desc err s = Some (r, s') \<Longrightarrow> 32 \<le> length key \<Longrightarrow>
    (\<And>x. a = Some x \<Longrightarrow> po_ctx s x = None) \<Longrightarrow> privos_step aes s s'"
| Get: "priv_ctx_get ctx s = Some (n, s') \<Longrightarrow> privos_step aes s s'"
| Put: "po_ctx s x = Some c \<Longrightarrow> 0 < pc_mapcount c \<Longrightarrow> priv_ctx_put (Some x) s = Some (s', t) \<Longrightarrow>
    privos_step aes s s'"
| Add: "add_to_priv buf obj preload 0 pm pg s = Some (n, s') \<Longrightarrow>
    (\<And>a. obj = Some a \<Longrightarrow> po_swpd s a = None) \<Longrightarrow> (\<And>b. buf = Some b \<Longrightarrow> po_pages s b = None) \<Longrightarrow>
    privos_step aes s s'"
| Page: "\<not> is_scratch s pg \<Longrightarrow> privos_step aes s (put_page pg p s)"
| Dup: "privos_step aes s (s\<lparr>po_swap_map := m\<rparr>)"
| Free: "swap_free cont k s = Some s' \<Longrightarrow> privos_step aes s s'"
| Cache: "\<not> is_scratch s pg \<Longrightarrow> delete_from_swap_cache pg s = Some s' \<Longrightarrow> privos_step aes s s'"
| Write: "\<not> is_scratch s pg \<Longrightarrow> swap_writepage aes io b pg s = Some (n, bio, s') \<Longrightarrow> privos_step aes s s'"
| Transfer: "privos_step aes s (s\<lparr>po_disk := d\<rparr>)"
| Written: "end_swap_bio_write u bio s = Some s' \<Longrightarrow> privos_step aes s s'"
| Read: "end_swap_bio_read aes u bio s = Some s' \<Longrightarrow> privos_step aes s s'"

inductive privos_reach :: "aes_fn \<Rightarrow> privos \<Rightarrow> bool" for aes where
  Start: "po_ctx s = Map.empty \<Longrightarrow> po_swpd s = Map.empty \<Longrightarrow> po_tree s = [] \<Longrightarrow> privos_reach aes s"
| Step: "privos_reach aes s \<Longrightarrow> privos_step aes s s' \<Longrightarrow> privos_reach aes s'"

lemma po_ok_untracked [simp]:
  "po_ok (s\<lparr>po_swap_map := m\<rparr>) = po_ok s" "po_ok (s\<lparr>po_disk := d\<rparr>) = po_ok s"
  by (simp_all add: po_ok_def unlocked_def)

lemma privos_step_ok:
  assumes "privos_step aes s s'" "po_ok s"
  shows "po_ok s'"
  using assms
proof cases
  case Add
  then show ?thesis using assms(2) add_to_priv_inv add_to_priv_unlocked unfolding po_ok_def by blast
qed (auto intro: priv_ctx_alloc_ok priv_ctx_get_ok priv_ctx_put_ok put_own_page_ok swap_free_ok
    delete_from_swap_cache_ok swap_writepage_ok end_swap_bio_write_ok end_swap_bio_read_ok)


definition empty_privos :: privos where
  "empty_privos = \<lparr>po_ctx = Map.empty, po_swpd = Map.empty, po_pages = Map.empty, po_tree = [], po_swap_map = (\<lambda>_. 0),
     po_disk = (\<lambda>_. [])\<rparr>"


end
