(* ===== verification/Privos_Swap.thy ===== *)
theory Privos_Swap
  imports Privos_Inv
begin

text \<open>
  What encrypted swap promises, and where it falls short: the device holds the encryption of
  a tracked page and the page comes back unchanged; after the last reference to a context
  nothing decrypts its pages; a page written a second time goes out in the clear; the loop
  over all tracked pages can read a freed record. The scan of physical memory is related to
  the tokens it looks for.
\<close>

section \<open>What the device holds\<close>

text \<open>
  C5. A tracked page goes to the device as the counter-mode stream of its process's key and its
  scratch page is freed; reading the slot back into any page gives the original contents.
\<close>

lemma swap_round_trip:
  assumes "tracked s e a w x c t" "po_pages s pg = Some p" "pg_private p = e" "page_swapcount p s \<noteq> 0"
    "sw_page w = Some pg" "sw_scratch w = Some b" "po_pages s b = Some q" "pg_private q = e" "b \<noteq> pg" "e \<noteq> 0"
  shows "\<exists>s'. swap_out aes pg s = Some s' \<and> po_disk s' e = ctr_out (aes (tfm_key t)) (replicate 16 0) (pg_data p)
    \<and> po_pages s' b = None
    \<and> (\<forall>pg' p'. po_pages s' pg' = Some p' \<longrightarrow> pg_private p' = e \<longrightarrow>
        (\<exists>s'' r. swap_in aes pg' s' = Some s'' \<and> po_pages s'' pg' = Some r \<and> pg_data r = pg_data p))"
proof -
  let ?t = "t\<lparr>tfm_iv := ctr_next swap_iv (length (pg_data p))\<rparr>"
  obtain s' where s': "swap_out aes pg s = Some s'"
    "po_disk s' = (po_disk s)(e := ctr_out (aes (tfm_key t)) swap_iv (pg_data p))"
    "tracked s' e a (w\<lparr>sw_flags := 1, sw_scratch := None, sw_page := None\<rparr>) x (c\<lparr>pc_cipher := Some ?t\<rparr>) ?t"
    "po_pages s' b = None"
    using assms by (rule swap_out_tracked)
  have "\<exists>s'' r. swap_in aes pg' s' = Some s'' \<and> po_pages s'' pg' = Some r \<and> pg_data r = pg_data p"
    if "po_pages s' pg' = Some p'" "pg_private p' = e" for pg' p'
    using swap_in_tracked [OF s'(3) that, of aes] by (auto simp: s'(2))
  then show ?thesis using s' by auto
qed

text \<open>
  Every page is encrypted with the same counter: two pages of one context on the device
  differ by exactly what the pages differ by.
\<close>

lemma xor_ctr_out:
  "length u = length v \<Longrightarrow> xor_bytes (ctr_out E iv u) (ctr_out E iv v) = xor_bytes u v"
proof (rule nth_equalityI)
  assume len: "length u = length v"
  then show "length (xor_bytes (ctr_out E iv u) (ctr_out E iv v)) = length (xor_bytes u v)" by simp
  fix i assume "i < length (xor_bytes (ctr_out E iv u) (ctr_out E iv v))"
  then have i: "i < length v" using len by simp
  moreover have "i < length (ctr_out E iv u)" "i < length (ctr_out E iv v)" using i len by simp_all
  ultimately show "xor_bytes (ctr_out E iv u) (ctr_out E iv v) ! i = xor_bytes u v ! i"
    unfolding ctr_out_def using len by (simp add: nth_xor_bytes ac_simps)
qed

text \<open>
  Once a write has completed the record has neither page nor scratch page. A later write of
  the same page, dirtied again while it is still in the swap cache, drops the record and
  hands the page itself to the device.
\<close>

lemma drop_settled:
  assumes ok: "po_ok s" and a: "radix_tree_lookup e s = Some a" "po_swpd s a = Some w" "sw_scratch w = None"
  obtains s1 s2 where "set_swapped_bit e 0 s = Some s1" "delete_from_priv e s1 = Some s2" "po_ok s2"
    "po_pages s2 = po_pages s" "po_disk s2 = po_disk s" "radix_tree_lookup e s2 = None"
proof -
  have inv: "po_inv {} s" and un: "unlocked s" using ok by (simp_all add: po_ok_def)
  define s1 where "s1 = put_swpd a (w\<lparr>sw_flags := 0\<rparr>) s"
  have b1: "set_swapped_bit e 0 s = Some s1"
    using a by (simp add: set_swapped_bit_def find_priv_page_inv [OF inv] s1_def)
  have ok1: "po_ok s1" using ok b1 by (rule set_swapped_bit_ok)
  then have inv1: "po_inv {} s1" and un1: "unlocked s1" by (simp_all add: po_ok_def)
  have a1: "radix_tree_lookup e s1 = Some a" using a(1) by (simp add: s1_def radix_tree_lookup_def)
  let ?r = "radix_tree_remove e s1"
  have w1: "po_swpd ?r a = Some (w\<lparr>sw_flags := 0\<rparr>)" by (simp add: s1_def)
  obtain x c where x: "sw_ctx (w\<lparr>sw_flags := 0\<rparr>) = Some x" "po_ctx ?r x = Some c"
    using radix_tree_remove_inv [OF inv1 a1] w1 by (rule swpd_ctx)
  have "\<not> pc_lock c" using un1 x(2) by (auto simp: unlocked_def)
  then have "free_priv_page (Some a) ?r = Some (?r\<lparr>po_ctx := (po_ctx ?r)(x := ctx_after_put c),
      po_pages := po_pages ?r, po_swpd := (po_swpd ?r)(a := None)\<rparr>)" (is "_ = Some ?s2")
    using free_priv_page_eq [OF radix_tree_remove_inv [OF inv1 a1] w1 x] a(3) by simp
  moreover have "e \<noteq> 0" using inv a(1) by (rule lookup_swpd)
  ultimately have d: "delete_from_priv e s1 = Some ?s2"
    using a1 by (simp add: delete_from_priv_def test_swapped_bit_inv [OF inv1]) (simp add: s1_def)
  moreover have "po_ok ?s2" using ok1 d by (rule delete_from_priv_ok)
  moreover have "radix_tree_lookup e ?s2 = None" by (auto simp: radix_tree_lookup_def map_of_eq_None_iff)
  ultimately show thesis using that [OF b1 d] by (simp add: s1_def)
qed

text \<open>
  C28. A page that comes back from swap and is written out again without having been given a
  new tracking record goes to the device in the clear, and its record is dropped.
\<close>

lemma second_write_is_plaintext:
  assumes ok: "po_ok s" and a: "radix_tree_lookup e s = Some a" "po_swpd s a = Some w" "sw_page w = None" "sw_scratch w = None"
    and p: "po_pages s pg = Some p" "pg_private p = e" "page_swapcount p s \<noteq> 0"
  shows "\<exists>b s1 s2. swap_writepage aes io True pg s = Some (0, Some b, s1) \<and> device_write b s1 = Some s2
    \<and> po_disk s2 e = pg_data p \<and> radix_tree_lookup e s2 = None"
proof -
  obtain s1 s2 where s: "set_swapped_bit e 0 s = Some s1" "delete_from_priv e s1 = Some s2"
    "po_pages s2 = po_pages s" "radix_tree_lookup e s2 = None"
    using ok a(1,2,4) by (rule drop_settled)
  have inv: "po_inv {} s" using ok by (simp add: po_ok_def)
  obtain x c where "sw_ctx w = Some x" "po_ctx s x = Some c" using inv a(2) by (rule swpd_ctx)
  then have "priv_encrypt_page aes pg s = Some (pg, s2)"
    using a p s by (simp add: priv_encrypt_page_def Let_def find_priv_page_inv [OF inv])
  then have "swap_writepage aes io True pg s = Some (0, Some \<lparr>bi_page = pg, bi_sector = e\<rparr>,
      put_page pg (p\<lparr>pg_writeback := True, pg_locked := False\<rparr>) s2)"
    using p s(3) by (simp add: swap_writepage_def try_to_free_swap_def get_swap_bio_def page_flags_def)
  then show ?thesis using s(4) by (simp add: device_write_def radix_tree_lookup_def)
qed

section \<open>The last reference to a context\<close>

text \<open>
  When no tracked page is waiting to be written, \<open>delete_all_from_priv\<close> ends: each round
  clears the flags of up to 64 records and goes on after the last of them.
\<close>

definition settled :: "privos \<Rightarrow> bool" where
  "settled s \<longleftrightarrow> (\<forall>a w. po_swpd s a = Some w \<longrightarrow> sw_page w = None)"

definition same_tracking :: "privos \<Rightarrow> privos \<Rightarrow> bool" where
  "same_tracking s s' \<longleftrightarrow> po_tree s' = po_tree s \<and> po_ctx s' = po_ctx s \<and> po_pages s' = po_pages s
     \<and> po_disk s' = po_disk s \<and> po_swap_map s' = po_swap_map s
     \<and> (\<forall>a. po_swpd s a = None \<longrightarrow> po_swpd s' a = None)
     \<and> (\<forall>a w. po_swpd s a = Some w \<longrightarrow> (\<exists>f. po_swpd s' a = Some (w\<lparr>sw_flags := f\<rparr>)))"

lemma same_tracking_refl: "same_tracking s s"
proof -
  have "\<exists>f. w = w\<lparr>sw_flags := f\<rparr>" for w :: priv_swapped_page by (rule exI [of _ "sw_flags w"]) simp
  then show ?thesis by (simp add: same_tracking_def)
qed

lemma same_tracking_trans:
  assumes "same_tracking s s1" "same_tracking s1 s2"
  shows "same_tracking s s2"
proof -
  have "\<exists>f. po_swpd s2 a = Some (w\<lparr>sw_flags := f\<rparr>)" if w: "po_swpd s a = Some w" for a w
  proof -
    obtain f where "po_swpd s1 a = Some (w\<lparr>sw_flags := f\<rparr>)" using assms(1) w unfolding same_tracking_def by blast
    then obtain g where "po_swpd s2 a = Some (w\<lparr>sw_flags := f, sw_flags := g\<rparr>)"
      using assms(2) unfolding same_tracking_def by blast
    then show ?thesis by auto
  qed
  then show ?thesis using assms by (simp add: same_tracking_def)
qed

lemma same_tracking_swpd:
  assumes "same_tracking s s'" "po_swpd s a = Some w"
  obtains f where "po_swpd s' a = Some (w\<lparr>sw_flags := f\<rparr>)"
  using assms unfolding same_tracking_def by blast

lemma same_tracking_settled:
  assumes "same_tracking s s'" "settled s"
  shows "settled s'"
  unfolding settled_def
proof (intro allI impI)
  fix a w' assume w': "po_swpd s' a = Some w'"
  then obtain w where w: "po_swpd s a = Some w" using assms(1) by (cases "po_swpd s a") (auto simp: same_tracking_def)
  with assms(1) obtain f where "po_swpd s' a = Some (w\<lparr>sw_flags := f\<rparr>)" by (rule same_tracking_swpd)
  then show "sw_page w' = None" using assms(2) w w' by (auto simp: settled_def)
qed

lemma set_swapped_bit_same:
  assumes inv: "po_inv E s"
  obtains s' where "set_swapped_bit k v s = Some s'" "po_inv E s'" "same_tracking s s'"
proof (cases "radix_tree_lookup k s")
  case None
  then have "set_swapped_bit k v s = Some s" by (simp add: set_swapped_bit_def find_priv_page_inv [OF inv])
  then show thesis using that inv same_tracking_refl by blast
next
  case (Some a)
  with inv obtain w where w: "po_swpd s a = Some w" by (rule lookup_swpd)
  let ?s = "put_swpd a (w\<lparr>sw_flags := v\<rparr>) s"
  have "set_swapped_bit k v s = Some ?s" using Some w by (simp add: set_swapped_bit_def find_priv_page_inv [OF inv])
  moreover have "po_inv E ?s" by (rule put_swpd_inv [OF inv w]) simp_all
  moreover have "same_tracking s ?s" using same_tracking_refl [of s] w by (auto simp: same_tracking_def)
  ultimately show thesis by (rule that)
qed

lemma delete_victims_settled:
  "po_inv E s \<Longrightarrow> settled s \<Longrightarrow> set vs \<subseteq> dom (po_swpd s) \<Longrightarrow>
   \<exists>s'. delete_victims vs s = Some s' \<and> po_inv E s' \<and> same_tracking s s'"
proof (induction vs arbitrary: s)
  case Nil
  then show ?case using same_tracking_refl by simp
next
  case (Cons v vs)
  then obtain w where w: "po_swpd s v = Some w" by auto
  obtain b where b: "test_swapped_bit (sw_entry w) s = Some b"
    using test_swapped_bit_inv [OF Cons.prems(1)] by blast
  obtain s0 where "set_swapped_bit (sw_entry w) 0 s = Some s0" "po_inv E s0" "same_tracking s s0"
    using Cons.prems(1) by (rule set_swapped_bit_same)
  then obtain s1 where s1: "(if b then set_swapped_bit (sw_entry w) 0 s else Some s) = Some s1" "po_inv E s1" "same_tracking s s1"
    using Cons.prems(1) same_tracking_refl by (cases b) auto
  obtain f where w1: "po_swpd s1 v = Some (w\<lparr>sw_flags := f\<rparr>)" using s1(3) w by (rule same_tracking_swpd)
  have set1: "settled s1" using s1(3) Cons.prems(2) by (rule same_tracking_settled)
  have "dom (po_swpd s) \<subseteq> dom (po_swpd s1)" using s1(3) unfolding same_tracking_def dom_def by blast
  then have "set vs \<subseteq> dom (po_swpd s1)" using Cons.prems(3) by (meson order_trans set_subset_Cons)
  then obtain s' where s': "delete_victims vs s1 = Some s'" "po_inv E s'" "same_tracking s1 s'"
    using Cons.IH [OF s1(2) set1] by blast
  have "sw_page w = None" using Cons.prems(2) w by (simp add: settled_def)
  then have "delete_victims (v # vs) s = Some s'" using w b s1(1) w1 s'(1) by simp
  then show ?case using s' s1(3) same_tracking_trans by blast
qed

lemma gang_lookup_last:
  assumes inv: "po_inv {} s" and ne: "radix_tree_gang_lookup i 64 s \<noteq> []"
  obtains k where "(k, last (radix_tree_gang_lookup i 64 s)) \<in> set (po_tree s)" "i \<le> k"
proof -
  let ?F = "take 64 (filter (\<lambda>e. i \<le> fst e) (po_tree s))"
  have F: "?F \<noteq> []" using ne by (auto simp: radix_tree_gang_lookup_def)
  then have "last ?F \<in> set ?F" by (rule last_in_set)
  then have "last ?F \<in> set (filter (\<lambda>e. i \<le> fst e) (po_tree s))" by (rule in_set_takeD)
  moreover have "last (radix_tree_gang_lookup i 64 s) = snd (last ?F)"
    using F by (simp add: radix_tree_gang_lookup_def last_map)
  ultimately show thesis using that [of "fst (last ?F)"] by simp
qed

lemma length_filter_less':
  assumes "\<exists>x\<in>set xs. Q x \<and> \<not> P x" "\<And>x. P x \<Longrightarrow> Q x"
  shows "length (filter P xs) < length (filter Q xs)"
proof -
  have "filter P xs = filter P (filter Q xs)" using assms(2) by (auto simp: filter_filter intro!: filter_cong)
  moreover have "\<exists>x\<in>set (filter Q xs). \<not> P x" using assms(1) by auto
  ultimately show ?thesis using length_filter_less by (metis (no_types, lifting))
qed

lemma delete_all_loop_settled:
  assumes "po_inv {} s" "settled s" "\<And>k a. (k, a) \<in> set (po_tree s) \<Longrightarrow> k \<noteq> - 1"
  shows "\<exists>s'. delete_all_loop i s = Some s' \<and> po_inv {} s' \<and> same_tracking s s'"
  using assms
proof (induction "length (filter (\<lambda>e. i \<le> fst e) (po_tree s))" arbitrary: i s rule: less_induct)
  case less
  let ?vs = "radix_tree_gang_lookup i 64 s"
  have "set ?vs \<subseteq> snd ` set (po_tree s)"
    using set_take_subset [of 64 "filter (\<lambda>e. i \<le> fst e) (po_tree s)"]
    unfolding radix_tree_gang_lookup_def set_map by auto
  then have "set ?vs \<subseteq> dom (po_swpd s)" using po_invD(4) [OF less.prems(1)] by blast
  then obtain s1 where s1: "delete_victims ?vs s = Some s1" "po_inv {} s1" "same_tracking s s1"
    using delete_victims_settled [OF less.prems(1,2)] by blast
  show ?case
  proof (cases "?vs = []")
    case True
    then have "delete_all_loop i s = Some s1" using s1(1) by (subst delete_all_loop.simps) simp
    then show ?thesis using s1 by blast
  next
    case False
    with less.prems(1) obtain k where k: "(k, last ?vs) \<in> set (po_tree s)" "i \<le> k" by (rule gang_lookup_last)
    obtain w where w: "po_swpd s (last ?vs) = Some w" "sw_entry w = k" using po_invD(3) [OF less.prems(1) k(1)] by blast
    obtain f where w1: "po_swpd s1 (last ?vs) = Some (w\<lparr>sw_flags := f\<rparr>)" using s1(3) w(1) by (rule same_tracking_swpd)
    have tree: "po_tree s1 = po_tree s" using s1(3) by (simp add: same_tracking_def)
    have kk: "k < k + 1" using less.prems(3) [OF k(1)] by (rule word_less_plus_1)
    have "length (filter (\<lambda>e. k + 1 \<le> fst e) (po_tree s)) < length (filter (\<lambda>e. i \<le> fst e) (po_tree s))"
    proof (rule length_filter_less')
      show "\<exists>e\<in>set (po_tree s). i \<le> fst e \<and> \<not> k + 1 \<le> fst e" using k kk by (intro bexI [OF _ k(1)]) simp
      show "i \<le> fst e" if "k + 1 \<le> fst e" for e :: "u64 \<times> addr"
        using that k(2) kk by (meson less_imp_le order_trans)
    qed
    then obtain s' where s': "delete_all_loop (k + 1) s1 = Some s'" "po_inv {} s'" "same_tracking s1 s'"
      using less.hyps [of "k + 1" s1] s1 less.prems(3) same_tracking_settled [OF s1(3) less.prems(2)]
      unfolding tree by blast
    have "delete_all_loop i s = Some s'"
      using False s1(1) w1 w(2) s'(1) by (subst delete_all_loop.simps) (simp add: Let_def)
    then show ?thesis using s' s1(3) same_tracking_trans by blast
  qed
qed

lemma delete_all_from_priv_settled:
  assumes "po_ok s" "settled s" "\<And>k a. (k, a) \<in> set (po_tree s) \<Longrightarrow> k \<noteq> - 1"
    and s0: "s0 = put_pctx x c s" "po_inv {} s0"
  obtains s' where "delete_all_from_priv s0 = Some s'" "po_inv {} s'" "same_tracking s0 s'"
proof -
  have "\<exists>s'. delete_all_loop 0 s0 = Some s' \<and> po_inv {} s' \<and> same_tracking s0 s'"
    by (rule delete_all_loop_settled [OF s0(2)]) (use assms(2,3) in \<open>auto simp: s0(1) settled_def\<close>)
  then show thesis using that by (auto simp: delete_all_from_priv_def)
qed


text \<open>
  C29. Draining the tree reads a record after it was freed: with one page tracked whose slot is
  held only by the swap cache, deleting the page from the cache frees the record that the
  loop goes on to read.
\<close>

lemma delete_all_uses_freed_record:
  assumes inv: "po_inv {} s" and tree: "po_tree s = [(e, a)]"
    and w: "po_swpd s a = Some w" "sw_page w = Some pg" and cache: "po_swap_map s e = 0x40"
  shows "delete_all_from_priv s = None"
proof -
  have look: "radix_tree_lookup e s = Some a" by (simp add: radix_tree_lookup_def tree)
  obtain w' where "po_swpd s a = Some w'" "sw_entry w' = e" "e \<noteq> 0" using inv look by (rule lookup_swpd)
  then have e: "sw_entry w = e" "e \<noteq> 0" using w(1) by auto
  have vs: "radix_tree_gang_lookup 0 64 s = [a]" by (simp add: radix_tree_gang_lookup_def tree)
  have "po_swpd s' a = None" if d: "delete_victims [a] s = Some s'" for s'
  proof -
    define s1 where "s1 = put_swpd a (w\<lparr>sw_flags := 0\<rparr>) s"
    have same: "s1 = s" if "sw_flags w = 0" using w(1) that by (simp add: s1_def put_swpd_def fun_upd_idem)
    have t: "test_swapped_bit e s = Some (sw_flags w \<noteq> 0)" using look w(1) by (simp add: test_swapped_bit_inv [OF inv])
    have b: "(if sw_flags w \<noteq> 0 then set_swapped_bit e 0 s else Some s) = Some s1"
      using look w(1) same by (simp add: set_swapped_bit_def find_priv_page_inv [OF inv] s1_def)
    have inv1: "po_inv {} s1" unfolding s1_def by (rule put_swpd_inv [OF inv w(1)]) simp_all
    define s2 where "s2 = s1\<lparr>po_swap_map := (po_swap_map s)(e := 0)\<rparr>"
    have inv2: "po_inv {} s2" using inv1 by (simp add: s2_def)
    have w2: "po_swpd s2 a = Some (w\<lparr>sw_flags := 0\<rparr>)" "radix_tree_lookup e s2 = Some a"
      using look by (simp_all add: s2_def s1_def radix_tree_lookup_def)
    have b2: "set_swapped_bit e 0 s2 = Some s2"
      using w2 by (simp add: set_swapped_bit_def find_priv_page_inv [OF inv2] put_swpd_def fun_upd_idem)
    have free: "swap_entry_free False e 0x40 s1 = do { s \<leftarrow> delete_from_priv e s2; Some (0, s) }"
      using cache b2 by (simp add: swap_entry_free_def Let_def s2_def s1_def)
    have "swapcache_free False e s1 = delete_from_priv e s2"
      using cache e by (cases "delete_from_priv e s2") (simp_all add: swapcache_free_def swap_info_get_def s1_def free [unfolded s1_def])
    then have "delete_from_priv e s2 = Some s'"
      using d w e t b by (cases "delete_from_priv e s2") (auto simp: s1_def)
    then have "free_priv_page (Some a) (radix_tree_remove e s2) = Some s'"
      using e w2 by (simp add: delete_from_priv_def test_swapped_bit_inv [OF inv2])
    then show ?thesis
      by (auto simp: free_priv_page_def split: Option.bind_splits)
  qed
  then show ?thesis
    unfolding delete_all_from_priv_def
    by (subst delete_all_loop.simps) (cases "delete_victims [a] s"; simp add: vs Let_def del: delete_victims.simps)
qed



section \<open>The scan\<close>

declare scan_region.simps [simp del]

lemma scan_region_step:
  "8 < length bs \<Longrightarrow> scan_region bs =
     (if match_pattern bs then Suc (scan_region (drop 8 bs)) else scan_region (drop 1 bs))"
  by (simp add: scan_region.simps [of bs])

lemma scan_region_short: "length bs \<le> 8 \<Longrightarrow> scan_region bs = 0"
  by (simp add: scan_region.simps [of bs])

text \<open>
  The scan of a region reports no match exactly when no token starts before its last eight
  bytes: a token at the very end is not found.
\<close>

lemma scan_region_zero:
  "scan_region bs = 0 \<longleftrightarrow> (\<forall>i. i + 8 < length bs \<longrightarrow> \<not> match_pattern (drop i bs))"
proof (induction bs rule: length_induct)
  case (1 bs)
  show ?case
  proof (cases "8 < length bs")
    case False
    then show ?thesis by (simp add: scan_region_short)
  next
    case True
    show ?thesis
    proof (cases "match_pattern bs")
      case True
      then show ?thesis using \<open>8 < length bs\<close> by (auto simp: scan_region_step intro!: exI [of _ 0])
    next
      case False
      have "scan_region bs = 0 \<longleftrightarrow> (\<forall>i. i + 8 < length (drop 1 bs) \<longrightarrow> \<not> match_pattern (drop i (drop 1 bs)))"
        using 1 [rule_format, of "drop 1 bs"] True False by (simp add: scan_region_step)
      also have "\<dots> \<longleftrightarrow> (\<forall>i. Suc i + 8 < length bs \<longrightarrow> \<not> match_pattern (drop (Suc i) bs))"
        by (simp add: less_diff_conv)
      also have "\<dots> \<longleftrightarrow> (\<forall>i. i + 8 < length bs \<longrightarrow> \<not> match_pattern (drop i bs))"
        using False by (metis drop0 not0_implies_Suc)
      finally show ?thesis .
    qed
  qed
qed

text \<open>
  The totals over a memory whose first pages are all mapped: the number of tokens is the sum
  over the pages, but every page from the first match on counts as a matched page.
\<close>

lemma scan_loop_spec:
  assumes "\<And>k. k < total_pages \<Longrightarrow> mem k = Some (pages k)" "on \<le> total_pages"
    "m = (\<Sum>k<on. scan_region (pages k))" "n = card {k. k < on \<and> (\<exists>j\<le>k. scan_region (pages j) \<noteq> 0)}"
  shows "scan_loop mem total_pages on on m n = Some (\<Sum>k<total_pages. scan_region (pages k),
    card {k. k < total_pages \<and> (\<exists>j\<le>k. scan_region (pages j) \<noteq> 0)})"
  using assms(2-)
proof (induction "total_pages - on" arbitrary: on m n)
  case 0
  then have "on = total_pages" by simp
  then show ?case using 0 by (simp add: scan_loop.simps)
next
  case (Suc d)
  then have lt: "on < total_pages" by simp
  define m' where "m' = m + scan_region (pages on)"
  define n' where "n' = (if m' \<noteq> 0 then n + 1 else n)"
  have m': "m' = (\<Sum>k<Suc on. scan_region (pages k))" by (simp add: m'_def Suc.prems(2))
  let ?P = "\<lambda>k. \<exists>j\<le>k. scan_region (pages j) \<noteq> 0"
  have "m' \<noteq> 0 \<longleftrightarrow> ?P on" unfolding m' sum_eq_0_iff [OF finite_lessThan] by (auto simp: less_Suc_eq_le Bex_def simp del: sum.lessThan_Suc)
  moreover have "{k. k < Suc on \<and> ?P k} = (if ?P on then insert on {k. k < on \<and> ?P k} else {k. k < on \<and> ?P k})"
    by (auto simp: less_Suc_eq)
  ultimately have "n' = card {k. k < Suc on \<and> ?P k}"
    unfolding n'_def Suc.prems(3) by auto
  then have "scan_loop mem total_pages (Suc on) (Suc on) m' n' = Some (\<Sum>k<total_pages. scan_region (pages k),
      card {k. k < total_pages \<and> ?P k})"
    using Suc.hyps(1) [of "Suc on" m' n'] Suc.hyps(2) lt m' by simp
  moreover have "scan_loop mem total_pages on on m n = scan_loop mem total_pages (Suc on) (Suc on) m' n'"
    using lt assms(1) [OF lt] by (subst scan_loop.simps) (simp add: Let_def m'_def n'_def)
  ultimately show ?case by simp
qed


section \<open>Properties and examples\<close>

text \<open>
  C27. Every page of a process is encrypted with the same key stream: the exclusive or of two
  swapped pages, as they are on the device, is that of their contents.
\<close>

theorem swapped_pages_share_keystream:
  assumes "tracked s e a w x c t" "po_pages s pg = Some p" "pg_private p = e" "page_swapcount p s \<noteq> 0"
    "sw_page w = Some pg" "sw_scratch w = Some b" "po_pages s b = Some q" "pg_private q = e" "b \<noteq> pg" "e \<noteq> 0"
    and "tracked s' e' a' w' x' c' t'" "po_pages s' pg' = Some p'" "pg_private p' = e'" "page_swapcount p' s' \<noteq> 0"
    "sw_page w' = Some pg'" "sw_scratch w' = Some b'" "po_pages s' b' = Some q'" "pg_private q' = e'" "b' \<noteq> pg'" "e' \<noteq> 0"
    and "tfm_key t = tfm_key t'" "length (pg_data p) = length (pg_data p')"
  shows "\<exists>r r'. swap_out aes pg s = Some r \<and> swap_out aes pg' s' = Some r'
    \<and> xor_bytes (po_disk r e) (po_disk r' e') = xor_bytes (pg_data p) (pg_data p')"
proof -
  obtain r where "swap_out aes pg s = Some r" "po_disk r = (po_disk s)(e := ctr_out (aes (tfm_key t)) swap_iv (pg_data p))"
    using assms(1-10) by (rule swap_out_tracked)
  moreover obtain r' where "swap_out aes pg' s' = Some r'"
    "po_disk r' = (po_disk s')(e' := ctr_out (aes (tfm_key t')) swap_iv (pg_data p'))"
    using assms(11-20) by (rule swap_out_tracked)
  ultimately show ?thesis using xor_ctr_out [OF assms(22)] assms(21) by auto
qed

text \<open>A state with one context, one tracked page of two bytes and its scratch page.\<close>

definition demo_tfm :: blkcipher where
  "demo_tfm = \<lparr>tfm_key = replicate 32 7, tfm_iv = replicate 16 0\<rparr>"

definition demo_pctx :: priv_cipher_ctx where
  "demo_pctx = \<lparr>pc_lock = False, pc_pagecount = 1, pc_mapcount = 1, pc_cipher = Some demo_tfm\<rparr>"

definition demo_swpd :: priv_swapped_page where
  "demo_swpd = \<lparr>sw_ctx = Some 10, sw_page = Some 30, sw_scratch = Some 40, sw_entry = 5, sw_flags = 0\<rparr>"

definition demo_page :: page where
  "demo_page = (zero_page 5)\<lparr>pg_data := [1, 2], pg_swapcache := True, pg_locked := True\<rparr>"

definition demo_po :: privos where
  "demo_po = \<lparr>po_ctx = [10 \<mapsto> demo_pctx], po_swpd = [20 \<mapsto> demo_swpd], po_pages = [30 \<mapsto> demo_page, 40 \<mapsto> zero_page 5],
     po_tree = [(5, 20)], po_swap_map = (\<lambda>_. 0x41), po_disk = (\<lambda>_. [])\<rparr>"

lemma demo_swpd_fields:
  "sw_ctx demo_swpd = Some 10" "sw_page demo_swpd = Some 30" "sw_scratch demo_swpd = Some 40" "sw_entry demo_swpd = 5"
  by (simp_all add: demo_swpd_def)

lemma demo_pctx_fields:
  "pc_mapcount demo_pctx = 1" "pc_pagecount demo_pctx = 1" "\<not> pc_lock demo_pctx" "pc_cipher demo_pctx = Some demo_tfm"
  by (simp_all add: demo_pctx_def)

lemma demo_tfm_fields: "length (tfm_key demo_tfm) = 32" "length (tfm_iv demo_tfm) = 16"
  by (simp_all add: demo_tfm_def)

lemma demo_po_fields:
  "po_ctx demo_po = [10 \<mapsto> demo_pctx]" "po_swpd demo_po = [20 \<mapsto> demo_swpd]" "po_tree demo_po = [(5, 20)]"
  "po_pages demo_po 30 = Some demo_page" "po_pages demo_po 40 = Some (zero_page 5)" "pg_private demo_page = 5"
  "pg_private (zero_page 5) = 5" "pg_data demo_page = [1, 2]" "po_swap_map demo_po e = 0x41"
  by (simp_all add: demo_po_def demo_page_def zero_page_def)

lemma demo_po_inv: "po_inv {} demo_po"
proof (rule po_invI)
qed (auto simp: demo_po_fields swpd_ok_def pctx_ok_def refs_of_def demo_swpd_fields demo_pctx_fields demo_tfm_fields split: if_splits)

lemma demo_po_ok: "po_ok demo_po"
  using demo_po_inv by (simp add: po_ok_def unlocked_def demo_po_fields demo_pctx_fields)

lemma demo_po_tracked: "tracked demo_po 5 20 demo_swpd 10 demo_pctx demo_tfm"
  by (simp add: tracked_def radix_tree_lookup_def demo_po_fields demo_swpd_fields demo_pctx_fields demo_tfm_fields)

lemma demo_swapcount: "page_swapcount demo_page demo_po \<noteq> 0"
  by (simp add: page_swapcount_def swap_info_get_def demo_po_fields)

lemmas demo_po_page = demo_po_tracked demo_po_fields(4,6) demo_swapcount demo_swpd_fields(2,3) demo_po_fields(5,7)

theorem swap_round_trip_witness:
  "\<exists>s'. swap_out (\<lambda>k b. b) 30 demo_po = Some s' \<and> po_disk s' 5 = ctr_out (\<lambda>b. b) (replicate 16 0) [1, 2]
    \<and> po_pages s' 40 = None"
  using swap_round_trip [OF demo_po_page, of "\<lambda>k b. b"] by (auto simp: demo_po_fields)

theorem swapped_pages_share_keystream_witness:
  "\<exists>r r'. swap_out (\<lambda>k b. b) 30 demo_po = Some r \<and> swap_out (\<lambda>k b. b) 30 demo_po = Some r'
    \<and> xor_bytes (po_disk r 5) (po_disk r' 5) = xor_bytes [1, 2] [1, 2]"
  using swapped_pages_share_keystream [OF demo_po_page _ _ demo_po_page, of "\<lambda>k b. b"] by (simp add: demo_po_fields)

text \<open>The same page after it was written once: record kept, scratch page gone.\<close>

definition demo_po2 :: privos where
  "demo_po2 = demo_po\<lparr>po_swpd := [20 \<mapsto> demo_swpd\<lparr>sw_page := None, sw_scratch := None, sw_flags := 1\<rparr>]\<rparr>"

lemma demo_po2_fields:
  "po_ctx demo_po2 = [10 \<mapsto> demo_pctx]" "po_swpd demo_po2 = [20 \<mapsto> demo_swpd\<lparr>sw_page := None, sw_scratch := None, sw_flags := 1\<rparr>]"
  "po_tree demo_po2 = [(5, 20)]" "po_pages demo_po2 = po_pages demo_po" "po_swap_map demo_po2 = po_swap_map demo_po"
  by (simp_all add: demo_po2_def demo_po_fields)

lemma demo_po2_ok: "po_ok demo_po2"
proof -
  have "po_inv {} demo_po2"
  proof (rule po_invI)
  qed (auto simp: demo_po2_fields swpd_ok_def pctx_ok_def refs_of_def demo_swpd_fields demo_pctx_fields demo_tfm_fields split: if_splits)
  then show ?thesis by (simp add: po_ok_def unlocked_def demo_po2_fields demo_pctx_fields)
qed

theorem second_write_is_plaintext_witness:
  "\<exists>b s1 s2. swap_writepage (\<lambda>k b. b) False True 30 demo_po2 = Some (0, Some b, s1) \<and> device_write b s1 = Some s2
    \<and> po_disk s2 5 = [1, 2]"
  using second_write_is_plaintext [OF demo_po2_ok, of 5 20 _ 30 demo_page "\<lambda>k b. b" False]
  by (auto simp: radix_tree_lookup_def demo_po2_fields demo_po_fields page_swapcount_def swap_info_get_def)


theorem delete_all_uses_freed_record_witness:
  "delete_all_from_priv (demo_po\<lparr>po_swap_map := (\<lambda>_. 0x40)\<rparr>) = None"
  using delete_all_uses_freed_record [of "demo_po\<lparr>po_swap_map := (\<lambda>_. 0x40)\<rparr>" 5 20 demo_swpd 30] demo_po_inv
  by (simp add: demo_po_fields demo_swpd_fields)



theorem scan_region_zero_witness: "scan_region ([2] @ scan_pattern) = 0"
  using scan_region_zero [of "[2] @ scan_pattern"] by (simp add: scan_pattern_def)


end
