(* ===== verification/Bignum.thy ===== *)
theory Bignum
  imports Prelude "HOL-Library.Monad_Syntax"
begin

text \<open>
  The multi-precision integers of the kernel's key exchange,
  \<open>host/linux-3.0/drivers/priv/polarssl/bignum.c\<close>, on 64-bit limbs (\<open>unsigned long\<close>), with
  the multiply-and-add core of \<open>bn_mul.h\<close> for x86-64 and, as \<open>bignum.h\<close> selects it for
  the kernel, without double-limb division. An integer is its sign and its limbs, least
  significant first; \<open>p == NULL\<close> is the empty list, and a read or write outside the limbs
  is \<open>None\<close>. The outcomes of the coming calls of \<open>malloc\<close> are an argument (the empty list:
  all succeed). The C functions return through pointers that may be equal: where the code
  tests for it, or its result depends on it, a flag says that two arguments are the same
  object, and both are then passed the same value. This theory is the model.
\<close>

section \<open>Data and memory\<close>

record mpi =
  mp_s :: int
  mp_p :: "u64 list"

type_synonym mem = "bool list"

abbreviation (input) POLARSSL_ERR_MPI_BAD_INPUT_DATA :: int where "POLARSSL_ERR_MPI_BAD_INPUT_DATA \<equiv> - 4"
abbreviation (input) POLARSSL_ERR_MPI_BUFFER_TOO_SMALL :: int where "POLARSSL_ERR_MPI_BUFFER_TOO_SMALL \<equiv> - 8"
abbreviation (input) POLARSSL_ERR_MPI_NEGATIVE_VALUE :: int where "POLARSSL_ERR_MPI_NEGATIVE_VALUE \<equiv> - 10"
abbreviation (input) POLARSSL_ERR_MPI_DIVISION_BY_ZERO :: int where "POLARSSL_ERR_MPI_DIVISION_BY_ZERO \<equiv> - 12"
abbreviation (input) POLARSSL_ERR_MPI_MALLOC_FAILED :: int where "POLARSSL_ERR_MPI_MALLOC_FAILED \<equiv> - 16"
abbreviation (input) POLARSSL_MPI_MAX_LIMBS :: nat where "POLARSSL_MPI_MAX_LIMBS \<equiv> 10000"
abbreviation (input) POLARSSL_MPI_WINDOW_SIZE :: nat where "POLARSSL_MPI_WINDOW_SIZE \<equiv> 6"
abbreviation (input) biL :: nat where "biL \<equiv> 64"
abbreviation (input) biH :: nat where "biH \<equiv> 32"
abbreviation (input) ciL :: nat where "ciL \<equiv> 8"

abbreviation mp_n :: "mpi \<Rightarrow> nat" where "mp_n X \<equiv> length (mp_p X)"

definition BITS_TO_LIMBS :: "nat \<Rightarrow> nat" where "BITS_TO_LIMBS i = (i + 63) div 64"
definition CHARS_TO_LIMBS :: "nat \<Rightarrow> nat" where "CHARS_TO_LIMBS i = (i + 7) div 8"

fun malloc :: "mem \<Rightarrow> bool \<times> mem" where
  "malloc [] = (True, [])"
| "malloc (b # m) = (b, m)"

definition mpi_init :: mpi where
  "mpi_init = \<lparr>mp_s = 1, mp_p = []\<rparr>"

definition mpi_grow :: "mem \<Rightarrow> mpi \<Rightarrow> nat \<Rightarrow> int \<times> mpi \<times> mem" where
  "mpi_grow m X nblimbs =
     (if POLARSSL_MPI_MAX_LIMBS < nblimbs then (POLARSSL_ERR_MPI_MALLOC_FAILED, X, m)
      else if mp_n X < nblimbs then
        let (ok, m) = malloc m
        in if ok then (0, X\<lparr>mp_p := mp_p X @ replicate (nblimbs - mp_n X) 0\<rparr>, m)
           else (POLARSSL_ERR_MPI_MALLOC_FAILED, X, m)
      else (0, X, m))"

text \<open>The two loops that look for the most significant limb: down to index 0, and down to none.\<close>

primrec top_limb :: "u64 list \<Rightarrow> nat \<Rightarrow> nat" where
  "top_limb p 0 = 0"
| "top_limb p (Suc i) = (if p ! Suc i \<noteq> 0 then Suc i else top_limb p i)"

primrec used :: "u64 list \<Rightarrow> nat \<Rightarrow> nat" where
  "used p 0 = 0"
| "used p (Suc i) = (if p ! i \<noteq> 0 then Suc i else used p i)"

text \<open>\<open>xy\<close>: both arguments are the same object.\<close>

definition mpi_copy :: "mem \<Rightarrow> bool \<Rightarrow> mpi \<Rightarrow> mpi \<Rightarrow> (int \<times> mpi \<times> mem) option" where
  "mpi_copy m xy X Y =
     (if xy then Some (0, X, m)
      else if mp_p Y = [] then None
      else
        let i = top_limb (mp_p Y) (mp_n Y - 1) + 1;
            (ret, X, m) = mpi_grow m (X\<lparr>mp_s := mp_s Y\<rparr>) i
        in if ret \<noteq> 0 then Some (ret, X, m)
           else Some (ret, X\<lparr>mp_p := take i (mp_p Y) @ replicate (mp_n X - i) 0\<rparr>, m))"

definition mpi_lset :: "mem \<Rightarrow> mpi \<Rightarrow> int \<Rightarrow> int \<times> mpi \<times> mem" where
  "mpi_lset m X z =
     (let (ret, X, m) = mpi_grow m X 1
      in if ret \<noteq> 0 then (ret, X, m)
         else (ret, X\<lparr>mp_p := word_of_int (if z < 0 then - z else z) # replicate (mp_n X - 1) 0,
                mp_s := (if z < 0 then - 1 else 1)\<rparr>, m))"

text \<open>A constant of one limb, as the \<open>_int\<close> variants build it on the stack.\<close>

definition mpi_of_sint :: "int \<Rightarrow> mpi" where
  "mpi_of_sint z = \<lparr>mp_s = (if z < 0 then - 1 else 1), mp_p = [word_of_int (if z < 0 then - z else z)]\<rparr>"

section \<open>Bits, sizes and binary data\<close>

primrec lsb_limb :: "u64 \<Rightarrow> nat \<Rightarrow> nat option" where
  "lsb_limb w 0 = None"
| "lsb_limb w (Suc k) = (if drop_bit (biL - Suc k) w AND 1 \<noteq> 0 then Some (biL - Suc k) else lsb_limb w k)"

primrec lsb_loop :: "u64 list \<Rightarrow> nat \<Rightarrow> nat" where
  "lsb_loop [] count = 0"
| "lsb_loop (w # ws) count =
     (case lsb_limb w biL of Some j \<Rightarrow> count + j | None \<Rightarrow> lsb_loop ws (count + biL))"

definition mpi_lsb :: "mpi \<Rightarrow> nat" where
  "mpi_lsb X = lsb_loop (mp_p X) 0"

primrec msb_limb :: "u64 \<Rightarrow> nat \<Rightarrow> nat" where
  "msb_limb w 0 = 0"
| "msb_limb w (Suc j) = (if drop_bit j w AND 1 \<noteq> 0 then Suc j else msb_limb w j)"

definition mpi_msb :: "mpi \<Rightarrow> nat option" where
  "mpi_msb X =
     (if mp_p X = [] then None
      else let i = top_limb (mp_p X) (mp_n X - 1) in Some (i * biL + msb_limb (mp_p X ! i) biL))"

definition mpi_size :: "mpi \<Rightarrow> nat option" where
  "mpi_size X = map_option (\<lambda>b. (b + 7) div 8) (mpi_msb X)"

text \<open>The bytes of the buffer, last one first, are put into the limbs.\<close>

primrec read_loop :: "bytes \<Rightarrow> nat \<Rightarrow> u64 list \<Rightarrow> u64 list" where
  "read_loop [] j p = p"
| "read_loop (b # bs) j p =
     read_loop bs (Suc j) (p[j div ciL := p ! (j div ciL) OR push_bit (8 * (j mod ciL)) (ucast b)])"

definition mpi_read_binary :: "mem \<Rightarrow> mpi \<Rightarrow> bytes \<Rightarrow> int \<times> mpi \<times> mem" where
  "mpi_read_binary m X buf =
     (let data = dropWhile (\<lambda>b. b = 0) buf;
          (ret, X, m) = mpi_grow m X (CHARS_TO_LIMBS (length data))
      in if ret \<noteq> 0 then (ret, X, m)
         else
           let (ret, X, m) = mpi_lset m X 0
           in if ret \<noteq> 0 then (ret, X, m)
              else (ret, X\<lparr>mp_p := read_loop (rev data) 0 (mp_p X)\<rparr>, m))"

definition limb_byte :: "u64 list \<Rightarrow> nat \<Rightarrow> byte" where
  "limb_byte p j = ucast (drop_bit (8 * (j mod ciL)) (p ! (j div ciL)))"

text \<open>The result is the return code and the new contents of the buffer.\<close>

definition mpi_write_binary :: "mpi \<Rightarrow> nat \<Rightarrow> (int \<times> bytes option) option" where
  "mpi_write_binary X buflen = do {
     n \<leftarrow> mpi_size X;
     if buflen < n then Some (POLARSSL_ERR_MPI_BUFFER_TOO_SMALL, None)
     else Some (0, Some (replicate (buflen - n) 0 @ rev (map (limb_byte (mp_p X)) [0..<n]))) }"

section \<open>Shifts\<close>

primrec shl_loop :: "nat \<Rightarrow> u64 list \<Rightarrow> u64 \<Rightarrow> u64 list" where
  "shl_loop t1 [] r0 = []"
| "shl_loop t1 (p # ps) r0 = (push_bit t1 p OR r0) # shl_loop t1 ps (drop_bit (biL - t1) p)"

definition mpi_shift_l :: "mem \<Rightarrow> mpi \<Rightarrow> nat \<Rightarrow> (int \<times> mpi \<times> mem) option" where
  "mpi_shift_l m X count = do {
     let v0 = count div biL;
     let t1 = count mod biL;
     b \<leftarrow> mpi_msb X;
     let i = b + count;
     let (ret, X, m) = (if mp_n X * biL < i then mpi_grow m X (BITS_TO_LIMBS i) else (0, X, m));
     if ret \<noteq> 0 then Some (ret, X, m)
     else
       let p = (if 0 < v0
                then replicate (min v0 (mp_n X)) 0 @ take (mp_n X - v0) (mp_p X) else mp_p X);
           p = (if 0 < t1 then take v0 p @ shl_loop t1 (drop v0 p) 0 else p)
       in Some (0, X\<lparr>mp_p := p\<rparr>, m) }"

text \<open>From the most significant limb down; the result of the recursion includes the carry into the next lower limb.\<close>

primrec shr_loop :: "nat \<Rightarrow> u64 list \<Rightarrow> u64 list \<times> u64" where
  "shr_loop v1 [] = ([], 0)"
| "shr_loop v1 (p # ps) =
     (let (qs, r0) = shr_loop v1 ps in ((drop_bit v1 p OR r0) # qs, push_bit (biL - v1) p))"

text \<open>\<open>X->n - v0\<close> is unsigned: a count beyond the number is an access outside it.\<close>

definition mpi_shift_r :: "mpi \<Rightarrow> nat \<Rightarrow> mpi option" where
  "mpi_shift_r X count =
     (let v0 = count div biL; v1 = count mod biL in
      if 0 < v0 \<and> mp_n X < v0 then None
      else
        let p = (if 0 < v0 then drop v0 (mp_p X) @ replicate v0 0 else mp_p X);
            p = (if 0 < v1 then fst (shr_loop v1 p) else p)
        in Some (X\<lparr>mp_p := p\<rparr>))"

section \<open>Comparison\<close>

primrec cmp_loop :: "int \<Rightarrow> u64 list \<Rightarrow> u64 list \<Rightarrow> nat \<Rightarrow> int" where
  "cmp_loop s p q 0 = 0"
| "cmp_loop s p q (Suc i) = (if q ! i < p ! i then s else if p ! i < q ! i then - s else cmp_loop s p q i)"

definition mpi_cmp_abs :: "mpi \<Rightarrow> mpi \<Rightarrow> int" where
  "mpi_cmp_abs X Y =
     (let i = used (mp_p X) (mp_n X); j = used (mp_p Y) (mp_n Y) in
      if i = 0 \<and> j = 0 then 0
      else if j < i then 1
      else if i < j then - 1
      else cmp_loop 1 (mp_p X) (mp_p Y) i)"

definition mpi_cmp_mpi :: "mpi \<Rightarrow> mpi \<Rightarrow> int" where
  "mpi_cmp_mpi X Y =
     (let i = used (mp_p X) (mp_n X); j = used (mp_p Y) (mp_n Y) in
      if i = 0 \<and> j = 0 then 0
      else if j < i then mp_s X
      else if i < j then - mp_s X
      else if 0 < mp_s X \<and> mp_s Y < 0 then 1
      else if 0 < mp_s Y \<and> mp_s X < 0 then - 1
      else cmp_loop (mp_s X) (mp_p X) (mp_p Y) i)"

definition mpi_cmp_int :: "mpi \<Rightarrow> int \<Rightarrow> int" where
  "mpi_cmp_int X z = mpi_cmp_mpi X (mpi_of_sint z)"

section \<open>Addition and subtraction\<close>

text \<open>The pointers advance together; the first result is the part of \<open>p\<close> that was passed.\<close>

fun add_limbs :: "u64 list \<Rightarrow> u64 list \<Rightarrow> u64 \<Rightarrow> u64 list \<times> u64" where
  "add_limbs (p # ps) (b # bs) c =
     (let p = p + c; c = of_bool (p < c);
          p = p + b; c = c + of_bool (p < b);
          (qs, c) = add_limbs ps bs c
      in (p # qs, c))"
| "add_limbs ps bs c = (ps, c)"

text \<open>
  The carry out of the last limb of \<open>B\<close>: at the end of \<open>X\<close> it is given one more limb, in which
  no further carry can arise.
\<close>

function add_carry :: "mem \<Rightarrow> mpi \<Rightarrow> nat \<Rightarrow> u64 \<Rightarrow> int \<times> mpi \<times> mem" where
  "add_carry m X i c =
     (if c = 0 then (0, X, m)
      else if mp_n X \<le> i then
        let (ret, X, m) = mpi_grow m X (i + 1)
        in if ret \<noteq> 0 then (ret, X, m) else (ret, X\<lparr>mp_p := (mp_p X)[i := mp_p X ! i + c]\<rparr>, m)
      else
        let v = mp_p X ! i + c
        in add_carry m (X\<lparr>mp_p := (mp_p X)[i := v]\<rparr>) (i + 1) (of_bool (v < c)))"
  by auto
termination by (relation "measure (\<lambda>(m, X, i, c). mp_n X - i)") auto

declare add_carry.simps [simp del]

text \<open>
  When all three arguments are the same object, the limb that is added has already been
  changed by the first addition, and comparing the sum with it compares it with itself.
\<close>

primrec add_limbs_self :: "u64 list \<Rightarrow> u64 \<Rightarrow> u64 list \<times> u64" where
  "add_limbs_self [] c = ([], c)"
| "add_limbs_self (p # ps) c =
     (let p = p + c; c = of_bool (p < c); (qs, c) = add_limbs_self ps c in ((p + p) # qs, c))"

text \<open>\<open>xa\<close> and \<open>xb\<close>: the result is the same object as the first or the second operand.\<close>

definition mpi_add_abs :: "mem \<Rightarrow> bool \<Rightarrow> bool \<Rightarrow> mpi \<Rightarrow> mpi \<Rightarrow> mpi \<Rightarrow> (int \<times> mpi \<times> mem) option" where
  "mpi_add_abs m xa xb X A B = (
     let B = (if xb then A else B) in do {
       (ret, X, m) \<leftarrow> (if xa \<or> xb then Some (0, X, m) else mpi_copy m False X A);
       if ret \<noteq> 0 then Some (ret, X, m)
       else
         let X = X\<lparr>mp_s := 1\<rparr>;
             j = used (mp_p B) (mp_n B);
             (ret, X, m) = mpi_grow m X j
         in if ret \<noteq> 0 then Some (ret, X, m)
            else
              let (p, c) = (if xa \<and> xb
                    then let (p, c) = add_limbs_self (take j (mp_p X)) 0 in (p @ drop j (mp_p X), c)
                    else add_limbs (mp_p X) (take j (mp_p B)) 0)
              in Some (add_carry m (X\<lparr>mp_p := p\<rparr>) j c) })"

text \<open>A borrow that is left when the limbs of \<open>d\<close> are used up runs on behind them.\<close>

fun sub_hlp_borrow :: "u64 list \<Rightarrow> u64 \<Rightarrow> u64 list option" where
  "sub_hlp_borrow ds c =
     (if c = 0 then Some ds
      else case ds of
          [] \<Rightarrow> None
        | d # ds \<Rightarrow> do { qs \<leftarrow> sub_hlp_borrow ds (of_bool (d < c)); Some ((d - c) # qs) })"

declare sub_hlp_borrow.simps [simp del]

fun sub_hlp_loop :: "u64 list \<Rightarrow> u64 list \<Rightarrow> u64 \<Rightarrow> u64 list option" where
  "sub_hlp_loop [] ds c = sub_hlp_borrow ds c"
| "sub_hlp_loop (s # ss) [] c = None"
| "sub_hlp_loop (s # ss) (d # ds) c =
     (let z = of_bool (d < c); d = d - c; c = of_bool (d < s) + z; d = d - s
      in do { qs \<leftarrow> sub_hlp_loop ss ds c; Some (d # qs) })"

definition mpi_sub_hlp :: "nat \<Rightarrow> u64 list \<Rightarrow> u64 list \<Rightarrow> u64 list option" where
  "mpi_sub_hlp n s d = sub_hlp_loop (take n s) d 0"

definition mpi_sub_abs :: "mem \<Rightarrow> bool \<Rightarrow> bool \<Rightarrow> mpi \<Rightarrow> mpi \<Rightarrow> mpi \<Rightarrow> (int \<times> mpi \<times> mem) option" where
  "mpi_sub_abs m xa xb X A B =
     (if mpi_cmp_abs A B < 0 then Some (POLARSSL_ERR_MPI_NEGATIVE_VALUE, X, m)
      else do {
        (ret, B, m) \<leftarrow> (if xb then mpi_copy m False mpi_init B else Some (0, B, m));
        if ret \<noteq> 0 then Some (ret, X, m)
        else do {
          (ret, X, m) \<leftarrow> (if xa then Some (0, X, m) else mpi_copy m False X A);
          if ret \<noteq> 0 then Some (ret, X, m)
          else do {
            p \<leftarrow> mpi_sub_hlp (used (mp_p B) (mp_n B)) (mp_p B) (mp_p X);
            Some (0, X\<lparr>mp_s := 1, mp_p := p\<rparr>, m) } } })"

definition set_sign :: "int \<Rightarrow> int \<times> mpi \<times> mem \<Rightarrow> int \<times> mpi \<times> mem" where
  "set_sign s r = (case r of (ret, X, m) \<Rightarrow> if ret \<noteq> 0 then (ret, X, m) else (ret, X\<lparr>mp_s := s\<rparr>, m))"

definition mpi_add_mpi :: "mem \<Rightarrow> bool \<Rightarrow> bool \<Rightarrow> mpi \<Rightarrow> mpi \<Rightarrow> mpi \<Rightarrow> (int \<times> mpi \<times> mem) option" where
  "mpi_add_mpi m xa xb X A B =
     (let s = mp_s A in
      if mp_s A * mp_s B < 0 then
        if 0 \<le> mpi_cmp_abs A B then map_option (set_sign s) (mpi_sub_abs m xa xb X A B)
        else map_option (set_sign (- s)) (mpi_sub_abs m xb xa X B A)
      else map_option (set_sign s) (mpi_add_abs m xa xb X A B))"

definition mpi_sub_mpi :: "mem \<Rightarrow> bool \<Rightarrow> bool \<Rightarrow> mpi \<Rightarrow> mpi \<Rightarrow> mpi \<Rightarrow> (int \<times> mpi \<times> mem) option" where
  "mpi_sub_mpi m xa xb X A B =
     (let s = mp_s A in
      if 0 < mp_s A * mp_s B then
        if 0 \<le> mpi_cmp_abs A B then map_option (set_sign s) (mpi_sub_abs m xa xb X A B)
        else map_option (set_sign (- s)) (mpi_sub_abs m xb xa X B A)
      else map_option (set_sign s) (mpi_add_abs m xa xb X A B))"

definition mpi_add_int :: "mem \<Rightarrow> bool \<Rightarrow> mpi \<Rightarrow> mpi \<Rightarrow> int \<Rightarrow> (int \<times> mpi \<times> mem) option" where
  "mpi_add_int m xa X A b = mpi_add_mpi m xa False X A (mpi_of_sint b)"

definition mpi_sub_int :: "mem \<Rightarrow> bool \<Rightarrow> mpi \<Rightarrow> mpi \<Rightarrow> int \<Rightarrow> (int \<times> mpi \<times> mem) option" where
  "mpi_sub_int m xa X A b = mpi_sub_mpi m xa False X A (mpi_of_sint b)"

section \<open>Multiplication\<close>

text \<open>
  One multiply-and-add of the assembly: \<open>mulq\<close>, the addition of the carry register, and the
  addition into the destination, each with its carry flag.
\<close>

definition muladdc_core :: "u64 \<Rightarrow> u64 \<Rightarrow> u64 \<Rightarrow> u64 \<Rightarrow> u64 \<times> u64" where
  "muladdc_core s b d rcx =
     (let r = (ucast s :: 128 word) * ucast b;
          rax = (ucast r :: u64); rdx = (ucast (drop_bit 64 r) :: u64);
          rax = rax + rcx; cf = of_bool (rax < rcx);
          rdx = rdx + cf;
          d = d + rax; cf = of_bool (d < rax)
      in (d, rdx + cf))"

text \<open>\<open>k\<close> of them in a row: source and destination pointers advance, the carry stays in its register.\<close>

type_synonym muladdc_state = "u64 list \<times> u64 list \<times> u64 list \<times> u64"

fun muladdc_step :: "u64 \<Rightarrow> muladdc_state \<Rightarrow> muladdc_state option" where
  "muladdc_step b (s # ss, acc, d # ds, c) =
     (let (d, c) = muladdc_core s b d c in Some (ss, acc @ [d], ds, c))"
| "muladdc_step b (ss, acc, ds, c) = None"

primrec muladdc :: "u64 \<Rightarrow> nat \<Rightarrow> muladdc_state \<Rightarrow> muladdc_state option" where
  "muladdc b 0 st = Some st"
| "muladdc b (Suc k) st = do { st \<leftarrow> muladdc_step b st; muladdc b k st }"

text \<open>The unrolled loops: as long as \<open>i \<ge> w\<close>, \<open>w\<close> of them.\<close>

function mul_chunks :: "u64 \<Rightarrow> nat \<Rightarrow> nat \<Rightarrow> muladdc_state \<Rightarrow> (nat \<times> muladdc_state) option" where
  "mul_chunks b w i st =
     (if 0 < w \<and> w \<le> i then do { st \<leftarrow> muladdc b w st; mul_chunks b w (i - w) st }
      else Some (i, st))"
  by auto
termination by (relation "measure (\<lambda>(b, w, i, st). i)") auto

declare mul_chunks.simps [simp del]

fun mul_hlp_carry :: "u64 list \<Rightarrow> u64 \<Rightarrow> u64 list option" where
  "mul_hlp_carry [] c = None"
| "mul_hlp_carry (d # ds) c =
     (let d = d + c in
      if d < c then do { qs \<leftarrow> mul_hlp_carry ds 1; Some (d # qs) } else Some (d # ds))"

definition mpi_mul_hlp :: "nat \<Rightarrow> u64 list \<Rightarrow> u64 list \<Rightarrow> u64 \<Rightarrow> u64 list option" where
  "mpi_mul_hlp i s d b = do {
     (i, st) \<leftarrow> mul_chunks b 16 i (s, [], d, 0);
     (i, st) \<leftarrow> mul_chunks b 8 i st;
     (i, (s, acc, d, c)) \<leftarrow> mul_chunks b 1 i st;
     d \<leftarrow> mul_hlp_carry d c;
     Some (acc @ d) }"

primrec mul_loop :: "nat \<Rightarrow> u64 list \<Rightarrow> u64 list \<Rightarrow> nat \<Rightarrow> u64 list \<Rightarrow> u64 list option" where
  "mul_loop i a b 0 x = Some x"
| "mul_loop i a b (Suc j) x = do {
     d \<leftarrow> mpi_mul_hlp i a (drop j x) (b ! j);
     mul_loop i a b j (take j x @ d) }"

definition mpi_mul_mpi :: "mem \<Rightarrow> bool \<Rightarrow> bool \<Rightarrow> mpi \<Rightarrow> mpi \<Rightarrow> mpi \<Rightarrow> (int \<times> mpi \<times> mem) option" where
  "mpi_mul_mpi m xa xb X A B = do {
     (ret, A, m) \<leftarrow> (if xa then mpi_copy m False mpi_init A else Some (0, A, m));
     if ret \<noteq> 0 then Some (ret, X, m)
     else do {
       (ret, B, m) \<leftarrow> (if xb then mpi_copy m False mpi_init B else Some (0, B, m));
       if ret \<noteq> 0 then Some (ret, X, m)
       else
         let i = used (mp_p A) (mp_n A); j = used (mp_p B) (mp_n B);
             (ret, X, m) = mpi_grow m X (i + j)
         in if ret \<noteq> 0 then Some (ret, X, m)
            else
              let (ret, X, m) = mpi_lset m X 0
              in if ret \<noteq> 0 then Some (ret, X, m)
                 else do {
                   p \<leftarrow> mul_loop i (mp_p A) (mp_p B) j (mp_p X);
                   Some (0, X\<lparr>mp_p := p, mp_s := mp_s A * mp_s B\<rparr>, m) } } }"

definition mpi_mul_int :: "mem \<Rightarrow> bool \<Rightarrow> mpi \<Rightarrow> mpi \<Rightarrow> u64 \<Rightarrow> (int \<times> mpi \<times> mem) option" where
  "mpi_mul_int m xa X A b = mpi_mul_mpi m xa False X A \<lparr>mp_s = 1, mp_p = [b]\<rparr>"

section \<open>Division\<close>

text \<open>
  \<open>MPI_CHK\<close> in a function whose other results are still \<open>b\<close>: a failed call ends it with the
  call's return code.
\<close>

definition mpi_chk :: "(int \<times> 'a \<times> mem) option \<Rightarrow> 'b \<Rightarrow> ('a \<Rightarrow> mem \<Rightarrow> (int \<times> 'b \<times> mem) option) \<Rightarrow>
    (int \<times> 'b \<times> mem) option" where
  "mpi_chk r b k = do { (ret, x, m) \<leftarrow> r; if ret \<noteq> 0 then Some (ret, b, m) else k x m }"

lemma mpi_chk_mono [partial_function_mono]:
  assumes "mono_option B" "\<And>x m. mono_option (\<lambda>f. C x m f)"
  shows "mono_option (\<lambda>f. mpi_chk (B f) b (\<lambda>x m. C x m f))"
proof -
  have "mono_option (\<lambda>f. if ret \<noteq> 0 then Some (ret, b, m) else C x m f)" for ret x m
    using assms(2) by (cases "ret = 0") (auto simp: monotone_def flat_ord_def)
  then show ?thesis
    unfolding mpi_chk_def by (intro bind_mono assms(1)) (auto simp: split_beta monotone_def)
qed

definition limb_at :: "u64 list \<Rightarrow> nat \<Rightarrow> u64 option" where
  "limb_at p i = (if i < length p then Some (p ! i) else None)"

definition limb_put :: "u64 list \<Rightarrow> nat \<Rightarrow> u64 \<Rightarrow> u64 list option" where
  "limb_put p i w = (if i < length p then Some (p[i := w]) else None)"

text \<open>\<open>while (X >= Y) { Z.p[k]++; X -= Y; }\<close>, where the result of the subtraction is not checked.\<close>

partial_function (option) div_top :: "nat \<Rightarrow> mpi \<Rightarrow> mem \<Rightarrow> mpi \<Rightarrow> u64 list \<Rightarrow> (mpi \<times> u64 list \<times> mem) option" where
  [code]: "div_top k Y m X z =
     (if 0 \<le> mpi_cmp_mpi X Y then do {
        zk \<leftarrow> limb_at z k;
        (ret, X, m) \<leftarrow> mpi_sub_mpi m True False X X Y;
        div_top k Y m X (z[k := zk + 1]) }
      else Some (X, z, m))"

text \<open>Two limbs by one, in halves; dividing by zero is a fault.\<close>

partial_function (option) qr_adjust :: "u64 \<Rightarrow> u64 \<Rightarrow> u64 \<Rightarrow> u64 \<Rightarrow> (u64 \<times> u64) option" where
  [code]: "qr_adjust d mm q r = (if d \<le> r \<and> r < mm then qr_adjust d mm (q - 1) (r + d) else Some (q, r))"

definition qr_half :: "u64 \<Rightarrow> u64 \<Rightarrow> u64 \<Rightarrow> (u64 \<times> u64) option" where
  "qr_half d x lo =
     (let d0 = drop_bit biH (push_bit biH d); d1 = drop_bit biH d in
      if d1 = 0 then None
      else
        let q = x div d1;
            r = push_bit biH (x - d1 * q) OR lo;
            mm = q * d0
        in do {
          (q, r) \<leftarrow> (if r < mm then qr_adjust d mm (q - 1) (r + d) else Some (q, r));
          Some (q, r - mm) })"

definition udiv_qrnnd :: "u64 \<Rightarrow> u64 \<Rightarrow> u64 \<Rightarrow> u64 option" where
  "udiv_qrnnd x1 x0 d = do {
     (q1, r1) \<leftarrow> qr_half d x1 (drop_bit biH x0);
     (q0, r0) \<leftarrow> qr_half d r1 (drop_bit biH (push_bit biH x0));
     Some (push_bit biH q1 OR q0) }"

text \<open>
  The \<open>do ... while\<close> loop that lowers the trial digit \<open>z\<close>: it is decremented on entry (and
  was incremented before the first round).
\<close>

partial_function (option) div_qloop ::
  "u64 list \<Rightarrow> u64 list \<Rightarrow> nat \<Rightarrow> nat \<Rightarrow> mem \<Rightarrow> mpi \<Rightarrow> mpi \<Rightarrow> u64 \<Rightarrow> (int \<times> (mpi \<times> mpi \<times> u64) \<times> mem) option" where
  [code]: "div_qloop x y i t m T1 T2 z = (
     let z = z - 1 in
     mpi_chk (Some (mpi_lset m T1 0)) (T1, T2, z) (\<lambda>T1 m. do {
       y1 \<leftarrow> (if t < 1 then Some 0 else limb_at y (t - 1));
       y0 \<leftarrow> limb_at y t;
       p \<leftarrow> limb_put (mp_p T1) 0 y1;
       p \<leftarrow> limb_put p 1 y0;
       mpi_chk (mpi_mul_int m True (T1\<lparr>mp_p := p\<rparr>) (T1\<lparr>mp_p := p\<rparr>) z) (T1, T2, z) (\<lambda>T1 m.
         mpi_chk (Some (mpi_lset m T2 0)) (T1, T2, z) (\<lambda>T2 m. do {
           x2 \<leftarrow> (if i < 2 then Some 0 else limb_at x (i - 2));
           x1 \<leftarrow> (if i < 1 then Some 0 else limb_at x (i - 1));
           x0 \<leftarrow> limb_at x i;
           p \<leftarrow> limb_put (mp_p T2) 0 x2;
           p \<leftarrow> limb_put p 1 x1;
           p \<leftarrow> limb_put p 2 x0;
           let T2 = T2\<lparr>mp_p := p\<rparr>;
           if 0 < mpi_cmp_mpi T1 T2 then div_qloop x y i t m T1 T2 z
           else Some (0, (T1, T2, z), m) })) }))"

text \<open>One round of the main loop: the digit at \<open>i - t - 1\<close>.\<close>

type_synonym div_state = "mpi \<times> u64 list \<times> mpi \<times> mpi"

definition div_trial :: "u64 list \<Rightarrow> u64 list \<Rightarrow> nat \<Rightarrow> nat \<Rightarrow> u64 option" where
  "div_trial x y i t = do {
     x0 \<leftarrow> limb_at x i;
     y0 \<leftarrow> limb_at y t;
     if y0 \<le> x0 then Some (- 1)
     else do { x1 \<leftarrow> limb_at x (i - 1); udiv_qrnnd x0 x1 y0 } }"

definition div_step :: "mpi \<Rightarrow> nat \<Rightarrow> nat \<Rightarrow> div_state \<Rightarrow> mem \<Rightarrow> (int \<times> div_state \<times> mem) option" where
  "div_step Y t i st m = (case st of (X, z, T1, T2) \<Rightarrow> do {
     zq \<leftarrow> div_trial (mp_p X) (mp_p Y) i t;
     mpi_chk (div_qloop (mp_p X) (mp_p Y) i t m T1 T2 (zq + 1)) st (\<lambda>(T1, T2, zq) m.
       mpi_chk (mpi_mul_int m False T1 Y zq) st (\<lambda>T1 m.
         mpi_chk (mpi_shift_l m T1 (biL * (i - t - 1))) st (\<lambda>T1 m.
           mpi_chk (mpi_sub_mpi m True False X X T1) st (\<lambda>X m. do {
             z \<leftarrow> limb_put z (i - t - 1) zq;
             if mpi_cmp_int X 0 < 0 then
               mpi_chk (mpi_copy m False T1 Y) st (\<lambda>T1 m.
                 mpi_chk (mpi_shift_l m T1 (biL * (i - t - 1))) st (\<lambda>T1 m.
                   mpi_chk (mpi_add_mpi m True False X X T1) st (\<lambda>X m.
                     Some (0, (X, z[i - t - 1 := zq - 1], T1, T2), m))))
             else Some (0, (X, z, T1, T2), m) })))) })"

text \<open>The main loop, for \<open>i = t + k\<close> down to \<open>t + 1\<close>.\<close>

primrec div_loop :: "mpi \<Rightarrow> nat \<Rightarrow> nat \<Rightarrow> div_state \<Rightarrow> mem \<Rightarrow> (int \<times> div_state \<times> mem) option" where
  "div_loop Y t 0 st m = Some (0, st, m)"
| "div_loop Y t (Suc k) st m = mpi_chk (div_step Y t (t + Suc k) st m) st (div_loop Y t k)"

text \<open>
  \<open>Q\<close> and \<open>R\<close> may be \<open>NULL\<close>; \<open>ra\<close>: the remainder is the same object as the dividend, whose sign
  is then read after it was overwritten. The results of the last copies are not checked.
\<close>

definition div_results :: "bool \<Rightarrow> mpi option \<Rightarrow> mpi option \<Rightarrow> mpi \<Rightarrow> mpi \<Rightarrow> nat \<Rightarrow> mpi \<Rightarrow> mpi \<Rightarrow> mem \<Rightarrow>
    (int \<times> (mpi option \<times> mpi option) \<times> mem) option" where
  "div_results ra Q R A B k X Z m = do {
     (Q, m) \<leftarrow> (case Q of
         None \<Rightarrow> Some (None, m)
       | Some Q \<Rightarrow> do { (ret, Q, m) \<leftarrow> mpi_copy m False Q Z; Some (Some (Q\<lparr>mp_s := mp_s A * mp_s B\<rparr>), m) });
     (case R of
         None \<Rightarrow> Some (0, (Q, None), m)
       | Some R \<Rightarrow> do {
           X \<leftarrow> mpi_shift_r X k;
           (ret, R, m) \<leftarrow> mpi_copy m False R X;
           let R = R\<lparr>mp_s := (if ra then mp_s R else mp_s A)\<rparr>;
           let R = (if mpi_cmp_int R 0 = 0 then R\<lparr>mp_s := 1\<rparr> else R);
           Some (0, (Q, Some R), m) }) }"

definition mpi_div_mpi :: "mem \<Rightarrow> bool \<Rightarrow> mpi option \<Rightarrow> mpi option \<Rightarrow> mpi \<Rightarrow> mpi \<Rightarrow>
    (int \<times> (mpi option \<times> mpi option) \<times> mem) option" where
  "mpi_div_mpi m ra Q R A B =
     (if mpi_cmp_int B 0 = 0 then Some (POLARSSL_ERR_MPI_DIVISION_BY_ZERO, (Q, R), m)
      else if mpi_cmp_abs A B < 0 then
        mpi_chk (case Q of None \<Rightarrow> Some (0, None, m)
                 | Some Q \<Rightarrow> (let (ret, Q, m) = mpi_lset m Q 0 in Some (ret, Some Q, m))) (Q, R) (\<lambda>Q m.
          mpi_chk (case R of None \<Rightarrow> Some (0, None, m)
                   | Some R \<Rightarrow> map_option (\<lambda>(ret, R, m). (ret, Some R, m)) (mpi_copy m ra R A)) (Q, R) (\<lambda>R m.
            Some (0, (Q, R), m)))
      else
        mpi_chk (mpi_copy m False mpi_init A) (Q, R) (\<lambda>X m.
        mpi_chk (mpi_copy m False mpi_init B) (Q, R) (\<lambda>Y m.
        let X = X\<lparr>mp_s := 1\<rparr>; Y = Y\<lparr>mp_s := 1\<rparr> in
        mpi_chk (Some (mpi_grow m mpi_init (mp_n A + 2))) (Q, R) (\<lambda>Z m.
        mpi_chk (Some (mpi_lset m Z 0)) (Q, R) (\<lambda>Z m.
        mpi_chk (Some (mpi_grow m mpi_init 2)) (Q, R) (\<lambda>T1 m.
        mpi_chk (Some (mpi_grow m mpi_init 3)) (Q, R) (\<lambda>T2 m. do {
          b \<leftarrow> mpi_msb Y;
          let k = (if b mod biL < biL - 1 then biL - 1 - b mod biL else 0);
          mpi_chk (if 0 < k then mpi_shift_l m X k else Some (0, X, m)) (Q, R) (\<lambda>X m.
          mpi_chk (if 0 < k then mpi_shift_l m Y k else Some (0, Y, m)) (Q, R) (\<lambda>Y m. do {
            let n = mp_n X - 1;
            let t = mp_n Y - 1;
            (_, Y, m) \<leftarrow> mpi_shift_l m Y (biL * (n - t));
            (X, z, m) \<leftarrow> div_top (n - t) Y m X (mp_p Z);
            Y \<leftarrow> mpi_shift_r Y (biL * (n - t));
            mpi_chk (div_loop Y t (n - t) (X, z, T1, T2) m) (Q, R) (\<lambda>(X, z, T1, T2) m.
              div_results ra Q R A B k X (Z\<lparr>mp_p := z\<rparr>) m) })) })))))))"

text \<open>
  The two loops of the reduction; one that does not end is \<open>None\<close>. \<open>ra\<close>: the result is the
  same object as the dividend.
\<close>

partial_function (option) mod_up :: "mpi \<Rightarrow> mpi \<Rightarrow> mem \<Rightarrow> (int \<times> mpi \<times> mem) option" where
  [code]: "mod_up B R m =
     (if mpi_cmp_int R 0 < 0 then mpi_chk (mpi_add_mpi m True False R R B) R (mod_up B)
      else Some (0, R, m))"

partial_function (option) mod_down :: "mpi \<Rightarrow> mpi \<Rightarrow> mem \<Rightarrow> (int \<times> mpi \<times> mem) option" where
  [code]: "mod_down B R m =
     (if 0 \<le> mpi_cmp_mpi R B then mpi_chk (mpi_sub_mpi m True False R R B) R (mod_down B)
      else Some (0, R, m))"

definition mpi_mod_mpi :: "mem \<Rightarrow> bool \<Rightarrow> mpi \<Rightarrow> mpi \<Rightarrow> mpi \<Rightarrow> (int \<times> mpi \<times> mem) option" where
  "mpi_mod_mpi m ra R A B =
     (if mpi_cmp_int B 0 < 0 then Some (POLARSSL_ERR_MPI_NEGATIVE_VALUE, R, m)
      else mpi_chk (mpi_div_mpi m ra None (Some R) A B) R (\<lambda>(_, R') m. do {
        R' \<leftarrow> R';
        mpi_chk (mod_up B R' m) R (mod_down B) }))"

section \<open>Exponentiation\<close>

definition mpi_montg_init :: "mpi \<Rightarrow> u64 option" where
  "mpi_montg_init N = do {
     m0 \<leftarrow> limb_at (mp_p N) 0;
     let x = m0;
     let x = x + push_bit 1 ((m0 + 2) AND 4);
     let x = x * (2 - m0 * x);
     let x = x * (2 - m0 * x);
     let x = x * (2 - m0 * x);
     let x = x * (2 - m0 * x);
     Some (NOT x + 1) }"

text \<open>
  The rounds of the multiplication: \<open>us\<close> are the limbs of \<open>A\<close> still to come, \<open>front\<close> the limbs of
  \<open>T\<close> that \<open>d\<close> has passed.
\<close>

primrec montmul_loop ::
  "u64 \<Rightarrow> u64 list \<Rightarrow> u64 list \<Rightarrow> nat \<Rightarrow> nat \<Rightarrow> u64 list \<Rightarrow> u64 list \<Rightarrow> u64 list \<Rightarrow> (u64 list \<times> u64 list) option" where
  "montmul_loop mm b nn n k [] front d = Some (front, d)"
| "montmul_loop mm b nn n k (u0 # us) front d = do {
     d0 \<leftarrow> limb_at d 0;
     b0 \<leftarrow> limb_at b 0;
     let u1 = (d0 + u0 * b0) * mm;
     d \<leftarrow> mpi_mul_hlp k b d u0;
     d \<leftarrow> mpi_mul_hlp n nn d u1;
     d \<leftarrow> limb_put (tl d) (n + 1) 0;
     montmul_loop mm b nn n k us (front @ [u0]) d }"

definition mpi_montmul :: "mpi \<Rightarrow> mpi \<Rightarrow> mpi \<Rightarrow> u64 \<Rightarrow> mpi \<Rightarrow> (mpi \<times> mpi) option" where
  "mpi_montmul A B N mm T = (
     let n = mp_n N;
         k = (if mp_n B < n then mp_n B else n)
     in if mp_n A < n + 1 then None
        else do {
          (front, d) \<leftarrow> montmul_loop mm (mp_p B) (mp_p N) n k (take n (mp_p A)) [] (replicate (mp_n T) 0);
          let A = A\<lparr>mp_p := take (n + 1) d @ drop (n + 1) (mp_p A)\<rparr>;
          if 0 \<le> mpi_cmp_abs A N then do {
            p \<leftarrow> mpi_sub_hlp n (mp_p N) (mp_p A);
            Some (A\<lparr>mp_p := p\<rparr>, T\<lparr>mp_p := front @ d\<rparr>) }
          else do {
            p \<leftarrow> mpi_sub_hlp n (mp_p A) (front @ d);
            Some (A, T\<lparr>mp_p := p\<rparr>) } })"

definition mpi_montred :: "mpi \<Rightarrow> mpi \<Rightarrow> u64 \<Rightarrow> mpi \<Rightarrow> (mpi \<times> mpi) option" where
  "mpi_montred A N mm T = mpi_montmul A \<lparr>mp_s = 1, mp_p = [1]\<rparr> N mm T"

text \<open>\<open>X = X * X\<close>, \<open>k\<close> times.\<close>

primrec montsqr :: "nat \<Rightarrow> mpi \<Rightarrow> u64 \<Rightarrow> mpi \<times> mpi \<Rightarrow> (mpi \<times> mpi) option" where
  "montsqr 0 N mm st = Some st"
| "montsqr (Suc k) N mm st = do { st \<leftarrow> mpi_montmul (fst st) (fst st) N mm (snd st); montsqr k N mm st }"

definition exp_wsize :: "nat \<Rightarrow> nat" where
  "exp_wsize i =
     (let wsize = (if 671 < i then 6 else if 239 < i then 5 else if 79 < i then 4 else if 23 < i then 3 else 1)
      in if POLARSSL_MPI_WINDOW_SIZE < wsize then POLARSSL_MPI_WINDOW_SIZE else wsize)"

text \<open>The table entries above the first: \<open>W[i] = W[i - 1] * W[1]\<close>, for \<open>cnt\<close> entries from \<open>i\<close> on.\<close>

primrec exp_table :: "nat \<Rightarrow> mpi \<Rightarrow> u64 \<Rightarrow> nat \<Rightarrow> mpi list \<times> mpi \<Rightarrow> mem \<Rightarrow> (int \<times> (mpi list \<times> mpi) \<times> mem) option" where
  "exp_table 0 N mm i st m = Some (0, st, m)"
| "exp_table (Suc cnt) N mm i st m = (case st of (W, T) \<Rightarrow>
     mpi_chk (Some (mpi_grow m (W ! i) (mp_n N + 1))) st (\<lambda>Wi m.
     mpi_chk (mpi_copy m False Wi (W ! (i - 1))) st (\<lambda>Wi m. do {
       (Wi, T) \<leftarrow> mpi_montmul Wi (W ! 1) N mm T;
       exp_table cnt N mm (i + 1) (W[i := Wi], T) m })))"

text \<open>
  The state of the scan over the exponent: the running power, the scratch space, the number
  of bits and the bits of the current window, and whether a window was started.
\<close>

record exp_state =
  es_X :: mpi
  es_T :: mpi
  es_nbits :: nat
  es_wbits :: nat
  es_state :: nat

definition exp_bit :: "mpi \<Rightarrow> u64 \<Rightarrow> nat \<Rightarrow> mpi list \<Rightarrow> bool \<Rightarrow> exp_state \<Rightarrow> exp_state option" where
  "exp_bit N mm wsize W ei st =
     (if \<not> ei \<and> es_state st = 0 then Some st
      else if \<not> ei \<and> es_state st = 1 then do {
        (X, T) \<leftarrow> mpi_montmul (es_X st) (es_X st) N mm (es_T st);
        Some (st\<lparr>es_X := X, es_T := T\<rparr>) }
      else
        let nbits = es_nbits st + 1;
            wbits = es_wbits st OR push_bit (wsize - nbits) (of_bool ei)
        in if nbits = wsize then do {
             (X, T) \<leftarrow> montsqr wsize N mm (es_X st, es_T st);
             (X, T) \<leftarrow> mpi_montmul X (W ! wbits) N mm T;
             Some \<lparr>es_X = X, es_T = T, es_nbits = 0, es_wbits = 0, es_state = 1\<rparr> }
           else Some (st\<lparr>es_state := 2, es_nbits := nbits, es_wbits := wbits\<rparr>))"

text \<open>The bits of the exponent from the top of its highest limb down.\<close>

function exp_loop :: "mpi \<Rightarrow> u64 \<Rightarrow> nat \<Rightarrow> mpi list \<Rightarrow> u64 list \<Rightarrow> nat \<Rightarrow> nat \<Rightarrow> exp_state \<Rightarrow> exp_state option" where
  "exp_loop N mm wsize W e nblimbs bufsize st =
     (if bufsize = 0 \<and> nblimbs = 0 then Some st
      else
        let (nblimbs, bufsize) = (if bufsize = 0 then (nblimbs - 1, biL) else (nblimbs, bufsize));
            bufsize = bufsize - 1
        in do {
          st \<leftarrow> exp_bit N mm wsize W (drop_bit bufsize (e ! nblimbs) AND 1 \<noteq> 0) st;
          exp_loop N mm wsize W e nblimbs bufsize st })"
  by auto
termination by (relation "measure (\<lambda>(N, mm, wsize, W, e, nblimbs, bufsize, st). nblimbs * 65 + bufsize)") (auto split: if_splits)

declare exp_loop.simps [simp del]

text \<open>The bits that were left in an unfinished window.\<close>

primrec exp_rest :: "nat \<Rightarrow> mpi \<Rightarrow> u64 \<Rightarrow> nat \<Rightarrow> mpi \<Rightarrow> nat \<Rightarrow> mpi \<times> mpi \<Rightarrow> (mpi \<times> mpi) option" where
  "exp_rest 0 N mm wsize W1 wbits st = Some st"
| "exp_rest (Suc k) N mm wsize W1 wbits st = do {
     (X, T) \<leftarrow> mpi_montmul (fst st) (fst st) N mm (snd st);
     let wbits = 2 * wbits;
     st \<leftarrow> (if wbits AND push_bit wsize 1 \<noteq> 0 then mpi_montmul X W1 N mm T else Some (X, T));
     exp_rest k N mm wsize W1 wbits st }"

text \<open>\<open>RR\<close> is the cache of the square of the radix, \<open>None\<close> for \<open>NULL\<close>; it is filled when it is empty.\<close>

definition exp_radix :: "mpi option \<Rightarrow> mpi \<Rightarrow> mem \<Rightarrow> (int \<times> mpi \<times> mem) option" where
  "exp_radix RR N m =
     (case RR of
        Some R \<Rightarrow> if mp_p R \<noteq> [] then Some (0, R, m) else
          mpi_chk (Some (mpi_lset m mpi_init 1)) R (\<lambda>R m.
          mpi_chk (mpi_shift_l m R (mp_n N * 2 * biL)) R (\<lambda>R m. mpi_mod_mpi m True R R N))
      | None \<Rightarrow>
          mpi_chk (Some (mpi_lset m mpi_init 1)) mpi_init (\<lambda>R m.
          mpi_chk (mpi_shift_l m R (mp_n N * 2 * biL)) R (\<lambda>R m. mpi_mod_mpi m True R R N)))"

definition exp_windows :: "nat \<Rightarrow> mpi \<Rightarrow> u64 \<Rightarrow> mpi list \<times> mpi \<Rightarrow> mem \<Rightarrow> (int \<times> (mpi list \<times> mpi) \<times> mem) option" where
  "exp_windows wsize N mm st m =
     (if wsize \<le> 1 then Some (0, st, m)
      else case st of (W, T) \<Rightarrow>
        let j = 2 ^ (wsize - 1) in
        mpi_chk (Some (mpi_grow m (W ! j) (mp_n N + 1))) st (\<lambda>Wj m.
        mpi_chk (mpi_copy m False Wj (W ! 1)) st (\<lambda>Wj m. do {
          (Wj, T) \<leftarrow> montsqr (wsize - 1) N mm (Wj, T);
          exp_table (2 ^ wsize - (j + 1)) N mm (j + 1) (W[j := Wj], T) m })))"

definition mpi_exp_mod :: "mem \<Rightarrow> mpi \<Rightarrow> mpi \<Rightarrow> mpi \<Rightarrow> mpi \<Rightarrow> mpi option \<Rightarrow>
    (int \<times> (mpi \<times> mpi option) \<times> mem) option" where
  "mpi_exp_mod m X A E N RR = do {
     n0 \<leftarrow> limb_at (mp_p N) 0;
     if mpi_cmp_int N 0 < 0 \<or> n0 AND 1 = 0 then Some (POLARSSL_ERR_MPI_BAD_INPUT_DATA, (X, RR), m)
     else do {
       mm \<leftarrow> mpi_montg_init N;
       b \<leftarrow> mpi_msb E;
       let wsize = exp_wsize b;
       let j = mp_n N + 1;
       mpi_chk (Some (mpi_grow m X j)) (X, RR) (\<lambda>X m.
       mpi_chk (Some (mpi_grow m \<lparr>mp_s = 0, mp_p = []\<rparr> j)) (X, RR) (\<lambda>W1 m.
       mpi_chk (Some (mpi_grow m mpi_init (j * 2))) (X, RR) (\<lambda>T m.
       mpi_chk (exp_radix RR N m) (X, RR) (\<lambda>R m.
       let RR = map_option (\<lambda>_. R) RR in do {
         (_, W1, m) \<leftarrow> (if 0 \<le> mpi_cmp_mpi A N then mpi_mod_mpi m False W1 A N else mpi_copy m False W1 A);
         (W1, T) \<leftarrow> mpi_montmul W1 R N mm T;
         mpi_chk (mpi_copy m False X R) (X, RR) (\<lambda>X m. do {
           (X, T) \<leftarrow> mpi_montred X N mm T;
           let W = (replicate (2 * 2 ^ POLARSSL_MPI_WINDOW_SIZE) \<lparr>mp_s = 0, mp_p = []\<rparr>)[1 := W1];
           mpi_chk (exp_windows wsize N mm (W, T) m) (X, RR) (\<lambda>(W, T) m. do {
             st \<leftarrow> exp_loop N mm wsize W (mp_p E) (mp_n E) 0
                     \<lparr>es_X = X, es_T = T, es_nbits = 0, es_wbits = 0, es_state = 0\<rparr>;
             (X, T) \<leftarrow> exp_rest (es_nbits st) N mm wsize (W ! 1) (es_wbits st) (es_X st, es_T st);
             (X, T) \<leftarrow> mpi_montred X N mm T;
             Some (0, (X, RR), m) }) }) })))) } }"

section \<open>Random numbers\<close>

text \<open>The limbs of a block of bytes in the byte order of the machine.\<close>

primrec le_limb :: "bytes \<Rightarrow> u64" where
  "le_limb [] = 0"
| "le_limb (b # bs) = ucast b OR push_bit 8 (le_limb bs)"

definition le_limbs :: "nat \<Rightarrow> bytes \<Rightarrow> u64 list" where
  "le_limbs n bs = map (\<lambda>i. le_limb (take ciL (drop (ciL * i) bs))) [0..<n]"

text \<open>\<open>f_rng n\<close>: the return code of the generator and the \<open>n\<close> bytes it writes.\<close>

definition mpi_fill_random :: "mem \<Rightarrow> mpi \<Rightarrow> nat \<Rightarrow> (nat \<Rightarrow> int \<times> bytes) \<Rightarrow> int \<times> mpi \<times> mem" where
  "mpi_fill_random m X sz f_rng =
     (let (ret, X, m) = mpi_grow m X sz
      in if ret \<noteq> 0 then (ret, X, m)
         else
           let (ret, X, m) = mpi_lset m X 0
           in if ret \<noteq> 0 then (ret, X, m)
              else
                let (ret, bs) = f_rng (mp_n X * ciL)
                in (ret, X\<lparr>mp_p := le_limbs (mp_n X) bs\<rparr>, m))"

end
