(* ===== verification/Bignum_Arith.thy ===== *)
theory Bignum_Arith
  imports Bignum
begin

text \<open>
  The value of a multi-precision integer, and what the operations of \<open>Bignum\<close> below division
  do to it: comparison, copying, shifts, addition, subtraction, multiplication and the two
  conversions to and from binary data.
\<close>

section \<open>Values\<close>

definition LB :: int where "LB = 2 ^ 64"

primrec lval :: "u64 list \<Rightarrow> int" where
  "lval [] = 0"
| "lval (x # xs) = uint x + LB * lval xs"

definition mval :: "mpi \<Rightarrow> int" where
  "mval X = mp_s X * lval (mp_p X)"

lemma LB_gt: "4 < LB" by (simp add: LB_def)
lemma LB_pos [simp]: "0 < LB" "0 \<le> LB" "LB \<noteq> 0" by (simp_all add: LB_def)
lemma LB_pow_pos [simp]: "0 < LB ^ n" "0 \<le> LB ^ n" "LB ^ n \<noteq> 0" by simp_all
lemma LB_pow_ge1: "1 \<le> LB ^ n" using LB_pow_pos(1) [of n] by linarith

lemma LB_pow_mono: "m \<le> n \<Longrightarrow> LB ^ m \<le> LB ^ n"
  using LB_gt by (intro power_increasing) auto

lemma LB_pow_strict_mono: "m < n \<Longrightarrow> LB ^ m < LB ^ n"
  using LB_gt by (intro power_strict_increasing) auto

lemma LB_pow_less_iff: "LB ^ m < LB ^ n \<longleftrightarrow> m < n"
  using LB_gt by (simp add: power_strict_increasing_iff)

lemma uint_LB: "0 \<le> uint (w :: u64)" "uint (w :: u64) < LB"
  using uint_bounded [of w] by (simp_all add: LB_def)

lemma uint_le_LB: "uint (w :: u64) \<le> LB - 1" using uint_LB(2) [of w] by linarith

lemma lval_nonneg [simp]: "0 \<le> lval p"
  by (induction p) (simp_all add: uint_LB)

lemma lval_bound: "lval p < LB ^ length p"
proof (induction p)
  case (Cons x p)
  have "uint x + LB * lval p \<le> (LB - 1) + LB * (LB ^ length p - 1)"
    using Cons uint_le_LB [of x] by (intro add_mono mult_left_mono) simp_all
  then show ?case by (simp add: algebra_simps)
qed simp

lemma lval_append: "lval (p @ q) = lval p + LB ^ length p * lval q"
  by (induction p) (simp_all add: algebra_simps)

lemma lval_zeros [simp]: "lval (replicate n 0) = 0"
  by (induction n) simp_all

lemma lval_take_drop: "k \<le> length p \<Longrightarrow> lval p = lval (take k p) + LB ^ k * lval (drop k p)"
  using lval_append [of "take k p" "drop k p"] by (simp add: min_def)

lemma lval_update: "i < length p \<Longrightarrow> lval (p[i := w]) = lval p + LB ^ i * (uint w - uint (p ! i))"
proof (induction p arbitrary: i)
  case (Cons x p)
  show ?case
  proof (cases i)
    case (Suc j)
    then have e: "lval (p[j := w]) = lval p + LB ^ j * (uint w - uint (p ! j))" using Cons by simp
    show ?thesis by (simp add: Suc e distrib_left)
  qed simp
qed simp

lemma lval_nth: "i < length p \<Longrightarrow> LB ^ i * uint (p ! i) \<le> lval p"
proof (induction p arbitrary: i)
  case (Cons x p)
  show ?case
  proof (cases i)
    case (Suc j)
    then have "LB ^ j * uint (p ! j) \<le> lval p" using Cons by simp
    then have "LB * (LB ^ j * uint (p ! j)) \<le> LB * lval p" by (rule mult_left_mono) simp
    then have "LB * (LB ^ j * uint (p ! j)) \<le> uint x + LB * lval p" using uint_LB(1) [of x] by linarith
    then show ?thesis by (simp add: Suc algebra_simps)
  qed (simp add: Cons.prems)
qed simp

lemma lval_eq_0_iff: "lval p = 0 \<longleftrightarrow> p = replicate (length p) 0"
proof (induction p)
  case (Cons x p)
  have "lval (x # p) = 0 \<longleftrightarrow> uint x = 0 \<and> lval p = 0"
    using uint_LB(1) [of x] lval_nonneg [of p] by (auto simp: add_nonneg_eq_0_iff)
  also have "uint x = 0 \<longleftrightarrow> x = 0" by (simp add: uint_0_iff)
  finally show ?case using Cons by auto
qed simp

lemma lval_inj: "length p = length q \<Longrightarrow> lval p = lval q \<Longrightarrow> p = q"
proof (induction p q rule: list_induct2)
  case (Cons x p y q)
  have "uint x + LB * lval p = uint y + LB * lval q" using Cons.prems by simp
  then have "(uint x + LB * lval p) mod LB = (uint y + LB * lval q) mod LB" "(uint x + LB * lval p) div LB = (uint y + LB * lval q) div LB"
    by simp_all
  then have "uint x = uint y" "lval p = lval q" using uint_LB [of x] uint_LB [of y] by simp_all
  then show ?case using Cons.IH by (simp add: word_uint_eq_iff)
qed simp

section \<open>The number of limbs in use\<close>

abbreviation nl :: "u64 list \<Rightarrow> nat" where "nl p \<equiv> used p (length p)"

lemma used_le: "used p i \<le> i"
  by (induction i) auto

lemma used_zero: "used p i \<le> k \<Longrightarrow> k < i \<Longrightarrow> p ! k = 0"
proof (induction i)
  case (Suc i)
  then show ?case by (cases "k = i") (auto split: if_splits)
qed simp

lemma used_nonzero: "0 < used p i \<Longrightarrow> p ! (used p i - 1) \<noteq> 0"
  by (induction i) auto

lemma nl_le: "nl p \<le> length p" by (rule used_le)

lemma drop_nl: "nl p \<le> k \<Longrightarrow> drop k p = replicate (length p - k) 0"
  by (rule nth_equalityI) (auto intro!: used_zero [where i = "length p"])

lemma lval_take_ge: "nl p \<le> k \<Longrightarrow> lval (take k p) = lval p"
  by (cases "k \<le> length p") (use lval_take_drop [of k p] in \<open>simp_all add: drop_nl\<close>)

lemma lval_take_nl: "lval (take (nl p) p) = lval p"
  by (rule lval_take_ge) simp

lemma lval_less_nl: "lval p < LB ^ nl p"
  using lval_bound [of "take (nl p) p"] nl_le [of p] by (simp add: lval_take_nl min_absorb2)

lemma lval_ge_nl: "0 < nl p \<Longrightarrow> LB ^ (nl p - 1) \<le> lval p"
proof -
  assume pos: "0 < nl p"
  then have "p ! (nl p - 1) \<noteq> 0" by (rule used_nonzero)
  then have "1 \<le> uint (p ! (nl p - 1))" using uint_LB(1) [of "p ! (nl p - 1)"] uint_0_iff [of "p ! (nl p - 1)"] by linarith
  then have "LB ^ (nl p - 1) * 1 \<le> LB ^ (nl p - 1) * uint (p ! (nl p - 1))" by (intro mult_left_mono) simp_all
  also have "\<dots> \<le> lval p" using pos nl_le [of p] by (intro lval_nth) linarith
  finally show ?thesis by simp
qed

lemma nl_le_iff: "nl p \<le> k \<longleftrightarrow> lval p < LB ^ k"
proof
  assume "nl p \<le> k"
  then show "lval p < LB ^ k" using lval_less_nl [of p] LB_pow_mono [of "nl p" k] by linarith
next
  assume "lval p < LB ^ k"
  show "nl p \<le> k"
  proof (rule ccontr)
    assume "\<not> nl p \<le> k"
    then have "LB ^ k \<le> LB ^ (nl p - 1)" "0 < nl p" by (auto intro!: LB_pow_mono)
    then show False using lval_ge_nl [of p] \<open>lval p < LB ^ k\<close> by linarith
  qed
qed

lemma nl_0_iff: "nl p = 0 \<longleftrightarrow> lval p = 0"
proof -
  have "lval p < 1 \<longleftrightarrow> lval p = 0" using lval_nonneg [of p] by (auto intro: order_antisym)
  then show ?thesis using nl_le_iff [of p 0] by simp
qed

lemma nl_mono: "lval p \<le> lval q \<Longrightarrow> nl p \<le> nl q"
  using lval_less_nl [of q] by (simp add: nl_le_iff)

lemma nl_eqI: "lval p = lval q \<Longrightarrow> nl p = nl q"
  by (intro antisym nl_mono) simp_all

lemma nl_less_lval: "nl p < nl q \<Longrightarrow> lval p < lval q"
  using nl_mono [of q p] by linarith

lemma top_limb_le: "top_limb p i \<le> i"
  by (induction i) auto

lemma top_limb_used: "i < length p \<Longrightarrow> Suc (top_limb p i) = max 1 (used p (Suc i))"
proof (induction i)
  case (Suc i)
  then show ?case by (auto simp: top_limb_le split: if_splits)
qed simp

lemma top_limb_nl: "p \<noteq> [] \<Longrightarrow> top_limb p (length p - 1) + 1 = max 1 (nl p)"
  using top_limb_used [of "length p - 1" p] by simp

section \<open>Carries\<close>

lemma uint_add_carry: "uint (a + b :: u64) + LB * of_bool (a + b < b) = uint a + uint b"
  using uint_LB [of a] uint_LB [of b] by (auto simp: uint_plus_if' LB_def word_less_def)

lemma uint_sub_borrow: "uint (a - b :: u64) = uint a - uint b + LB * of_bool (a < b)"
  using uint_LB [of a] uint_LB [of b] by (auto simp: uint_sub_if' LB_def word_less_def)

lemma uint_bit_sum: "uint (of_bool P + of_bool Q :: u64) = of_bool P + of_bool Q"
  by (cases P; cases Q) simp_all

lemma uint_of_bool [simp]: "uint (of_bool P :: u64) = of_bool P"
  by simp

lemma u64_le_1: "(c :: u64) \<le> 1 \<longleftrightarrow> uint c \<le> 1"
  by (simp add: word_le_def)

section \<open>Growing, copying, constants\<close>

lemma mpi_ext: "mp_s X = mp_s Y \<Longrightarrow> mp_p X = mp_p Y \<Longrightarrow> X = (Y :: mpi)"
  by (cases X; cases Y) simp

lemma mpi_grow_ok:
  "n \<le> POLARSSL_MPI_MAX_LIMBS \<Longrightarrow> mpi_grow [] X n = (0, X\<lparr>mp_p := mp_p X @ replicate (n - mp_n X) 0\<rparr>, [])"
  by (auto simp: mpi_grow_def)

lemma mpi_grow_ret:
  "mpi_grow m X n = (ret, X', m') \<Longrightarrow> ret = 0 \<or> ret = POLARSSL_ERR_MPI_MALLOC_FAILED \<and> X' = X"
  by (auto simp: mpi_grow_def Let_def split: prod.splits if_splits)

lemma mpi_copy_same [simp]: "mpi_copy m True X Y = Some (0, X, m)"
  by (simp add: mpi_copy_def)

lemma mpi_copy_ok:
  assumes "mp_p Y \<noteq> []" "nl (mp_p Y) \<le> POLARSSL_MPI_MAX_LIMBS"
  shows "\<exists>p. mpi_copy [] False X Y = Some (0, \<lparr>mp_s = mp_s Y, mp_p = p\<rparr>, [])
    \<and> lval p = lval (mp_p Y) \<and> length p = max (mp_n X) (max 1 (nl (mp_p Y)))"
proof -
  define k where "k = max 1 (nl (mp_p Y))"
  have k: "top_limb (mp_p Y) (mp_n Y - 1) + 1 = k" "k \<le> mp_n Y" "k \<le> 10000" "nl (mp_p Y) \<le> k"
    using top_limb_nl [OF assms(1)] assms nl_le [of "mp_p Y"] by (cases "mp_p Y"; simp add: k_def)+
  let ?p = "take k (mp_p Y) @ replicate (max (mp_n X) k - k) 0"
  have "lval (take k (mp_p Y)) = lval (mp_p Y)" using k(4) by (rule lval_take_ge)
  moreover have "mpi_copy [] False X Y = Some (0, \<lparr>mp_s = mp_s Y, mp_p = ?p\<rparr>, [])"
    unfolding mpi_copy_def k(1) using assms(1) k(3)
    by (cases X) (auto simp: Let_def mpi_grow_ok max_def)
  ultimately show ?thesis using k(2) by (intro exI [of _ ?p]) (auto simp: lval_append k_def)
qed

lemma mpi_lset_ok:
  "mpi_lset [] X z = (0, \<lparr>mp_s = (if z < 0 then - 1 else 1),
     mp_p = word_of_int (if z < 0 then - z else z) # replicate (mp_n X - 1) 0\<rparr>, [])"
  by (cases X; cases "mp_p X") (simp_all add: mpi_lset_def mpi_grow_ok)

lemma uint_lset: "0 \<le> z \<Longrightarrow> z < LB \<Longrightarrow> uint (word_of_int z :: u64) = z"
  by (simp add: LB_def uint_word_of_int)

lemma mpi_of_sint_fields: "\<bar>z\<bar> < LB \<Longrightarrow> lval (mp_p (mpi_of_sint z)) = \<bar>z\<bar>"
  "mp_s (mpi_of_sint z) = (if z < 0 then - 1 else 1)" "mp_n (mpi_of_sint z) = 1"
  using uint_lset [of "\<bar>z\<bar>"] by (auto simp: mpi_of_sint_def abs_if)

section \<open>Comparison\<close>

lemma lval_take_Suc: "i < length p \<Longrightarrow> lval (take (Suc i) p) = lval (take i p) + LB ^ i * uint (p ! i)"
  by (simp add: take_Suc_conv_app_nth lval_append)

lemma lval_take_bound: "lval (take i p) < LB ^ i"
proof -
  have "lval (take i p) < LB ^ length (take i p)" by (rule lval_bound)
  also have "\<dots> \<le> LB ^ i" by (rule LB_pow_mono) simp
  finally show ?thesis .
qed

lemma lval_top_less:
  assumes "i < length p" "i < length q" "p ! i < q ! i"
  shows "lval (take (Suc i) p) < lval (take (Suc i) q)"
proof -
  have "uint (p ! i) + 1 \<le> uint (q ! i)" using assms(3) by (simp add: word_less_def)
  then have "LB ^ i * (uint (p ! i) + 1) \<le> LB ^ i * uint (q ! i)" by (rule mult_left_mono) simp
  then show ?thesis
    using lval_take_Suc [OF assms(1)] lval_take_Suc [OF assms(2)] lval_take_bound [of i p] lval_nonneg [of "take i q"]
    unfolding distrib_left by linarith
qed

lemma cmp_loop_sgn:
  "i \<le> length p \<Longrightarrow> i \<le> length q \<Longrightarrow> cmp_loop s p q i = s * sgn (lval (take i p) - lval (take i q))"
proof (induction i)
  case (Suc i)
  then have i: "i < length p" "i < length q" by simp_all
  consider "q ! i < p ! i" | "p ! i < q ! i" | "p ! i = q ! i" by (rule linorder_cases)
  then show ?case
  proof cases
    case 1
    then show ?thesis using lval_top_less [OF i(2,1)] by (simp add: sgn_1_pos)
  next
    case 2
    then show ?thesis using lval_top_less [OF i] order_less_not_sym [OF 2] by (simp add: sgn_1_neg)
  next
    case 3
    then show ?thesis using Suc i lval_take_Suc [OF i(1)] lval_take_Suc [OF i(2)] by simp
  qed
qed simp

lemma mpi_cmp_abs_sgn: "mpi_cmp_abs X Y = sgn (lval (mp_p X) - lval (mp_p Y))"
proof -
  let ?p = "mp_p X" and ?q = "mp_p Y"
  consider "nl ?p = 0 \<and> nl ?q = 0" | "nl ?q < nl ?p" | "nl ?p < nl ?q" | "nl ?p = nl ?q" "nl ?q \<noteq> 0" by linarith
  then show ?thesis
  proof cases
    case 1
    then show ?thesis using nl_0_iff [of ?p] nl_0_iff [of ?q] by (simp add: mpi_cmp_abs_def)
  next
    case 4
    then show ?thesis
      using cmp_loop_sgn [of "nl ?p" ?p ?q 1] nl_le [of ?p] nl_le [of ?q] lval_take_nl [of ?p] lval_take_nl [of ?q]
      by (simp add: mpi_cmp_abs_def)
  qed (use nl_less_lval [of ?p ?q] nl_less_lval [of ?q ?p] in \<open>auto simp: mpi_cmp_abs_def\<close>)
qed

text \<open>The signed comparison is right when the signs agree, and when the first operand has more limbs.\<close>

lemma mpi_cmp_mpi_sgn:
  assumes "mp_s X = mp_s Y"
  shows "mpi_cmp_mpi X Y = mp_s X * sgn (lval (mp_p X) - lval (mp_p Y))"
proof -
  let ?p = "mp_p X" and ?q = "mp_p Y"
  consider "nl ?p = 0 \<and> nl ?q = 0" | "nl ?q < nl ?p" | "nl ?p < nl ?q" | "nl ?p = nl ?q" "nl ?q \<noteq> 0" by linarith
  then show ?thesis
  proof cases
    case 1
    then show ?thesis using nl_0_iff [of ?p] nl_0_iff [of ?q] by (simp add: mpi_cmp_mpi_def)
  next
    case 4
    then show ?thesis
      using assms cmp_loop_sgn [of "nl ?p" ?p ?q "mp_s X"] nl_le [of ?p] nl_le [of ?q] lval_take_nl [of ?p] lval_take_nl [of ?q]
      by (simp add: mpi_cmp_mpi_def)
  qed (use nl_less_lval [of ?p ?q] nl_less_lval [of ?q ?p] in \<open>auto simp: mpi_cmp_mpi_def\<close>)
qed

lemma mpi_cmp_int_0: "mpi_cmp_int X 0 = mp_s X * sgn (lval (mp_p X))"
proof (cases "nl (mp_p X) = 0")
  case True
  then show ?thesis using nl_0_iff [of "mp_p X"] by (simp add: mpi_cmp_int_def mpi_cmp_mpi_def mpi_of_sint_def)
next
  case False
  then have "0 < lval (mp_p X)" using nl_0_iff [of "mp_p X"] lval_nonneg [of "mp_p X"] by linarith
  then show ?thesis using False by (simp add: mpi_cmp_int_def mpi_cmp_mpi_def mpi_of_sint_def)
qed

section \<open>Addition\<close>

lemma add_limb:
  fixes p b c :: u64
  assumes "uint c \<le> 1"
  shows "uint (p + c + b) + LB * uint (of_bool (p + c < c) + of_bool (p + c + b < b) :: u64) = uint p + uint b + uint c"
    and "uint (of_bool (p + c < c) + of_bool (p + c + b < b) :: u64) \<le> 1"
proof -
  have e: "uint (p + c + b) + LB * (of_bool (p + c < c) + of_bool (p + c + b < b)) = uint p + uint b + uint c"
    using uint_add_carry [of p c] uint_add_carry [of "p + c" b] by (simp add: distrib_left)
  then show "uint (p + c + b) + LB * uint (of_bool (p + c < c) + of_bool (p + c + b < b) :: u64) = uint p + uint b + uint c"
    unfolding uint_bit_sum .
  have "uint p + uint b + uint c < 2 * LB" using uint_le_LB [of p] uint_le_LB [of b] assms by linarith
  then have "uint (p + c + b) + LB * 2 \<noteq> uint p + uint b + uint c" using uint_LB(1) [of "p + c + b"] by linarith
  then have "\<not> ((p + c < c) \<and> (p + c + b < b))" using e by auto
  then show "uint (of_bool (p + c < c) + of_bool (p + c + b < b) :: u64) \<le> 1"
    unfolding uint_bit_sum by auto
qed

lemma add_limbs_spec:
  assumes "length bs \<le> length ps" "uint c \<le> 1" "add_limbs ps bs c = (qs, c')"
  shows "length qs = length ps \<and> uint c' \<le> 1 \<and> lval qs + LB ^ length bs * uint c' = lval ps + lval bs + uint c"
  using assms
proof (induction ps bs c arbitrary: qs c' rule: add_limbs.induct)
  case (1 p ps b bs c)
  let ?c1 = "of_bool (p + c < c) + of_bool (p + c + b < b) :: u64"
  obtain rs where r: "add_limbs ps bs ?c1 = (rs, c')" "qs = (p + c + b) # rs"
    using "1.prems"(3) by (auto simp: Let_def split: prod.splits)
  have ih: "length rs = length ps \<and> uint c' \<le> 1 \<and> lval rs + LB ^ length bs * uint c' = lval ps + lval bs + uint ?c1"
    using "1.IH" [OF refl refl refl refl _ _ r(1)] "1.prems"(1) add_limb(2) [OF "1.prems"(2)] by simp
  then have "LB * (lval rs + LB ^ length bs * uint c') = LB * (lval ps + lval bs + uint ?c1)" by simp
  then show ?case using ih add_limb(1) [OF "1.prems"(2), of p b] r(2) by (simp add: algebra_simps)
qed simp_all

lemma nl_append_one: "nl (p @ [1]) = Suc (length p)"
proof -
  have "LB ^ length p \<le> lval (p @ [1])" by (simp add: lval_append)
  then have "\<not> nl (p @ [1]) \<le> length p" unfolding nl_le_iff by simp
  moreover have "nl (p @ [1]) \<le> length (p @ [1])" by (rule nl_le)
  ultimately show ?thesis by simp
qed

lemma uint_le_1_cases: "uint (c :: u64) \<le> 1 \<Longrightarrow> c = 0 \<or> c = 1"
proof -
  assume "uint c \<le> 1"
  then have "uint c = 0 \<or> uint c = 1" using uint_LB(1) [of c] by linarith
  then show ?thesis by (simp add: word_uint_eq_iff)
qed

lemma add_carry_0 [simp]: "add_carry m X i 0 = (0, X, m)"
  by (simp add: add_carry.simps)

lemma add_carry_ok:
  assumes "i \<le> mp_n X" "uint c \<le> 1" "mp_n X < POLARSSL_MPI_MAX_LIMBS"
  shows "\<exists>p. add_carry [] X i c = (0, X\<lparr>mp_p := p\<rparr>, []) \<and> lval p = lval (mp_p X) + LB ^ i * uint c
    \<and> mp_n X \<le> length p \<and> length p \<le> max (mp_n X) (nl p)"
  using assms
proof (induction "mp_n X - i" arbitrary: X i c)
  case 0
  then have i: "i = mp_n X" by simp
  show ?case
  proof (cases "c = 0")
    case True
    then show ?thesis by (intro exI [of _ "mp_p X"]) simp
  next
    case False
    then have "c = 1" using uint_le_1_cases 0 by blast
    then show ?thesis
      using 0 i nl_append_one [of "mp_p X"] 
      by (intro exI [of _ "mp_p X @ [1]"]) (simp add: add_carry.simps [of _ _ _ 1] mpi_grow_ok lval_append list_update_append)
  qed
next
  case (Suc k)
  show ?case
  proof (cases "c = 0")
    case True
    then show ?thesis by (intro exI [of _ "mp_p X"]) simp
  next
    case False
    have i: "i < mp_n X" using Suc.hyps(2) by simp
    define v where "v = mp_p X ! i + c"
    define X1 where "X1 = X\<lparr>mp_p := (mp_p X)[i := v]\<rparr>"
    have X1: "mp_n X1 = mp_n X" "lval (mp_p X1) = lval (mp_p X) + LB ^ i * (uint v - uint (mp_p X ! i))"
      using i by (simp_all add: X1_def lval_update)
    have "\<exists>p. add_carry [] X1 (i + 1) (of_bool (v < c)) = (0, X1\<lparr>mp_p := p\<rparr>, [])
      \<and> lval p = lval (mp_p X1) + LB ^ (i + 1) * uint (of_bool (v < c) :: u64) \<and> mp_n X1 \<le> length p \<and> length p \<le> max (mp_n X1) (nl p)"
      using Suc.hyps(2) Suc.prems X1(1) by (intro Suc.hyps(1)) auto
    then obtain p where p: "add_carry [] X1 (i + 1) (of_bool (v < c)) = (0, X1\<lparr>mp_p := p\<rparr>, [])"
      "lval p = lval (mp_p X1) + LB ^ (i + 1) * of_bool (v < c)" "mp_n X1 \<le> length p" "length p \<le> max (mp_n X1) (nl p)"
      by auto
    have "uint v + LB * of_bool (v < c) = uint (mp_p X ! i) + uint c"
      unfolding v_def by (rule uint_add_carry)
    then have "LB ^ i * (uint v + LB * of_bool (v < c)) = LB ^ i * (uint (mp_p X ! i) + uint c)" by simp
    then have "lval p = lval (mp_p X) + LB ^ i * uint c" using p(2) X1(2) by (simp add: algebra_simps)
    moreover have "add_carry [] X i c = (0, X\<lparr>mp_p := p\<rparr>, [])"
      using p(1) i False by (subst add_carry.simps) (simp add: Let_def X1_def flip: v_def)
    ultimately show ?thesis using p(3,4) X1(1) by auto
  qed
qed

lemma mpi_add_abs_ok:
  assumes AB: "mp_p A \<noteq> []" "mp_p B \<noteq> []" and al: "xa \<Longrightarrow> A = X" "xb \<Longrightarrow> B = X" "\<not> (xa \<and> xb)"
    and sz: "mp_n X < POLARSSL_MPI_MAX_LIMBS" "nl (mp_p A) < POLARSSL_MPI_MAX_LIMBS" "nl (mp_p B) < POLARSSL_MPI_MAX_LIMBS"
  shows "\<exists>p. mpi_add_abs [] xa xb X A B = Some (0, \<lparr>mp_s = 1, mp_p = p\<rparr>, [])
    \<and> lval p = lval (mp_p A) + lval (mp_p B) \<and> p \<noteq> [] \<and> mp_n X \<le> length p \<and> length p \<le> max (mp_n X) (max 1 (nl p))"
proof -
  define D where "D = (if xb then A else B)"
  define C where "C = (if xb then B else A)"
  have CD: "lval (mp_p C) + lval (mp_p D) = lval (mp_p A) + lval (mp_p B)" "mp_p C \<noteq> []" "mp_p D \<noteq> []"
    "nl (mp_p C) < 10000" "nl (mp_p D) < 10000"
    using AB sz by (auto simp: C_def D_def)
  obtain q s where q: "(if xa \<or> xb then Some (0, X, []) else mpi_copy [] False X A) = Some (0, \<lparr>mp_s = s, mp_p = q\<rparr>, [])"
    "lval q = lval (mp_p C)" "q \<noteq> []" "mp_n X \<le> length q" "length q \<le> max (mp_n X) (max 1 (nl (mp_p C)))"
  proof (cases "xa \<or> xb")
    case True
    then have "X = C" using al by (auto simp: C_def)
    then show ?thesis using True CD by (intro that [of "mp_s X" "mp_p X"]) auto
  next
    case False
    then show ?thesis using mpi_copy_ok [of A X] AB sz by (auto simp: C_def intro: that)
  qed
  define j where "j = nl (mp_p D)"
  define q' where "q' = q @ replicate (j - length q) 0"
  have q': "lval q' = lval q" "j \<le> length q'" "length q' = max (length q) j" "length q' < 10000"
    using q sz CD(4,5) by (auto simp: q'_def j_def lval_append)
  obtain r c where r: "add_limbs q' (take j (mp_p D)) 0 = (r, c)" by fastforce
  have j: "length (take j (mp_p D)) = j" "lval (take j (mp_p D)) = lval (mp_p D)"
    using nl_le [of "mp_p D"] by (simp_all add: j_def lval_take_nl)
  have add: "length r = length q'" "uint c \<le> 1" "lval r + LB ^ j * uint c = lval q' + lval (mp_p D)"
    using add_limbs_spec [OF _ _ r] j q'(2) by auto
  let ?X = "\<lparr>mp_s = 1, mp_p = r\<rparr>"
  obtain p where p: "add_carry [] ?X j c = (0, ?X\<lparr>mp_p := p\<rparr>, [])" "lval p = lval r + LB ^ j * uint c"
    "length r \<le> length p" "length p \<le> max (length r) (nl p)"
    using add_carry_ok [of j ?X c] add q' by auto
  have val: "lval p = lval (mp_p A) + lval (mp_p B)" using p(2) add(3) q'(1) q(2) CD(1) by simp
  have "lval (mp_p C) \<le> lval p" "lval (mp_p D) \<le> lval p"
    using val CD(1) lval_nonneg [of "mp_p C"] lval_nonneg [of "mp_p D"] by linarith+
  then have "nl (mp_p C) \<le> nl p" "j \<le> nl p" unfolding j_def by (auto intro: nl_mono)
  moreover have nab: "(xa \<and> xb) = False" using al(3) by simp
  have "mpi_add_abs [] xa xb X A B = Some (0, \<lparr>mp_s = 1, mp_p = p\<rparr>, [])"
    using q(1) r p(1) CD(5) unfolding mpi_add_abs_def nab by (simp add: Let_def mpi_grow_ok flip: D_def j_def q'_def)
  ultimately show ?thesis using val q q' add(1) p by (intro exI [of _ p]) auto
qed

section \<open>Subtraction\<close>

lemma sub_limb:
  fixes d s c :: u64
  assumes "uint c \<le> 1"
  shows "uint (d - c - s) = uint d - uint c - uint s + LB * uint (of_bool (d - c < s) + of_bool (d < c) :: u64)"
    and "uint (of_bool (d - c < s) + of_bool (d < c) :: u64) \<le> 1"
proof -
  have e: "uint (d - c - s) = uint d - uint c - uint s + LB * (of_bool (d - c < s) + of_bool (d < c))"
    using uint_sub_borrow [of d c] uint_sub_borrow [of "d - c" s] by (simp add: distrib_left)
  then show "uint (d - c - s) = uint d - uint c - uint s + LB * uint (of_bool (d - c < s) + of_bool (d < c) :: u64)"
    unfolding uint_bit_sum .
  have "- 2 * LB < uint d - uint c - uint s" using uint_LB [of d] uint_le_LB [of s] assms LB_gt by linarith
  then have "uint (d - c - s) \<noteq> uint d - uint c - uint s + LB * 2 \<or> LB \<le> uint d - uint c - uint s + LB * 2"
    using uint_LB [of d] uint_le_LB [of s] assms by linarith
  moreover have "uint (d - c - s) < LB" by (rule uint_LB)
  ultimately have "\<not> ((d - c < s) \<and> (d < c))" using e by auto
  then show "uint (of_bool (d - c < s) + of_bool (d < c) :: u64) \<le> 1" unfolding uint_bit_sum by auto
qed

lemma limb_carry_le:
  assumes "uint a + LB * x \<le> uint b + LB * y" "uint (r :: u64) = uint b - uint a + LB * k"
  shows "x + k \<le> y"
proof -
  have "LB * (x + k - y) \<le> uint r" using assms by (simp add: algebra_simps)
  also have "uint r < LB * 1" using uint_LB by simp
  finally have "x + k - y < 1" unfolding mult_less_cancel_left by simp
  then show ?thesis by simp
qed

lemma sub_hlp_borrow_ok:
  assumes "uint c \<le> 1" "uint c \<le> lval ds"
  shows "\<exists>qs. sub_hlp_borrow ds c = Some qs \<and> length qs = length ds \<and> lval qs = lval ds - uint c"
  using assms
proof (induction ds arbitrary: c)
  case Nil
  then show ?case using uint_LB(1) [of c] by (auto simp: sub_hlp_borrow.simps word_uint_eq_iff)
next
  case (Cons d ds)
  show ?case
  proof (cases "c = 0")
    case True
    then show ?thesis by (simp add: sub_hlp_borrow.simps)
  next
    case False
    have e: "uint (d - c) = uint d - uint c + LB * uint (of_bool (d < c) :: u64)"
      using uint_sub_borrow [of d c] by simp
    have "uint (of_bool (d < c) :: u64) \<le> lval ds"
      using limb_carry_le [of c 0 d "lval ds" "d - c"] Cons.prems e by simp
    then obtain qs where qs: "sub_hlp_borrow ds (of_bool (d < c)) = Some qs" "length qs = length ds"
      "lval qs = lval ds - uint (of_bool (d < c) :: u64)" using Cons.IH [of "of_bool (d < c)"] by auto
    then show ?thesis using False by (simp add: sub_hlp_borrow.simps [of "d # ds"] e qs(3) right_diff_distrib)
  qed
qed

lemma sub_hlp_loop_ok:
  assumes "uint c \<le> 1" "length ss \<le> length ds" "lval ss + uint c \<le> lval ds"
  shows "\<exists>qs. sub_hlp_loop ss ds c = Some qs \<and> length qs = length ds \<and> lval qs = lval ds - lval ss - uint c"
  using assms
proof (induction ss ds c rule: sub_hlp_loop.induct)
  case (3 s ss d ds c)
  let ?c = "of_bool (d - c < s) + of_bool (d < c) :: u64"
  note e = sub_limb [OF "3.prems"(1), of d s]
  have "lval ss + uint ?c \<le> lval ds"
  proof -
    have "LB * (lval ss + uint ?c - lval ds) \<le> uint (d - c - s)"
      using "3.prems"(3) e(1) by (simp add: algebra_simps del: uint_bit_sum)
    also have "uint (d - c - s) < LB * 1" using uint_LB by simp
    finally have "lval ss + uint ?c - lval ds < 1" unfolding mult_less_cancel_left by simp
    then show ?thesis by simp
  qed
  then obtain qs where qs: "sub_hlp_loop ss ds ?c = Some qs" "length qs = length ds" "lval qs = lval ds - lval ss - uint ?c"
    using "3.IH" [OF refl refl refl refl] e(2) "3.prems"(2) by auto
  then show ?case by (simp add: Let_def e(1) qs(3) right_diff_distrib)
qed (simp_all add: sub_hlp_borrow_ok)

lemma mpi_sub_hlp_ok:
  assumes "n \<le> length s" "n \<le> length d" "lval (take n s) \<le> lval d"
  shows "\<exists>p. mpi_sub_hlp n s d = Some p \<and> length p = length d \<and> lval p = lval d - lval (take n s)"
  using sub_hlp_loop_ok [of 0 "take n s" d] assms by (simp add: mpi_sub_hlp_def)

lemma mpi_sub_abs_ok:
  assumes AB: "mp_p A \<noteq> []" "mp_p B \<noteq> []" and al: "xa \<Longrightarrow> A = X" "xb \<Longrightarrow> B = X"
    and sz: "nl (mp_p A) \<le> POLARSSL_MPI_MAX_LIMBS" and ge: "lval (mp_p B) \<le> lval (mp_p A)"
  shows "\<exists>p. mpi_sub_abs [] xa xb X A B = Some (0, \<lparr>mp_s = 1, mp_p = p\<rparr>, [])
    \<and> lval p = lval (mp_p A) - lval (mp_p B) \<and> p \<noteq> [] \<and> mp_n X \<le> length p \<and> length p \<le> max (mp_n X) (max 1 (nl (mp_p A)))"
proof -
  have nlB: "nl (mp_p B) \<le> nl (mp_p A)" using ge by (rule nl_mono)
  obtain s q where q: "(if xb then mpi_copy [] False mpi_init B else Some (0, B, [])) = Some (0, \<lparr>mp_s = s, mp_p = q\<rparr>, [])"
    "lval q = lval (mp_p B)"
  proof (cases xb)
    case True
    then show ?thesis using mpi_copy_ok [of B mpi_init] AB sz nlB by (auto intro: that)
  next
    case False
    then show ?thesis by (intro that [of "mp_s B" "mp_p B"]) auto
  qed
  obtain t r where r: "(if xa then Some (0, X, []) else mpi_copy [] False X A) = Some (0, \<lparr>mp_s = t, mp_p = r\<rparr>, [])"
    "lval r = lval (mp_p A)" "r \<noteq> []" "mp_n X \<le> length r" "length r \<le> max (mp_n X) (max 1 (nl (mp_p A)))"
  proof (cases xa)
    case True
    then show ?thesis using al AB by (intro that [of "mp_s X" "mp_p X"]) auto
  next
    case False
    then show ?thesis using mpi_copy_ok [of A X] AB sz by (auto intro: that)
  qed
  have n: "nl q = nl (mp_p B)" "nl r = nl (mp_p A)" using q r by (auto intro: nl_eqI)
  have "nl q \<le> length r" using nl_le [of r] n nlB by linarith
  moreover have "lval (take (nl q) q) \<le> lval r" using q r ge by (simp add: lval_take_nl)
  ultimately obtain p where p: "mpi_sub_hlp (nl q) q r = Some p" "length p = length r" "lval p = lval r - lval (take (nl q) q)"
    using mpi_sub_hlp_ok [OF nl_le] by blast
  have "\<not> mpi_cmp_abs A B < 0" using ge by (simp add: mpi_cmp_abs_sgn)
  then have "mpi_sub_abs [] xa xb X A B = Some (0, \<lparr>mp_s = 1, mp_p = p\<rparr>, [])"
    using q(1) r(1) p(1) unfolding mpi_sub_abs_def by simp
  then show ?thesis using p q r by (auto simp: lval_take_nl)
qed

lemma mpi_sub_abs_negative:
  "lval (mp_p A) < lval (mp_p B) \<Longrightarrow> mpi_sub_abs m xa xb X A B = Some (POLARSSL_ERR_MPI_NEGATIVE_VALUE, X, m)"
  by (simp add: mpi_sub_abs_def mpi_cmp_abs_sgn)

section \<open>Signed addition and subtraction\<close>

definition signed :: "mpi \<Rightarrow> bool" where
  "signed X \<longleftrightarrow> (mp_s X = 1 \<or> mp_s X = - 1) \<and> mp_p X \<noteq> []"

lemma signed_lval: "signed X \<Longrightarrow> lval (mp_p X) = \<bar>mval X\<bar>"
  by (auto simp: signed_def mval_def)

text \<open>What the signed operations return, for operands that may be the object of the result.\<close>

definition sum_result :: "mpi \<Rightarrow> int \<Rightarrow> mpi \<Rightarrow> bool" where
  "sum_result X v X' \<longleftrightarrow> signed X' \<and> mval X' = v \<and> mp_n X \<le> mp_n X'"

lemma nl_sum_le:
  assumes "lval p = lval q + lval r" "nl q < k" "nl r < k"
  shows "nl p \<le> k"
proof -
  have "lval q < LB ^ (k - 1)" "lval r < LB ^ (k - 1)" using assms(2,3) by (auto simp flip: nl_le_iff)
  then have "lval p < 2 * LB ^ (k - 1)" using assms(1) by linarith
  also have "\<dots> \<le> LB * LB ^ (k - 1)" using LB_gt by (intro mult_right_mono) simp_all
  also have "\<dots> = LB ^ k" using assms(2) by (cases k) simp_all
  finally show ?thesis unfolding nl_le_iff .
qed

lemma signed_diff_ok:
  assumes ne: "mp_p A \<noteq> []" "mp_p B \<noteq> []" and al: "xa \<Longrightarrow> A = X" "xb \<Longrightarrow> B = X" and t: "t = 1 \<or> t = - 1"
    and sz: "mp_n X \<le> k" "nl (mp_p A) \<le> k" "nl (mp_p B) \<le> k" "1 \<le> k" "k \<le> POLARSSL_MPI_MAX_LIMBS"
  shows "\<exists>X'. (if 0 \<le> mpi_cmp_abs A B then map_option (set_sign t) (mpi_sub_abs [] xa xb X A B)
        else map_option (set_sign (- t)) (mpi_sub_abs [] xb xa X B A)) = Some (0, X', [])
    \<and> sum_result X (t * (lval (mp_p A) - lval (mp_p B))) X' \<and> mp_n X' \<le> k"
proof (cases "lval (mp_p B) \<le> lval (mp_p A)")
  case True
  obtain p where p: "mpi_sub_abs [] xa xb X A B = Some (0, \<lparr>mp_s = 1, mp_p = p\<rparr>, [])"
    "lval p = lval (mp_p A) - lval (mp_p B)" "p \<noteq> []"
    "mp_n X \<le> length p" "length p \<le> max (mp_n X) (max 1 (nl (mp_p A)))"
    using mpi_sub_abs_ok [OF ne al _ True] sz by auto
  moreover have "0 \<le> mpi_cmp_abs A B" using True by (simp add: mpi_cmp_abs_sgn sgn_if)
  ultimately show ?thesis
    using t sz by (intro exI [of _ "\<lparr>mp_s = t, mp_p = p\<rparr>"]) (simp add: set_sign_def sum_result_def signed_def mval_def)
next
  case False
  then have lt: "lval (mp_p A) \<le> lval (mp_p B)" by simp
  obtain p where p: "mpi_sub_abs [] xb xa X B A = Some (0, \<lparr>mp_s = 1, mp_p = p\<rparr>, [])"
    "lval p = lval (mp_p B) - lval (mp_p A)" "p \<noteq> []"
    "mp_n X \<le> length p" "length p \<le> max (mp_n X) (max 1 (nl (mp_p B)))"
    using mpi_sub_abs_ok [OF ne(2,1) al(2,1) _ lt] sz by auto
  have "\<not> 0 \<le> mpi_cmp_abs A B" using False by (simp add: mpi_cmp_abs_sgn sgn_if)
  moreover have "- t * lval p = t * (lval (mp_p A) - lval (mp_p B))" by (simp add: p(2) algebra_simps)
  ultimately show ?thesis
    using p t sz by (intro exI [of _ "\<lparr>mp_s = - t, mp_p = p\<rparr>"])
      (auto simp: set_sign_def sum_result_def signed_def mval_def)
qed

lemma signed_sum_ok:
  assumes ne: "mp_p A \<noteq> []" "mp_p B \<noteq> []" and al: "xa \<Longrightarrow> A = X" "xb \<Longrightarrow> B = X" "\<not> (xa \<and> xb)" and t: "t = 1 \<or> t = - 1"
    and sz: "mp_n X < k" "nl (mp_p A) < k" "nl (mp_p B) < k" "k \<le> POLARSSL_MPI_MAX_LIMBS"
  shows "\<exists>X'. map_option (set_sign t) (mpi_add_abs [] xa xb X A B) = Some (0, X', [])
    \<and> sum_result X (t * (lval (mp_p A) + lval (mp_p B))) X' \<and> mp_n X' \<le> k"
proof -
  obtain p where p: "mpi_add_abs [] xa xb X A B = Some (0, \<lparr>mp_s = 1, mp_p = p\<rparr>, [])"
    "lval p = lval (mp_p A) + lval (mp_p B)" "p \<noteq> []" "mp_n X \<le> length p" "length p \<le> max (mp_n X) (max 1 (nl p))"
    using mpi_add_abs_ok [OF ne al] sz by auto
  moreover have "nl p \<le> k" using nl_sum_le [OF p(2), of k] sz by simp
  ultimately show ?thesis
    using t sz by (intro exI [of _ "\<lparr>mp_s = t, mp_p = p\<rparr>"]) (simp add: set_sign_def sum_result_def signed_def mval_def)
qed

lemma mpi_add_mpi_ok:
  assumes s: "signed A" "signed B" and al: "xa \<Longrightarrow> A = X" "xb \<Longrightarrow> B = X" "\<not> (xa \<and> xb)"
    and sz: "mp_n X < k" "nl (mp_p A) < k" "nl (mp_p B) < k" "k \<le> POLARSSL_MPI_MAX_LIMBS"
  shows "\<exists>X'. mpi_add_mpi [] xa xb X A B = Some (0, X', []) \<and> sum_result X (mval A + mval B) X' \<and> mp_n X' \<le> k"
proof (cases "mp_s A = mp_s B")
  case True
  then have "\<not> mp_s A * mp_s B < 0" "mval A + mval B = mp_s A * (lval (mp_p A) + lval (mp_p B))"
    by (simp_all add: mval_def distrib_left)
  then show ?thesis using signed_sum_ok [of A B xa X xb "mp_s A" k] assms by (simp add: mpi_add_mpi_def Let_def signed_def)
next
  case False
  then have "mp_s B = - mp_s A" using s by (auto simp: signed_def)
  then have "mp_s A * mp_s B < 0" "mval A + mval B = mp_s A * (lval (mp_p A) - lval (mp_p B))"
    using s by (auto simp: signed_def mval_def right_diff_distrib)
  then show ?thesis using signed_diff_ok [of A B xa X xb "mp_s A" k] assms by (simp add: mpi_add_mpi_def Let_def signed_def)
qed

lemma mpi_sub_mpi_ok:
  assumes s: "signed A" "signed B" and al: "xa \<Longrightarrow> A = X" "xb \<Longrightarrow> B = X" "\<not> (xa \<and> xb)"
    and sz: "mp_n X < k" "nl (mp_p A) < k" "nl (mp_p B) < k" "k \<le> POLARSSL_MPI_MAX_LIMBS"
  shows "\<exists>X'. mpi_sub_mpi [] xa xb X A B = Some (0, X', []) \<and> sum_result X (mval A - mval B) X' \<and> mp_n X' \<le> k"
proof (cases "mp_s A = mp_s B")
  case True
  then have "0 < mp_s A * mp_s B" "mval A - mval B = mp_s A * (lval (mp_p A) - lval (mp_p B))"
    using s by (auto simp: signed_def mval_def right_diff_distrib)
  then show ?thesis using signed_diff_ok [of A B xa X xb "mp_s A" k] assms by (simp add: mpi_sub_mpi_def Let_def signed_def)
next
  case False
  then have "mp_s B = - mp_s A" using s by (auto simp: signed_def)
  then have "\<not> 0 < mp_s A * mp_s B" "mval A - mval B = mp_s A * (lval (mp_p A) + lval (mp_p B))"
    by (simp_all add: mval_def distrib_left)
  then show ?thesis using signed_sum_ok [of A B xa X xb "mp_s A" k] assms by (simp add: mpi_sub_mpi_def Let_def signed_def)
qed

text \<open>The subtraction of a smaller number of the same sign does not enlarge the limbs.\<close>

lemma mpi_sub_mpi_same:
  assumes s: "signed A" "signed B" "mp_s A = mp_s B" and al: "xa \<Longrightarrow> A = X" "xb \<Longrightarrow> B = X"
    and sz: "mp_n X \<le> k" "nl (mp_p A) \<le> k" "nl (mp_p B) \<le> k" "1 \<le> k" "k \<le> POLARSSL_MPI_MAX_LIMBS"
  shows "\<exists>X'. mpi_sub_mpi [] xa xb X A B = Some (0, X', []) \<and> sum_result X (mval A - mval B) X' \<and> mp_n X' \<le> k"
proof -
  have "0 < mp_s A * mp_s B" "mval A - mval B = mp_s A * (lval (mp_p A) - lval (mp_p B))"
    using s by (auto simp: signed_def mval_def right_diff_distrib)
  then show ?thesis using signed_diff_ok [of A B xa X xb "mp_s A" k] s(1,2) al sz by (simp add: mpi_sub_mpi_def Let_def signed_def)
qed

end
