(* ===== verification/Bignum_Mul.thy ===== *)
theory Bignum_Mul
  imports Bignum_Arith
begin

text \<open>
  Multiplication and shifts of multi-precision integers, the number of bits, and the
  conversion from and to big-endian bytes.
\<close>

section \<open>Parts of a number\<close>

lemma lval_mod_div:
  assumes "k \<le> length p"
  shows "lval (take k p) = lval p mod LB ^ k" "lval (drop k p) = lval p div LB ^ k"
proof -
  have "lval p = lval (take k p) + LB ^ k * lval (drop k p)" using assms by (rule lval_take_drop)
  moreover have "0 \<le> lval (take k p)" "lval (take k p) < LB ^ k" using lval_take_bound by simp_all
  ultimately show "lval (take k p) = lval p mod LB ^ k" "lval (drop k p) = lval p div LB ^ k" by simp_all
qed

lemma lval_eq_parts: "lval p = v \<Longrightarrow> length p = n \<Longrightarrow> 0 \<le> v \<and> v < LB ^ n"
  using lval_bound [of p] by auto

lemma zdiv_less:
  fixes a b c :: int
  assumes "0 < c" "a < b * c"
  shows "a div c < b"
proof (rule ccontr)
  assume "\<not> a div c < b"
  then have "b * c \<le> (a div c) * c" using assms(1) by (intro mult_right_mono) simp_all
  also have "\<dots> = a - a mod c" by (simp add: minus_mod_eq_div_mult)
  also have "\<dots> \<le> a" using assms(1) by simp
  finally show False using assms(2) by simp
qed

section \<open>Multiplication\<close>

lemma uint_add_mod: "uint (a + b :: u64) = (uint a + uint b) mod LB"
  by (simp add: uint_word_ariths LB_def)

lemma square_bound: "0 \<le> x \<Longrightarrow> x < LB \<Longrightarrow> 0 \<le> y \<Longrightarrow> y < LB \<Longrightarrow> x * y \<le> (LB - 1) * (LB - 1)"
  by (intro mult_mono) simp_all

lemma muladdc_core_val:
  assumes "muladdc_core s b d c = (d', c')"
  shows "uint d' + LB * uint c' = uint d + uint s * uint b + uint c"
proof -
  let ?r = "(ucast s :: 128 word) * ucast b"
  have sb: "uint s * uint b \<le> (LB - 1) * (LB - 1)" by (intro square_bound) (simp_all add: uint_LB)
  have "uint ?r = uint s * uint b"
  proof -
    have "uint s * uint b < 2 ^ 128" using sb by (simp add: LB_def)
    moreover have "uint (ucast x :: 128 word) = uint x" for x :: u64 by (intro uint_up_ucast) (simp add: is_up)
    ultimately show ?thesis by (simp add: uint_word_ariths(3))
  qed
  then have lo: "uint (ucast ?r :: u64) = uint s * uint b mod LB"
    and hi: "uint (ucast (drop_bit 64 ?r) :: u64) = uint s * uint b div LB"
  proof -
    assume r: "uint ?r = uint s * uint b"
    show "uint (ucast ?r :: u64) = uint s * uint b mod LB"
      by (simp add: unsigned_ucast_eq take_bit_eq_mod r LB_def)
    have "uint s * uint b div LB < LB"
    proof -
      have "uint s * uint b < LB * LB" using sb by (simp add: algebra_simps) (use LB_gt in linarith)
      then show ?thesis by (intro zdiv_less) simp_all
    qed
    moreover have "0 \<le> uint s * uint b div LB" by (simp add: pos_imp_zdiv_nonneg_iff)
    ultimately show "uint (ucast (drop_bit 64 ?r) :: u64) = uint s * uint b div LB"
      by (simp add: unsigned_ucast_eq unsigned_drop_bit_eq r drop_bit_int_def take_bit_int_def LB_def)
  qed
  define rax where "rax = (ucast ?r :: u64)"
  define rdx where "rdx = (ucast (drop_bit 64 ?r) :: u64)"
  have prod: "uint rax + LB * uint rdx = uint s * uint b"
    unfolding rax_def rdx_def lo hi by simp
  let ?f1 = "of_bool (rax + c < c) :: u64" and ?f2 = "of_bool (d + (rax + c) < rax + c) :: u64"
  have dc: "d' = d + (rax + c)" "c' = rdx + ?f1 + ?f2"
    using assms unfolding muladdc_core_def Let_def rax_def rdx_def by blast+
  have tot: "uint d' + LB * (uint rdx + of_bool (rax + c < c) + of_bool (d + (rax + c) < rax + c)) =
      uint d + uint s * uint b + uint c"
    using prod uint_add_carry [of rax c] uint_add_carry [of d "rax + c"] by (simp add: dc(1) distrib_left)
  have "LB * (uint rdx + of_bool (rax + c < c) + of_bool (d + (rax + c) < rax + c)) < LB * LB"
  proof -
    have "(LB - 1) * (LB - 1) = LB * LB - 2 * LB + 1" by (simp add: algebra_simps)
    then show ?thesis using tot sb uint_LB(1) [of d'] uint_le_LB [of d] uint_le_LB [of c] by linarith
  qed
  then have "uint rdx + of_bool (rax + c < c) + of_bool (d + (rax + c) < rax + c) < LB" by (simp add: mult_less_cancel_left)
  then have "uint c' = uint rdx + of_bool (rax + c < c) + of_bool (d + (rax + c) < rax + c)"
    unfolding dc(2) uint_add_mod using uint_LB(1) [of rdx] by (simp add: mod_simps)
  then show ?thesis using tot by simp
qed

lemma muladdc_ok:
  assumes "k \<le> length ss" "k \<le> length ds"
  shows "\<exists>q c'. muladdc b k (ss, acc, ds, c) = Some (drop k ss, acc @ q, drop k ds, c') \<and> length q = k
    \<and> lval q + LB ^ k * uint c' = lval (take k ds) + lval (take k ss) * uint b + uint c"
  using assms
proof (induction k arbitrary: ss acc ds c)
  case (Suc k)
  obtain s ss' d ds' where l: "ss = s # ss'" "ds = d # ds'" using Suc.prems by (cases ss; cases ds) auto
  obtain d1 c1 where d1: "muladdc_core s b d c = (d1, c1)" by fastforce
  obtain q c' where q: "muladdc b k (ss', acc @ [d1], ds', c1) = Some (drop k ss', (acc @ [d1]) @ q, drop k ds', c')" "length q = k"
    "lval q + LB ^ k * uint c' = lval (take k ds') + lval (take k ss') * uint b + uint c1"
    using Suc.IH [of ss' ds' "acc @ [d1]" c1] Suc.prems l by auto
  have "LB * (lval q + LB ^ k * uint c') = LB * (lval (take k ds') + lval (take k ss') * uint b + uint c1)"
    unfolding q(3) ..
  then have "lval (d1 # q) + LB ^ Suc k * uint c' = lval (take (Suc k) ds) + lval (take (Suc k) ss) * uint b + uint c"
    using muladdc_core_val [OF d1] l by (simp add: algebra_simps)
  then show ?case using q(1,2) l d1 by (intro exI [of _ "d1 # q"] exI [of _ c']) simp
qed simp

lemma muladdc_add: "muladdc b (j + k) = (\<lambda>st. Option.bind (muladdc b j st) (muladdc b k))"
proof
  show "muladdc b (j + k) st = Option.bind (muladdc b j st) (muladdc b k)" for st
  proof (induction j arbitrary: st)
    case (Suc j)
    then show ?case by (cases "muladdc_step b st") simp_all
  qed simp
qed

text \<open>The unrolled loops are the plain one.\<close>

lemma mul_chunks_eq:
  "0 < w \<Longrightarrow> mul_chunks b w i st = map_option (Pair (i mod w)) (muladdc b (i - i mod w) st)"
proof (induction i arbitrary: st rule: less_induct)
  case (less i)
  show ?case
  proof (cases "w \<le> i")
    case True
    then have e2: "i mod w = (i - w) mod w" by (simp add: le_mod_geq)
    have e: "i - i mod w = w + (i - w - (i - w) mod w)" "i mod w = (i - w) mod w"
      using mod_less_eq_dividend [of "i - w" w] True unfolding e2 by linarith+
    have "mul_chunks b w (i - w) st' = map_option (Pair (i mod w)) (muladdc b (i - w - (i - w) mod w) st')" for st'
      using less True e(2) by simp
    then show ?thesis
      using less.prems True by (subst mul_chunks.simps) (simp add: e(1) muladdc_add split: bind_split)
  next
    case False
    then show ?thesis using less.prems by (simp add: mul_chunks.simps)
  qed
qed

lemma mpi_mul_hlp_eq:
  "mpi_mul_hlp i s d b = do {
     (s, acc, d, c) \<leftarrow> muladdc b i (s, [], d, 0);
     d \<leftarrow> mul_hlp_carry d c;
     Some (acc @ d) }"
proof -
  have e: "i = (i - i mod 16) + ((i mod 16 - i mod 16 mod 8) + (i mod 16 mod 8 - i mod 16 mod 8 mod 1))"
    using mod_less_eq_dividend [of i 16] mod_less_eq_dividend [of "i mod 16" 8] by simp
  have "muladdc b i st = do {
     st \<leftarrow> muladdc b (i - i mod 16) st;
     st \<leftarrow> muladdc b (i mod 16 - i mod 16 mod 8) st;
     muladdc b (i mod 16 mod 8 - i mod 16 mod 8 mod 1) st }" for st
    by (subst e) (simp only: muladdc_add bind_assoc)
  then show ?thesis
    by (simp add: mpi_mul_hlp_def mul_chunks_eq split: bind_split)
qed

lemma mul_hlp_carry_ok:
  assumes "ds \<noteq> []" "lval ds + uint c < LB ^ length ds"
  shows "\<exists>qs. mul_hlp_carry ds c = Some qs \<and> length qs = length ds \<and> lval qs = lval ds + uint c"
  using assms
proof (induction ds arbitrary: c)
  case (Cons d ds)
  note e = uint_add_carry [of d c]
  show ?case
  proof (cases "d + c < c")
    case True
    have "uint d + LB * lval ds + uint c < LB * LB ^ length ds" "uint (d + c) + LB = uint d + uint c"
      using Cons.prems(2) e True by simp_all
    then have "LB * (lval ds + 1) < LB * LB ^ length ds"
      using uint_LB(1) [of "d + c"] unfolding distrib_left by linarith
    then have lt: "lval ds + uint (1 :: u64) < LB ^ length ds" by (simp add: mult_less_cancel_left)
    then have "ds \<noteq> []" by auto
    then obtain qs where qs: "mul_hlp_carry ds 1 = Some qs" "length qs = length ds" "lval qs = lval ds + uint (1 :: u64)"
      using Cons.IH [OF _ lt] by auto
    then show ?thesis using True e by (simp add: Let_def distrib_left)
  next
    case False
    then show ?thesis using e by (simp add: Let_def)
  qed
qed simp

lemma mpi_mul_hlp_ok:
  assumes "i \<le> length s" "i < length d" "lval d + lval (take i s) * uint b < LB ^ length d"
  shows "\<exists>q. mpi_mul_hlp i s d b = Some q \<and> length q = length d \<and> lval q = lval d + lval (take i s) * uint b"
proof -
  obtain q c where q: "muladdc b i (s, [], d, 0) = Some (drop i s, q, drop i d, c)" "length q = i"
    "lval q + LB ^ i * uint c = lval (take i d) + lval (take i s) * uint b"
    using muladdc_ok [of i s d b "[]" 0] assms by auto
  have d: "lval d = lval (take i d) + LB ^ i * lval (drop i d)" using assms(2) by (intro lval_take_drop) simp
  have "LB ^ length d = LB ^ i * LB ^ (length d - i)" using assms(2) by (simp flip: power_add)
  then have "LB ^ i * (lval (drop i d) + uint c) < LB ^ i * LB ^ (length d - i)"
    using assms(3) q(3) d lval_nonneg [of q] unfolding distrib_left by linarith
  then have "lval (drop i d) + uint c < LB ^ length (drop i d)" by (simp add: mult_less_cancel_left)
  then obtain r where r: "mul_hlp_carry (drop i d) c = Some r" "length r = length d - i" "lval r = lval (drop i d) + uint c"
    using mul_hlp_carry_ok [of "drop i d" c] assms(2) by auto
  show ?thesis
    using q r d assms(2) by (auto simp: mpi_mul_hlp_eq lval_append distrib_left)
qed

lemma mul_loop_ok:
  assumes "i \<le> length a" "j \<le> length b" "i + length b \<le> length x"
    and "lval x = LB ^ j * (lval (take i a) * lval (drop j b))"
  shows "\<exists>q. mul_loop i a b j x = Some q \<and> length q = length x \<and> lval q = lval (take i a) * lval b"
  using assms
proof (induction j arbitrary: x)
  case (Suc j)
  let ?a = "lval (take i a)"
  have j: "j < length b" "j \<le> length x" using Suc.prems by simp_all
  have "lval x = LB ^ j * (LB * (?a * lval (drop (Suc j) b)))" using Suc.prems(4) by (simp add: algebra_simps)
  then have parts: "lval (take j x) = 0" "lval (drop j x) = LB * (?a * lval (drop (Suc j) b))"
    using lval_mod_div [OF j(2)] by simp_all
  have bj: "lval (drop j b) = uint (b ! j) + LB * lval (drop (Suc j) b)"
    using j(1) by (simp flip: Cons_nth_drop_Suc)
  have tot: "lval (drop j x) + ?a * uint (b ! j) = ?a * lval (drop j b)"
    unfolding parts(2) bj by (simp add: algebra_simps)
  have "?a * lval (drop j b) < LB ^ i * LB ^ (length b - j)"
  proof (rule mult_strict_mono')
    show "?a < LB ^ i" by (rule lval_take_bound)
    show "lval (drop j b) < LB ^ (length b - j)" using lval_bound [of "drop j b"] by simp
  qed simp_all
  also have "\<dots> = LB ^ (i + (length b - j))" by (simp add: power_add)
  also have "\<dots> \<le> LB ^ length (drop j x)" using Suc.prems(3) j by (intro LB_pow_mono) simp
  finally have lt: "lval (drop j x) + ?a * uint (b ! j) < LB ^ length (drop j x)" unfolding tot .
  have "i < length (drop j x)" using Suc.prems(3) j by simp
  then obtain d where d: "mpi_mul_hlp i a (drop j x) (b ! j) = Some d" "length d = length x - j"
    "lval d = ?a * lval (drop j b)"
    using mpi_mul_hlp_ok [OF Suc.prems(1) _ lt] unfolding tot by auto
  have "lval (take j x @ d) = LB ^ j * (?a * lval (drop j b))" using parts(1) d(3) j(2) by (simp add: lval_append min_def)
  then obtain q where "mul_loop i a b j (take j x @ d) = Some q" "length q = length x" "lval q = ?a * lval b"
    using Suc.IH [of "take j x @ d"] Suc.prems(1,3) j d(2) by auto
  then show ?case using d(1) by simp
qed simp

lemma mul_loop_take: "j \<le> k \<Longrightarrow> mul_loop i a (take k b) j x = mul_loop i a b j x"
  by (induction j arbitrary: x) simp_all

lemma mpi_mul_mpi_ok:
  assumes AB: "mp_p A \<noteq> []" "mp_p B \<noteq> []" and al: "xa \<Longrightarrow> A = X" "xb \<Longrightarrow> B = X"
    and sz: "mp_n X \<le> k" "nl (mp_p A) + nl (mp_p B) \<le> k" "1 \<le> k" "k \<le> POLARSSL_MPI_MAX_LIMBS"
  shows "\<exists>p. mpi_mul_mpi [] xa xb X A B = Some (0, \<lparr>mp_s = mp_s A * mp_s B, mp_p = p\<rparr>, [])
    \<and> lval p = lval (mp_p A) * lval (mp_p B) \<and> p \<noteq> [] \<and> mp_n X \<le> length p \<and> length p \<le> k"
proof -
  have copy: "\<exists>q. (if al then mpi_copy [] False mpi_init C else Some (0, C, [])) = Some (0, \<lparr>mp_s = mp_s C, mp_p = q\<rparr>, []) \<and> lval q = lval (mp_p C)"
    if "mp_p C \<noteq> []" "nl (mp_p C) \<le> k" for al C
  proof (cases al)
    case True
    then show ?thesis using mpi_copy_ok [of C mpi_init] that sz(4) by auto
  next
    case False
    then show ?thesis by (intro exI [of _ "mp_p C"]) simp
  qed
  obtain a where a: "(if xa then mpi_copy [] False mpi_init A else Some (0, A, [])) = Some (0, \<lparr>mp_s = mp_s A, mp_p = a\<rparr>, [])"
    "lval a = lval (mp_p A)" using copy [OF AB(1)] sz by auto
  obtain b where b: "(if xb then mpi_copy [] False mpi_init B else Some (0, B, [])) = Some (0, \<lparr>mp_s = mp_s B, mp_p = b\<rparr>, [])"
    "lval b = lval (mp_p B)" using copy [OF AB(2)] sz by auto
  have n: "nl a = nl (mp_p A)" "nl b = nl (mp_p B)" using a b by (auto intro: nl_eqI)
  define z where "z = (0 :: u64) # replicate (mp_n X + (nl a + nl b - mp_n X) - 1) 0"
  have z: "lval z = 0" "mp_n X \<le> length z" "length z \<le> k" "nl a + nl b \<le> length z"
    using sz n by (auto simp: z_def)
  obtain p where p: "mul_loop (nl a) a (take (nl b) b) (nl b) z = Some p" "length p = length z" "lval p = lval (take (nl a) a) * lval (take (nl b) b)"
    using mul_loop_ok [of "nl a" a "nl b" "take (nl b) b" z] z nl_le [of a] nl_le [of b] by auto
  have "mpi_mul_mpi [] xa xb X A B = Some (0, \<lparr>mp_s = mp_s A * mp_s B, mp_p = p\<rparr>, [])"
    unfolding mpi_mul_mpi_def using p(1) sz(2,4) n
    by (simp add: a(1) b(1) Let_def mpi_grow_ok mpi_lset_ok mul_loop_take z_def)
  moreover have "p \<noteq> []" using p(2) by (auto simp: z_def)
  ultimately show ?thesis using p z a b by (auto simp: lval_take_nl)
qed

section \<open>The number of bits\<close>

lemma drop_bit_1_iff: "drop_bit j (w :: u64) AND 1 \<noteq> 0 \<longleftrightarrow> bit w j"
  by (simp add: and_one_eq bit_iff_odd_drop_bit odd_iff_mod_2_eq_one)

lemma bit_uint: "bit (w :: u64) j \<longleftrightarrow> bit (uint w) j"
  using bit_imp_le_length [of w j] by (auto simp: bit_uint_iff)

lemma msb_limb_less: "uint w < 2 ^ j \<Longrightarrow> uint w < 2 ^ msb_limb w j"
proof (induction j)
  case (Suc j)
  show ?case
  proof (cases "bit w j")
    case False
    have "uint w < 2 ^ j"
    proof -
      have "take_bit (Suc j) (uint w) = uint w" using Suc.prems by (simp add: take_bit_int_eq_self)
      moreover have "take_bit (Suc j) (uint w) = take_bit j (uint w)"
        using False by (auto intro!: bit_eqI simp: bit_take_bit_iff bit_uint less_Suc_eq)
      ultimately have "take_bit j (uint w) = uint w" by simp
      then show ?thesis by (metis take_bit_int_less_exp)
    qed
    then show ?thesis using False Suc.IH drop_bit_1_iff [of j w] by simp
  next
    case True
    then show ?thesis using Suc.prems drop_bit_1_iff [of j w] by simp
  qed
qed simp

lemma msb_limb_ge: "0 < msb_limb w j \<Longrightarrow> 2 ^ (msb_limb w j - 1) \<le> uint w"
proof (induction j)
  case (Suc j)
  show ?case
  proof (cases "bit w j")
    case True
    then have "bit (uint w) j" by (simp add: bit_uint)
    then have "2 ^ j \<le> uint w"
      by (metis bit_take_bit_iff less_irrefl not_less take_bit_int_eq_self uint_ge_0)
    then show ?thesis using True drop_bit_1_iff [of j w] by simp
  next
    case False
    then show ?thesis using Suc drop_bit_1_iff [of j w] by simp
  qed
qed simp

lemma msb_limb_le: "msb_limb w j \<le> j"
  by (induction j) auto

lemma LB_pow_eq: "LB ^ i = 2 ^ (i * 64)"
  unfolding LB_def power_mult [symmetric] by (simp only: mult.commute)

text \<open>\<open>mpi_msb\<close> is the length of the binary representation.\<close>

lemma mpi_msb_ok:
  assumes "mp_p X \<noteq> []"
  obtains b where "mpi_msb X = Some b" "lval (mp_p X) < 2 ^ b" "0 < lval (mp_p X) \<Longrightarrow> 0 < b \<and> 2 ^ (b - 1) \<le> lval (mp_p X)"
    "lval (mp_p X) = 0 \<Longrightarrow> b = 0"
proof -
  let ?p = "mp_p X"
  define i where "i = top_limb ?p (mp_n X - 1)"
  define j where "j = msb_limb (?p ! i) 64"
  have i: "i + 1 = max 1 (nl ?p)" "i < length ?p" using top_limb_nl [OF assms] top_limb_le [of ?p "mp_n X - 1"] assms
    by (simp_all add: i_def) (cases ?p; simp)
  have msb: "mpi_msb X = Some (i * 64 + j)" using assms by (simp add: mpi_msb_def i_def j_def Let_def)
  have LBp: "LB ^ i = 2 ^ (i * 64)" by (rule LB_pow_eq)
  have val: "lval ?p = lval (take i ?p) + LB ^ i * uint (?p ! i)"
    using lval_take_Suc [OF i(2)] lval_take_ge [of ?p "Suc i"] i(1) by simp
  have top: "uint (?p ! i) < 2 ^ j" unfolding j_def using uint_LB(2) [of "?p ! i"] by (intro msb_limb_less) (simp add: LB_def)
  show thesis
  proof (rule that [OF msb])
    have "lval ?p < LB ^ i + LB ^ i * uint (?p ! i)" using val lval_take_bound [of i ?p] by simp
    also have "\<dots> = LB ^ i * (uint (?p ! i) + 1)" by (simp add: distrib_left)
    also have "\<dots> \<le> LB ^ i * 2 ^ j" using top by (intro mult_left_mono) simp_all
    finally show "lval ?p < 2 ^ (i * 64 + j)" by (simp add: LBp power_add)
    show "0 < i * 64 + j \<and> 2 ^ (i * 64 + j - 1) \<le> lval ?p" if "0 < lval ?p"
    proof -
      have n: "0 < nl ?p" using that nl_0_iff [of ?p] by simp
      then have "i = nl ?p - 1" using i(1) by simp
      then have "?p ! i \<noteq> 0" using used_nonzero [OF n] by simp
      then have pos: "0 < uint (?p ! i)" using uint_0_iff [of "?p ! i"] uint_LB(1) [of "?p ! i"] by linarith
      then have j: "0 < j" using top by (cases j) auto
      have "2 ^ (i * 64 + j - 1) = LB ^ i * 2 ^ (j - 1)" using j by (simp add: LBp flip: power_add)
      also have "\<dots> \<le> LB ^ i * uint (?p ! i)" using msb_limb_ge [of "?p ! i" 64] j by (intro mult_left_mono) (simp_all add: j_def)
      also have "\<dots> \<le> lval ?p" using val lval_nonneg [of "take i ?p"] by simp
      finally show ?thesis using j by simp
    qed
    show "i * 64 + j = 0" if "lval ?p = 0"
    proof -
      have "i = 0" using that i(1) nl_0_iff [of ?p] by simp
      moreover have "?p ! i = 0" using val that lval_nonneg [of "take i ?p"] uint_LB(1) [of "?p ! i"]
        by (simp add: add_nonneg_eq_0_iff uint_0_iff)
      ultimately show ?thesis using msb_limb_ge [of "?p ! i" 64] by (cases j) (simp_all add: j_def)
    qed
  qed
qed

lemma pow2_less_iff: "(2 :: int) ^ a < 2 ^ b \<longleftrightarrow> a < b" by simp

lemma bits_unique:
  fixes v :: int
  assumes "v < 2 ^ a" "2 ^ (a - 1) \<le> v" "v < 2 ^ b" "2 ^ (b - 1) \<le> v" "0 < a" "0 < b"
  shows "a = b"
proof -
  have "(2 :: int) ^ (a - 1) < 2 ^ b" "(2 :: int) ^ (b - 1) < 2 ^ a" using assms by linarith+
  then show ?thesis using assms(5,6) unfolding pow2_less_iff by linarith
qed

section \<open>Shifts\<close>

lemma or_add_disjoint:
  fixes a r :: int
  assumes "2 ^ t dvd a" "0 \<le> r" "r < 2 ^ t"
  shows "a OR r = a + r"
proof -
  obtain k where a: "a = push_bit t k" using assms(1) by (auto simp: push_bit_eq_mult mult.commute elim: dvdE)
  have r: "r = take_bit t r" using assms(2,3) by (simp add: take_bit_int_eq_self)
  have "\<not> bit a n \<or> \<not> bit r n" for n
    by (subst r) (auto simp: a bit_push_bit_iff_int bit_take_bit_iff)
  then show ?thesis by (simp add: disjunctive_add)
qed

lemma uint_push_bit: "t \<le> 64 \<Longrightarrow> uint (push_bit t (w :: u64)) = (uint w * 2 ^ t) mod LB"
  by (simp add: unsigned_push_bit_eq take_bit_int_def push_bit_int_def LB_def)

lemma uint_drop_bit: "uint (drop_bit t (w :: u64)) = uint w div 2 ^ t"
  using uint_bounded [of w] by (simp add: unsigned_drop_bit_eq drop_bit_int_def take_bit_int_eq_self)

lemma LB_split: "t \<le> 64 \<Longrightarrow> LB = 2 ^ t * 2 ^ (64 - t)"
  by (simp add: LB_def flip: power_add)

lemma shl_limb:
  assumes "t < 64" "uint r < 2 ^ t"
  shows "uint (push_bit t p OR r :: u64) + LB * uint (drop_bit (64 - t) p) = uint p * 2 ^ t + uint r"
proof -
  have LB: "LB = 2 ^ (64 - t) * 2 ^ t" using LB_split [of t] assms(1) by (simp only: mult.commute)
  have "uint p * 2 ^ t mod LB = (uint p mod 2 ^ (64 - t)) * 2 ^ t"
    unfolding LB by (rule mod_mult_mult2)
  then have "2 ^ t dvd uint p * 2 ^ t mod LB" by simp
  then have "uint (push_bit t p OR r) = uint p * 2 ^ t mod LB + uint r"
    using assms by (simp add: uint_or uint_push_bit or_add_disjoint)
  moreover have "uint p * 2 ^ t div LB = uint p div 2 ^ (64 - t)"
    unfolding LB by (rule div_mult_mult2) simp
  ultimately show ?thesis using mod_mult_div_eq [of "uint p * 2 ^ t" LB] by (simp add: uint_drop_bit)
qed

lemma shl_loop_ok:
  assumes "t < 64" "uint r < 2 ^ t" "lval ps * 2 ^ t + uint r < LB ^ length ps"
  shows "lval (shl_loop t ps r) = lval ps * 2 ^ t + uint r"
  using assms(2,3)
proof (induction ps arbitrary: r)
  case (Cons p ps)
  let ?c = "drop_bit (64 - t) p"
  note e = shl_limb [OF assms(1) Cons.prems(1), of p]
  have c: "uint ?c < 2 ^ t"
  proof -
    have "uint p < 2 ^ t * 2 ^ (64 - t)" using uint_LB(2) [of p] assms(1) by (simp flip: LB_split)
    then show ?thesis unfolding uint_drop_bit by (intro zdiv_less) simp_all
  qed
  have "uint p * 2 ^ t + LB * (lval ps * 2 ^ t) + uint r < LB * LB ^ length ps"
    using Cons.prems(2) by (simp add: algebra_simps)
  then have "LB * (lval ps * 2 ^ t + uint ?c) < LB * LB ^ length ps"
    using e uint_LB(1) [of "push_bit t p OR r"] unfolding distrib_left by linarith
  then have "lval ps * 2 ^ t + uint ?c < LB ^ length ps" by (simp add: mult_less_cancel_left)
  then have "lval (shl_loop t ps ?c) = lval ps * 2 ^ t + uint ?c" using Cons.IH c by simp
  then show ?case using e by (simp add: algebra_simps)
next
  case Nil
  then have "uint r < 1" by simp
  then have "uint r = 0" using uint_LB(1) [of r] by linarith
  then show ?case by simp
qed

lemma length_shl_loop [simp]: "length (shl_loop t ps r) = length ps"
  by (induction ps arbitrary: r) simp_all

lemma BITS_TO_LIMBS_le_iff: "BITS_TO_LIMBS b \<le> n \<longleftrightarrow> b \<le> 64 * n"
proof -
  have "(b + 63) div 64 < Suc n \<longleftrightarrow> b + 63 < Suc n * 64" by (rule div_less_iff_less_mult) simp
  then show ?thesis unfolding BITS_TO_LIMBS_def by linarith
qed

lemma mpi_shift_l_ok:
  assumes ne: "mp_p X \<noteq> []" and b: "mpi_msb X = Some b" and sz: "BITS_TO_LIMBS (b + count) \<le> POLARSSL_MPI_MAX_LIMBS"
  shows "\<exists>p. mpi_shift_l [] X count = Some (0, X\<lparr>mp_p := p\<rparr>, []) \<and> lval p = lval (mp_p X) * 2 ^ count
    \<and> length p = max (mp_n X) (BITS_TO_LIMBS (b + count))"
proof -
  define v where "v = count div 64"
  define t where "t = count mod 64"
  have count: "count = 64 * v + t" "t < 64" by (simp_all add: v_def t_def)
  define q where "q = mp_p X @ replicate (BITS_TO_LIMBS (b + count) - mp_n X) 0"
  have q: "lval q = lval (mp_p X)" "length q = max (mp_n X) (BITS_TO_LIMBS (b + count))" by (auto simp: q_def lval_append)
  have grow: "(if mp_n X * 64 < b + count then mpi_grow [] X (BITS_TO_LIMBS (b + count)) else (0, X, [])) = (0, X\<lparr>mp_p := q\<rparr>, [])"
  proof (cases "mp_n X * 64 < b + count")
    case False
    then have "BITS_TO_LIMBS (b + count) \<le> mp_n X" unfolding BITS_TO_LIMBS_le_iff by simp
    then show ?thesis using False by (simp add: q_def)
  qed (use sz in \<open>simp add: mpi_grow_ok q_def\<close>)
  have fits: "b + count \<le> 64 * length q"
    using BITS_TO_LIMBS_le_iff [of "b + count" "length q"] q(2) by simp
  then have v: "v \<le> length q" using count by linarith
  obtain b' where "mpi_msb X = Some b'" "lval (mp_p X) < 2 ^ b'" by (rule mpi_msb_ok [OF ne])
  then have "lval q < 2 ^ b" using b q(1) by simp
  then have "lval q * 2 ^ count < 2 ^ b * 2 ^ count" by (intro mult_strict_right_mono) simp_all
  also have "\<dots> \<le> 2 ^ (64 * length q)" unfolding power_add [symmetric] using fits by (intro power_increasing) simp_all
  finally have less: "lval q * 2 ^ count < LB ^ length q" unfolding LB_pow_eq mult.commute [of "length q"] .
  have "(2 :: int) ^ count = LB ^ v * 2 ^ t"
    unfolding count(1) power_add LB_pow_eq mult.commute [of v] ..
  then have cnt: "lval q * 2 ^ count = LB ^ v * (lval q * 2 ^ t)" by simp
  have LBq: "LB ^ length q = LB ^ v * LB ^ (length q - v)" using v by (simp flip: power_add)
  have qt: "lval q * 2 ^ t < LB ^ (length q - v)" using less unfolding cnt LBq by (simp add: mult_less_cancel_left)
  moreover have "lval q * 1 \<le> lval q * 2 ^ t" by (intro mult_left_mono) simp_all
  ultimately have keep: "lval (take (length q - v) q) = lval q" by (intro lval_take_ge) (simp add: nl_le_iff)
  define r where "r = replicate v 0 @ take (length q - v) q"
  have r: "(if 0 < v then replicate (min v (length q)) 0 @ take (length q - v) q else q) = r" "take v r = replicate v 0"
    "drop v r = take (length q - v) q" "length r = length q"
    using v by (auto simp: r_def)
  define p where "p = (if 0 < t then take v r @ shl_loop t (drop v r) 0 else r)"
  have "lval p = LB ^ v * (lval q * 2 ^ t)"
  proof (cases "0 < t")
    case True
    then show ?thesis
      using shl_loop_ok [OF count(2), of 0 "take (length q - v) q"] qt v by (simp add: p_def r keep lval_append)
  next
    case False
    then show ?thesis by (simp add: p_def r_def lval_append keep)
  qed
  then have "lval p = lval (mp_p X) * 2 ^ count" using cnt q(1) by metis
  moreover have "length p = length q" using r v by (simp add: p_def)
  moreover have "mpi_shift_l [] X count = Some (0, X\<lparr>mp_p := p\<rparr>, [])"
    unfolding mpi_shift_l_def b v_def [symmetric] t_def [symmetric]
    using v by (simp add: grow Let_def) (simp add: p_def r_def min_def)
  ultimately show ?thesis using q(2) by auto
qed

lemma shr_limb:
  assumes "0 < v" "v < 64" "0 \<le> L"
  shows "uint (drop_bit v p OR word_of_int ((L mod 2 ^ v) * 2 ^ (64 - v)) :: u64) + LB * (L div 2 ^ v) = (uint p + LB * L) div 2 ^ v"
proof -
  let ?h = "(L mod 2 ^ v) * 2 ^ (64 - v)"
  have LB: "LB = 2 ^ v * 2 ^ (64 - v)" using assms by (intro LB_split) simp
  have lo: "uint p div 2 ^ v < 2 ^ (64 - v)"
    using uint_LB(2) [of p] unfolding LB by (intro zdiv_less) (simp_all add: mult.commute)
  have "?h < 2 ^ v * 2 ^ (64 - v)" by (intro mult_strict_right_mono) simp_all
  then have h: "uint (word_of_int ?h :: u64) = ?h" by (intro uint_lset) (simp_all flip: LB)
  have "uint (drop_bit v p OR word_of_int ?h) = ?h OR uint p div 2 ^ v"
    unfolding uint_or uint_drop_bit h by (rule or.commute)
  also have "\<dots> = ?h + uint p div 2 ^ v"
    using lo by (intro or_add_disjoint [of "64 - v"]) (simp_all add: pos_imp_zdiv_nonneg_iff)
  finally have "uint (drop_bit v p OR word_of_int ?h) = uint p div 2 ^ v + 2 ^ (64 - v) * (L mod 2 ^ v)" by simp
  moreover have "(uint p + LB * L) div 2 ^ v = uint p div 2 ^ v + 2 ^ (64 - v) * L"
    unfolding LB mult.assoc by (subst add.commute, subst div_mult_self2) simp_all
  moreover have "2 ^ (64 - v) * L = 2 ^ (64 - v) * (L mod 2 ^ v) + LB * (L div 2 ^ v)"
  proof -
    have "2 ^ (64 - v) * L = 2 ^ (64 - v) * (2 ^ v * (L div 2 ^ v) + L mod 2 ^ v)" by simp
    then show ?thesis unfolding LB distrib_left by (simp only: mult.assoc mult.left_commute add.commute)
  qed
  ultimately show ?thesis by linarith
qed

lemma shr_loop_ok:
  assumes "0 < v" "v < 64" "shr_loop v ps = (qs, r)"
  shows "lval qs = lval ps div 2 ^ v \<and> length qs = length ps \<and> r = word_of_int ((lval ps mod 2 ^ v) * 2 ^ (64 - v))"
  using assms(3)
proof (induction ps arbitrary: qs r)
  case (Cons p ps)
  obtain qs' r' where s: "shr_loop v ps = (qs', r')" by fastforce
  note ih = Cons.IH [OF s]
  have qs: "qs = (drop_bit v p OR r') # qs'" "r = push_bit (64 - v) p" using Cons.prems s by auto
  have LB: "LB = 2 ^ v * 2 ^ (64 - v)" using assms by (intro LB_split) simp
  have "uint p * 2 ^ (64 - v) mod LB = (uint p mod 2 ^ v) * 2 ^ (64 - v)" unfolding LB by (rule mod_mult_mult2)
  moreover have "lval (p # ps) mod 2 ^ v = uint p mod 2 ^ v"
    unfolding LB lval.simps mult.assoc by simp
  ultimately have "uint (push_bit (64 - v) p) = (lval (p # ps) mod 2 ^ v) * 2 ^ (64 - v)"
    using assms(2) by (simp add: uint_push_bit)
  then have "r = word_of_int ((lval (p # ps) mod 2 ^ v) * 2 ^ (64 - v))"
    unfolding qs(2) by (metis word_of_int_uint)
  moreover have "lval qs = lval (p # ps) div 2 ^ v"
    using shr_limb [OF assms(1,2), of "lval ps" p] ih qs(1) by simp
  ultimately show ?case using ih qs(1) by simp
qed simp

lemma mpi_shift_r_ok:
  assumes "count div 64 \<le> mp_n X"
  shows "\<exists>p. mpi_shift_r X count = Some (X\<lparr>mp_p := p\<rparr>) \<and> lval p = lval (mp_p X) div 2 ^ count \<and> length p = mp_n X"
proof -
  define v where "v = count div 64"
  define t where "t = count mod 64"
  have count: "count = 64 * v + t" "t < 64" by (simp_all add: v_def t_def)
  define r where "r = drop v (mp_p X) @ replicate v 0"
  have v: "v \<le> mp_n X" using assms by (simp add: v_def)
  have r: "(if 0 < v then drop v (mp_p X) @ replicate v 0 else mp_p X) = r" "lval r = lval (mp_p X) div LB ^ v" "length r = mp_n X"
    using v lval_mod_div(2) [OF v] by (auto simp: r_def lval_append)
  define p where "p = (if 0 < t then fst (shr_loop t r) else r)"
  have "lval p = lval r div 2 ^ t \<and> length p = length r"
  proof (cases "0 < t")
    case True
    then show ?thesis using shr_loop_ok [OF True count(2), of r "fst (shr_loop t r)"] by (simp add: p_def prod_eq_iff)
  next
    case False
    then show ?thesis by (simp add: p_def)
  qed
  moreover have "(2 :: int) ^ count = LB ^ v * 2 ^ t" unfolding count(1) power_add LB_pow_eq mult.commute [of v] ..
  then have "lval (mp_p X) div 2 ^ count = lval r div 2 ^ t" by (simp add: r(2) zdiv_zmult2_eq)
  moreover have "mpi_shift_r X count = Some (X\<lparr>mp_p := p\<rparr>)"
    unfolding mpi_shift_r_def v_def [symmetric] t_def [symmetric] Let_def r(1) p_def using v by simp
  ultimately show ?thesis using r(3) by auto
qed

end
