(* ===== verification/Bignum_Bytes.thy ===== *)
theory Bignum_Bytes
  imports Bignum_Mul
begin

text \<open>
  The conversion of multi-precision integers from and to big-endian byte strings: reading
  gives the value of the bytes, writing gives bytes of that value, for every length.
\<close>

lemma nth_lval:
  assumes "i < length p"
  shows "uint (p ! i) = lval p div LB ^ i mod LB"
proof -
  have "lval (drop i p) = uint (p ! i) + LB * lval (drop (Suc i) p)"
    using assms by (simp flip: Cons_nth_drop_Suc)
  then show ?thesis using lval_mod_div(2) [of i p] assms uint_LB [of "p ! i"] by simp
qed

lemma LB_bytes: "LB ^ i * 256 ^ k = 256 ^ (8 * i + k)"
  by (simp add: LB_def power_add power_mult)

lemma CHARS_TO_LIMBS_le_iff: "CHARS_TO_LIMBS b \<le> n \<longleftrightarrow> b \<le> 8 * n"
proof -
  have "(b + 7) div 8 < Suc n \<longleftrightarrow> b + 7 < Suc n * 8" by (rule div_less_iff_less_mult) simp
  then show ?thesis unfolding CHARS_TO_LIMBS_def by linarith
qed

section \<open>Reading\<close>

lemma read_limb:
  assumes "j < 8 * length p" "lval p < 256 ^ j"
  shows "lval (p[j div 8 := p ! (j div 8) OR push_bit (8 * (j mod 8)) (ucast b)]) = lval p + 256 ^ j * uint (b :: byte)"
proof -
  define i where "i = j div 8"
  define k where "k = j mod 8"
  have j: "j = 8 * i + k" "k < 8" "i < length p" using assms(1) by (simp_all add: i_def k_def)
  have "lval p < 256 ^ k * LB ^ i" using assms(2) LB_bytes [of i k] j(1) by (simp add: mult.commute)
  then have q: "lval p div LB ^ i < 256 ^ k" by (intro zdiv_less) simp_all
  have small: "uint (p ! i) < 256 ^ k"
  proof -
    have "uint (p ! i) \<le> lval p div LB ^ i"
      unfolding nth_lval [OF j(3)] by (rule zmod_le_nonneg_dividend) (simp add: pos_imp_zdiv_nonneg_iff)
    then show ?thesis using q by linarith
  qed
  let ?b = "push_bit (8 * k) (ucast b :: u64)"
  have ub: "uint b < 256" using uint_bounded [of b] by simp
  have pow: "(2 :: int) ^ (8 * k) = 256 ^ k" by (simp add: power_mult)
  have "uint b * 256 ^ k < 256 * 256 ^ k" using ub by (intro mult_strict_right_mono) simp_all
  also have "\<dots> \<le> 256 ^ 8" using j(2) power_increasing [of "Suc k" 8 "256 :: int"] by simp
  finally have "uint b * 256 ^ k < LB" by (simp add: LB_def)
  then have "uint ?b = uint b * 256 ^ k"
    using j(2) by (simp add: uint_push_bit pow uint_up_ucast is_up)
  then have "uint (p ! i OR ?b) = uint b * 256 ^ k + uint (p ! i)"
    using small or_add_disjoint [of "8 * k" "uint b * 256 ^ k" "uint (p ! i)"] by (simp add: uint_or pow or.commute)
  then have "lval (p[i := p ! i OR ?b]) = lval p + LB ^ i * (uint b * 256 ^ k)"
    using lval_update [OF j(3)] by simp
  also have "LB ^ i * (uint b * 256 ^ k) = 256 ^ j * uint b" using LB_bytes [of i k] j(1) by (simp add: mult.left_commute)
  finally show ?thesis by (simp add: i_def k_def)
qed

lemma read_loop_ok:
  assumes "j + length bs \<le> 8 * length p" "lval p < 256 ^ j"
  shows "lval (read_loop bs j p) = lval p + 256 ^ j * int (be_nat (rev bs)) \<and> length (read_loop bs j p) = length p"
  using assms
proof (induction bs arbitrary: j p)
  case (Cons b bs)
  define p' where "p' = p[j div 8 := p ! (j div 8) OR push_bit (8 * (j mod 8)) (ucast b)]"
  have p': "lval p' = lval p + 256 ^ j * uint b" "length p' = length p"
    using read_limb [of j p b] Cons.prems by (simp_all add: p'_def)
  have "uint b \<le> 255" using uint_bounded [of b] by simp
  then have "256 ^ j * uint b \<le> 256 ^ j * 255" by (intro mult_left_mono) simp_all
  then have "lval p' < 256 ^ Suc j" using p'(1) Cons.prems(2) unfolding power_Suc by linarith
  then show ?case
    using Cons.IH [of "Suc j" p'] Cons.prems(1) p' by (simp add: be_nat_snoc algebra_simps flip: p'_def)
qed simp

lemma be_nat_dropWhile: "be_nat (dropWhile (\<lambda>b. b = 0) bs) = be_nat bs"
proof (induction bs)
  case (Cons b bs)
  have "be_nat (b # bs) = be_nat ([b] @ bs)" by simp
  also have "\<dots> = be_nat [b] * 256 ^ length bs + be_nat bs" by (rule be_nat_append)
  finally show ?case using Cons by (simp add: be_nat_def)
qed simp

lemma mpi_read_binary_ok:
  assumes "CHARS_TO_LIMBS (length buf) \<le> POLARSSL_MPI_MAX_LIMBS"
  shows "\<exists>p. mpi_read_binary [] X buf = (0, \<lparr>mp_s = 1, mp_p = p\<rparr>, []) \<and> lval p = int (be_nat buf) \<and> p \<noteq> []
    \<and> mp_n X \<le> length p \<and> length p \<le> max (mp_n X) (max 1 (CHARS_TO_LIMBS (length buf)))"
proof -
  define data where "data = dropWhile (\<lambda>b. b = 0) buf"
  define n where "n = CHARS_TO_LIMBS (length data)"
  have "length data \<le> length buf" by (simp add: data_def length_dropWhile_le)
  then have n: "n \<le> CHARS_TO_LIMBS (length buf)" "length data \<le> 8 * n"
    unfolding n_def CHARS_TO_LIMBS_le_iff using CHARS_TO_LIMBS_le_iff [of "length buf" "CHARS_TO_LIMBS (length buf)"]
      CHARS_TO_LIMBS_le_iff [of "length data" "CHARS_TO_LIMBS (length data)"] by auto
  define z where "z = (0 :: u64) # replicate (mp_n X + (n - mp_n X) - 1) 0"
  have z: "lval z = 0" "n \<le> length z" "mp_n X \<le> length z" "length z \<le> max (mp_n X) (max 1 n)" by (auto simp: z_def)
  define p where "p = read_loop (rev data) 0 z"
  have p: "lval p = int (be_nat buf)" "length p = length z"
    using read_loop_ok [of 0 "rev data" z] z n(2) by (simp_all add: p_def data_def be_nat_dropWhile)
  have "mpi_read_binary [] X buf = (0, \<lparr>mp_s = 1, mp_p = p\<rparr>, [])"
    using assms n(1) by (simp add: mpi_read_binary_def Let_def mpi_grow_ok mpi_lset_ok p_def z_def flip: data_def n_def)
  moreover have "p \<noteq> []" using p(2) by (auto simp: z_def)
  ultimately show ?thesis using p z n(1) by auto
qed

section \<open>Writing\<close>

lemma mpi_size_ok:
  assumes "mp_p X \<noteq> []"
  obtains n where "mpi_size X = Some n" "lval (mp_p X) < 256 ^ n" "n \<le> 8 * mp_n X" "\<And>k. lval (mp_p X) < 256 ^ k \<Longrightarrow> n \<le> k"
proof -
  obtain b where b: "mpi_msb X = Some b" "lval (mp_p X) < 2 ^ b" "0 < lval (mp_p X) \<Longrightarrow> 0 < b \<and> 2 ^ (b - 1) \<le> lval (mp_p X)"
    "lval (mp_p X) = 0 \<Longrightarrow> b = 0" using mpi_msb_ok [OF assms] by blast
  have le_iff: "(b + 7) div 8 \<le> k \<longleftrightarrow> b \<le> 8 * k" for k
    using CHARS_TO_LIMBS_le_iff [of b k] by (simp add: CHARS_TO_LIMBS_def)
  have min: "(b + 7) div 8 \<le> k" if "lval (mp_p X) < 256 ^ k" for k
  proof (cases "lval (mp_p X) = 0")
    case False
    then have "0 < b" "(2 :: int) ^ (b - 1) \<le> lval (mp_p X)" using b(3) lval_nonneg [of "mp_p X"] by auto
    then have "(2 :: int) ^ (b - 1) < 2 ^ (8 * k)" using that by (simp add: power_mult)
    then show ?thesis unfolding le_iff pow2_less_iff using \<open>0 < b\<close> by linarith
  qed (simp add: b(4))
  show thesis
  proof (rule that)
    show "mpi_size X = Some ((b + 7) div 8)" by (simp add: mpi_size_def b(1))
    have "b \<le> 8 * ((b + 7) div 8)" using le_iff by blast
    then have "(2 :: int) ^ b \<le> 2 ^ (8 * ((b + 7) div 8))" by (intro power_increasing) simp_all
    then show "lval (mp_p X) < 256 ^ ((b + 7) div 8)" using b(2) by (simp add: power_mult)
    have "lval (mp_p X) < 256 ^ (8 * mp_n X)" using lval_bound [of "mp_p X"] by (simp add: LB_def power_mult)
    then show "(b + 7) div 8 \<le> 8 * mp_n X" by (rule min)
  qed (rule min)
qed

lemma limb_byte_val:
  assumes "j < 8 * length p"
  shows "int (unat (limb_byte p j)) = lval p div 256 ^ j mod 256"
proof -
  define i where "i = j div 8"
  define k where "k = j mod 8"
  have j: "j = 8 * i + k" "k < 8" "i < length p" using assms by (simp_all add: i_def k_def)
  have "int (unat (limb_byte p j)) = uint (p ! i) div 2 ^ (8 * k) mod 256"
    unfolding limb_byte_def uint_nat [symmetric]
    by (simp add: unsigned_ucast_eq uint_drop_bit take_bit_int_def i_def k_def)
  also have "\<dots> = lval p div LB ^ i mod LB div 256 ^ k mod 256"
    by (simp add: nth_lval [OF j(3)] power_mult)
  also have "\<dots> = lval p div LB ^ i div 256 ^ k mod 256"
  proof -
    have e: "LB = 256 ^ k * 256 ^ (8 - k)" using j(2) by (simp add: LB_def flip: power_add)
    have "256 dvd (256 :: int) ^ (8 - k)" using j(2) by (cases "8 - k") simp_all
    then show ?thesis
      by (subst e) (simp add: zmod_zmult2_eq mod_mod_cancel)
  qed
  also have "\<dots> = lval p div 256 ^ j mod 256"
    unfolding j(1) LB_bytes [symmetric] by (simp add: zdiv_zmult2_eq)
  finally show ?thesis .
qed

lemma limb_bytes_val:
  assumes "n \<le> 8 * length p"
  shows "int (be_nat (rev (map (limb_byte p) [0..<n]))) = lval p mod 256 ^ n"
  using assms
proof (induction n)
  case (Suc n)
  have "be_nat (limb_byte p n # rev (map (limb_byte p) [0..<n])) =
      unat (limb_byte p n) * 256 ^ n + be_nat (rev (map (limb_byte p) [0..<n]))"
    using be_nat_append [of "[limb_byte p n]" "rev (map (limb_byte p) [0..<n])"] by (simp add: be_nat_def)
  then have "int (be_nat (rev (map (limb_byte p) [0..<Suc n]))) = lval p div 256 ^ n mod 256 * 256 ^ n + lval p mod 256 ^ n"
    using Suc limb_byte_val [of n p] by simp
  also have "\<dots> = lval p mod 256 ^ Suc n"
    using zmod_zmult2_eq [of 256 "lval p" "256 ^ n"] by (simp add: mult.commute)
  finally show ?case .
qed simp

lemma mpi_write_binary_ok:
  assumes "mp_p X \<noteq> []" "lval (mp_p X) < 256 ^ buflen"
  shows "\<exists>bs. mpi_write_binary X buflen = Some (0, Some bs) \<and> length bs = buflen \<and> int (be_nat bs) = lval (mp_p X)"
proof -
  obtain n where n: "mpi_size X = Some n" "lval (mp_p X) < 256 ^ n" "n \<le> 8 * mp_n X" "\<And>k. lval (mp_p X) < 256 ^ k \<Longrightarrow> n \<le> k"
    using mpi_size_ok [OF assms(1)] by blast
  have "int (be_nat (rev (map (limb_byte (mp_p X)) [0..<n]))) = lval (mp_p X)"
    using limb_bytes_val [OF n(3)] n(2) by simp
  then show ?thesis using n(1) n(4) [OF assms(2)] by (simp add: mpi_write_binary_def be_nat_append)
qed

lemma mpi_write_binary_small:
  assumes "mp_p X \<noteq> []" "256 ^ buflen \<le> lval (mp_p X)"
  shows "mpi_write_binary X buflen = Some (POLARSSL_ERR_MPI_BUFFER_TOO_SMALL, None)"
proof -
  obtain n where n: "mpi_size X = Some n" "lval (mp_p X) < 256 ^ n" using mpi_size_ok [OF assms(1)] by blast
  then have "(256 :: int) ^ buflen < 256 ^ n" using assms(2) by linarith
  then have "buflen < n" by simp
  then show ?thesis using n(1) by (simp add: mpi_write_binary_def)
qed

end
