(* ===== verification/Dhm.thy ===== *)
theory Dhm
  imports Bignum_Bytes
begin

text \<open>
  Diffie-Hellman-Merkle key exchange, \<open>host/linux-3.0/drivers/priv/polarssl/dhm.c\<close>: parsing and
  writing of the messages, the range check of public values, the private and public values and
  the shared secret. As in \<open>Bignum\<close>, the outcomes of \<open>malloc\<close> are threaded through, \<open>None\<close> is a
  fault or a loop that does not end, and the generator of random bytes is an argument.
\<close>

abbreviation POLARSSL_ERR_DHM_BAD_INPUT_DATA :: int where "POLARSSL_ERR_DHM_BAD_INPUT_DATA \<equiv> - 0x3080"
abbreviation POLARSSL_ERR_DHM_READ_PARAMS_FAILED :: int where "POLARSSL_ERR_DHM_READ_PARAMS_FAILED \<equiv> - 0x3100"
abbreviation POLARSSL_ERR_DHM_MAKE_PARAMS_FAILED :: int where "POLARSSL_ERR_DHM_MAKE_PARAMS_FAILED \<equiv> - 0x3180"
abbreviation POLARSSL_ERR_DHM_READ_PUBLIC_FAILED :: int where "POLARSSL_ERR_DHM_READ_PUBLIC_FAILED \<equiv> - 0x3200"
abbreviation POLARSSL_ERR_DHM_MAKE_PUBLIC_FAILED :: int where "POLARSSL_ERR_DHM_MAKE_PUBLIC_FAILED \<equiv> - 0x3280"
abbreviation POLARSSL_ERR_DHM_CALC_SECRET_FAILED :: int where "POLARSSL_ERR_DHM_CALC_SECRET_FAILED \<equiv> - 0x3300"

record dhm_context =
  dh_len :: nat
  dh_P :: mpi
  dh_G :: mpi
  dh_X :: mpi
  dh_GX :: mpi
  dh_GY :: mpi
  dh_K :: mpi
  dh_RP :: mpi

text \<open>What \<open>memset\<close> makes of an integer and of a context.\<close>

definition mpi_zeroed :: mpi where
  "mpi_zeroed = \<lparr>mp_s = 0, mp_p = []\<rparr>"

definition dhm_zeroed :: dhm_context where
  "dhm_zeroed = \<lparr>dh_len = 0, dh_P = mpi_zeroed, dh_G = mpi_zeroed, dh_X = mpi_zeroed, dh_GX = mpi_zeroed,
     dh_GY = mpi_zeroed, dh_K = mpi_zeroed, dh_RP = mpi_zeroed\<rparr>"

section \<open>Reading\<close>

text \<open>The bytes from \<open>*p\<close> to \<open>end\<close> are the argument \<open>p\<close>; the third result is the rest of them.\<close>

definition dhm_read_bignum :: "mem \<Rightarrow> mpi \<Rightarrow> bytes \<Rightarrow> int \<times> mpi \<times> bytes \<times> mem" where
  "dhm_read_bignum m X p =
     (if length p < 2 then (POLARSSL_ERR_DHM_BAD_INPUT_DATA, X, p, m)
      else
        let n = unat (p ! 0) * 256 + unat (p ! 1);
            p = drop 2 p
        in if length p < n then (POLARSSL_ERR_DHM_BAD_INPUT_DATA, X, p, m)
           else
             let (ret, X, m) = mpi_read_binary m X (take n p)
             in if ret \<noteq> 0 then (POLARSSL_ERR_DHM_READ_PARAMS_FAILED + ret, X, p, m)
                else (0, X, drop n p, m))"

text \<open>The results of the two calls that set up the bounds are not checked.\<close>

definition dhm_check_range :: "mem \<Rightarrow> mpi \<Rightarrow> mpi \<Rightarrow> (int \<times> mem) option" where
  "dhm_check_range m public_param P = do {
     let (_, L, m) = mpi_lset m mpi_init 2;
     (_, U, m) \<leftarrow> mpi_sub_int m False mpi_init P 2;
     Some (if 0 \<le> mpi_cmp_mpi public_param L \<and> mpi_cmp_mpi public_param U \<le> 0 then 0
           else POLARSSL_ERR_DHM_BAD_INPUT_DATA, m) }"

definition dhm_read_params :: "mem \<Rightarrow> bytes \<Rightarrow> (int \<times> dhm_context \<times> mem) option" where
  "dhm_read_params m p =
     (let ctx = dhm_zeroed;
          (ret, P, p, m) = dhm_read_bignum m (dh_P ctx) p;
          ctx = ctx\<lparr>dh_P := P\<rparr>
      in if ret \<noteq> 0 then Some (ret, ctx, m)
      else let (ret, G, p, m) = dhm_read_bignum m (dh_G ctx) p;
          ctx = ctx\<lparr>dh_G := G\<rparr>
      in if ret \<noteq> 0 then Some (ret, ctx, m)
      else let (ret, GY, p, m) = dhm_read_bignum m (dh_GY ctx) p;
          ctx = ctx\<lparr>dh_GY := GY\<rparr>
      in if ret \<noteq> 0 then Some (ret, ctx, m)
      else do {
        (ret, m) \<leftarrow> dhm_check_range m (dh_GY ctx) (dh_P ctx);
        if ret \<noteq> 0 then Some (ret, ctx, m)
        else do {
          len \<leftarrow> mpi_size (dh_P ctx);
          let ctx = ctx\<lparr>dh_len := len\<rparr>;
          if length p < 2 then Some (POLARSSL_ERR_DHM_BAD_INPUT_DATA, ctx, m)
          else
            let n = unat (p ! 0) * 256 + unat (p ! 1);
                p = drop 2 p
            in if length p \<noteq> n then Some (POLARSSL_ERR_DHM_BAD_INPUT_DATA, ctx, m)
               else Some (0, ctx, m) } })"

section \<open>The private and the public value\<close>

partial_function (option) dhm_reduce :: "mpi \<Rightarrow> mpi \<Rightarrow> mpi option" where
  [code]: "dhm_reduce P X =
     (if 0 \<le> mpi_cmp_mpi X P then do { X \<leftarrow> mpi_shift_r X 1; dhm_reduce P X } else Some X)"

text \<open>
  What \<open>dhm_make_params\<close> and \<open>dhm_make_public\<close> share: \<open>X\<close> is filled with random limbs and
  shifted below \<open>P\<close>, and \<open>GX\<close> is computed. The result of the random fill is not checked.
\<close>

definition dhm_generate :: "mem \<Rightarrow> dhm_context \<Rightarrow> nat \<Rightarrow> (nat \<Rightarrow> int \<times> bytes) \<Rightarrow> (int \<times> dhm_context \<times> mem) option" where
  "dhm_generate m ctx x_size f_rng = do {
     let n = x_size div 8 + 1;
     let (_, X, m) = mpi_fill_random m (dh_X ctx) n f_rng;
     X \<leftarrow> dhm_reduce (dh_P ctx) X;
     let ctx = ctx\<lparr>dh_X := X\<rparr>;
     (ret, (GX, RP), m) \<leftarrow> mpi_exp_mod m (dh_GX ctx) (dh_G ctx) X (dh_P ctx) (Some (dh_RP ctx));
     Some (ret, ctx\<lparr>dh_GX := GX, dh_RP := (case RP of Some R \<Rightarrow> R | None \<Rightarrow> dh_RP ctx)\<rparr>, m) }"

text \<open>\<open>DHM_MPI_EXPORT\<close>: a length of two bytes, then the number.\<close>

definition dhm_export :: "mpi \<Rightarrow> nat \<Rightarrow> (int \<times> bytes) option" where
  "dhm_export X n = do {
     (ret, bs) \<leftarrow> mpi_write_binary X n;
     case bs of
       None \<Rightarrow> Some (ret, [])
     | Some bs \<Rightarrow> Some (ret, word_of_nat (n div 256) # word_of_nat n # bs) }"

text \<open>The third result is the message; its length is \<open>*olen\<close>.\<close>

definition dhm_make_params :: "mem \<Rightarrow> dhm_context \<Rightarrow> nat \<Rightarrow> (nat \<Rightarrow> int \<times> bytes) \<Rightarrow> (int \<times> dhm_context \<times> bytes \<times> mem) option" where
  "dhm_make_params m ctx x_size f_rng = do {
     (ret, ctx, m) \<leftarrow> dhm_generate m ctx x_size f_rng;
     if ret \<noteq> 0 then Some (POLARSSL_ERR_DHM_MAKE_PARAMS_FAILED + ret, ctx, [], m)
     else do {
       (ret, m) \<leftarrow> dhm_check_range m (dh_GX ctx) (dh_P ctx);
       if ret \<noteq> 0 then Some (ret, ctx, [], m)
       else do {
         n1 \<leftarrow> mpi_size (dh_P ctx);
         n2 \<leftarrow> mpi_size (dh_G ctx);
         n3 \<leftarrow> mpi_size (dh_GX ctx);
         (ret1, o1) \<leftarrow> dhm_export (dh_P ctx) n1;
         if ret1 \<noteq> 0 then Some (POLARSSL_ERR_DHM_MAKE_PARAMS_FAILED + ret1, ctx, [], m)
         else do {
           (ret2, o2) \<leftarrow> dhm_export (dh_G ctx) n2;
           if ret2 \<noteq> 0 then Some (POLARSSL_ERR_DHM_MAKE_PARAMS_FAILED + ret2, ctx, o1, m)
           else do {
             (ret3, o3) \<leftarrow> dhm_export (dh_GX ctx) n3;
             if ret3 \<noteq> 0 then Some (POLARSSL_ERR_DHM_MAKE_PARAMS_FAILED + ret3, ctx, o1 @ o2, m)
             else Some (0, ctx\<lparr>dh_len := n1\<rparr>, o1 @ o2 @ o3, m) } } } } }"

definition dhm_read_public :: "mem \<Rightarrow> dhm_context \<Rightarrow> bytes \<Rightarrow> int \<times> dhm_context \<times> mem" where
  "dhm_read_public m ctx input =
     (if length input < 1 \<or> dh_len ctx < length input then (POLARSSL_ERR_DHM_BAD_INPUT_DATA, ctx, m)
      else
        let (ret, GY, m) = mpi_read_binary m (dh_GY ctx) input;
            ctx = ctx\<lparr>dh_GY := GY\<rparr>
        in if ret \<noteq> 0 then (POLARSSL_ERR_DHM_READ_PUBLIC_FAILED + ret, ctx, m) else (0, ctx, m))"

text \<open>The third result is what is written to the output, \<open>None\<close> when it is left alone.\<close>

definition dhm_make_public :: "mem \<Rightarrow> dhm_context \<Rightarrow> nat \<Rightarrow> nat \<Rightarrow> (nat \<Rightarrow> int \<times> bytes) \<Rightarrow>
    (int \<times> dhm_context \<times> bytes option \<times> mem) option" where
  "dhm_make_public m ctx x_size olen f_rng =
     (if olen < 1 \<or> dh_len ctx < olen then Some (POLARSSL_ERR_DHM_BAD_INPUT_DATA, ctx, None, m)
      else do {
        (ret, ctx, m) \<leftarrow> dhm_generate m ctx x_size f_rng;
        if ret \<noteq> 0 then Some (POLARSSL_ERR_DHM_MAKE_PUBLIC_FAILED + ret, ctx, None, m)
        else do {
          (ret, m) \<leftarrow> dhm_check_range m (dh_GX ctx) (dh_P ctx);
          if ret \<noteq> 0 then Some (ret, ctx, None, m)
          else do {
            (ret, bs) \<leftarrow> mpi_write_binary (dh_GX ctx) olen;
            if ret \<noteq> 0 then Some (POLARSSL_ERR_DHM_MAKE_PUBLIC_FAILED + ret, ctx, bs, m)
            else Some (0, ctx, bs, m) } } })"

section \<open>The shared secret\<close>

definition dhm_calc_secret_no_export :: "mem \<Rightarrow> dhm_context \<Rightarrow> (int \<times> dhm_context \<times> mem) option" where
  "dhm_calc_secret_no_export m ctx = do {
     (ret, (K, RP), m) \<leftarrow> mpi_exp_mod m (dh_K ctx) (dh_GY ctx) (dh_X ctx) (dh_P ctx) (Some (dh_RP ctx));
     let ctx = ctx\<lparr>dh_K := K, dh_RP := (case RP of Some R \<Rightarrow> R | None \<Rightarrow> dh_RP ctx)\<rparr>;
     if ret \<noteq> 0 then Some (POLARSSL_ERR_DHM_CALC_SECRET_FAILED + ret, ctx, m)
     else do {
       (ret, m) \<leftarrow> dhm_check_range m (dh_GY ctx) (dh_P ctx);
       Some (ret, ctx, m) } }"

text \<open>\<open>olen\<close> is the room in the output buffer.\<close>

definition dhm_calc_secret :: "mem \<Rightarrow> dhm_context \<Rightarrow> nat \<Rightarrow> (int \<times> dhm_context \<times> bytes option \<times> mem) option" where
  "dhm_calc_secret m ctx olen =
     (if olen < dh_len ctx then Some (POLARSSL_ERR_DHM_BAD_INPUT_DATA, ctx, None, m)
      else do {
        (ret, (K, RP), m) \<leftarrow> mpi_exp_mod m (dh_K ctx) (dh_GY ctx) (dh_X ctx) (dh_P ctx) (Some (dh_RP ctx));
        let ctx = ctx\<lparr>dh_K := K, dh_RP := (case RP of Some R \<Rightarrow> R | None \<Rightarrow> dh_RP ctx)\<rparr>;
        if ret \<noteq> 0 then Some (POLARSSL_ERR_DHM_CALC_SECRET_FAILED + ret, ctx, None, m)
        else do {
          (ret, m) \<leftarrow> dhm_check_range m (dh_GY ctx) (dh_P ctx);
          if ret \<noteq> 0 then Some (ret, ctx, None, m)
          else do {
            len \<leftarrow> mpi_size (dh_K ctx);
            (ret, bs) \<leftarrow> mpi_write_binary (dh_K ctx) len;
            if ret \<noteq> 0 then Some (POLARSSL_ERR_DHM_CALC_SECRET_FAILED + ret, ctx, bs, m)
            else Some (0, ctx, bs, m) } } })"

text \<open>Freeing erases the limbs first; the second result is the image of the freed block.\<close>

definition mpi_free :: "mpi \<Rightarrow> mpi \<times> u64 list option" where
  "mpi_free X = (mpi_init, if mp_p X \<noteq> [] then Some (replicate (mp_n X) 0) else None)"

definition dhm_free :: "dhm_context \<Rightarrow> dhm_context \<times> u64 list option list" where
  "dhm_free ctx =
     (let (RP, b1) = mpi_free (dh_RP ctx); (K, b2) = mpi_free (dh_K ctx); (GY, b3) = mpi_free (dh_GY ctx);
          (GX, b4) = mpi_free (dh_GX ctx); (X, b5) = mpi_free (dh_X ctx); (G, b6) = mpi_free (dh_G ctx);
          (P, b7) = mpi_free (dh_P ctx)
      in (ctx\<lparr>dh_P := P, dh_G := G, dh_X := X, dh_GX := GX, dh_GY := GY, dh_K := K, dh_RP := RP\<rparr>,
          [b1, b2, b3, b4, b5, b6, b7]))"

end
