(* ===== verification/Hash.thy ===== *)
theory Hash
  imports Prelude
begin

text \<open>
  The hash functions of the key derivation,
  \<open>host/linux-3.0/drivers/priv/polarssl/md5.c\<close> and \<open>sha1.c\<close>: the context with its running
  length, state and partly filled block, the compression functions on \<open>unsigned long\<close>
  (64 bits, of which the algorithms mean the low 32), buffering, padding and HMAC. A context
  that C leaves on the stack uninitialised is an argument \<open>junk\<close>.
\<close>

unbundle bit_operations_syntax

section \<open>Contexts\<close>

record hash_ctx =
  hc_total0 :: u64
  hc_total1 :: u64
  hc_state :: "u64 list"
  hc_buffer :: bytes
  hc_ipad :: bytes
  hc_opad :: bytes

type_synonym md5_context = hash_ctx
type_synonym sha1_context = hash_ctx

text \<open>The macro \<open>S\<close> of both files: a rotation of the low 32 bits that leaves garbage above them.\<close>

definition S_rot :: "u64 \<Rightarrow> nat \<Rightarrow> u64" where
  "S_rot x n = push_bit n x OR drop_bit (32 - n) (x AND 0xFFFFFFFF)"

section \<open>MD5\<close>

definition GET_ULONG_LE :: "bytes \<Rightarrow> nat \<Rightarrow> u64" where
  "GET_ULONG_LE b i = ucast (b ! i) OR push_bit 8 (ucast (b ! (i + 1)))
     OR push_bit 16 (ucast (b ! (i + 2))) OR push_bit 24 (ucast (b ! (i + 3)))"

definition PUT_ULONG_LE :: "u64 \<Rightarrow> bytes" where
  "PUT_ULONG_LE n = [ucast n, ucast (drop_bit 8 n), ucast (drop_bit 16 n), ucast (drop_bit 24 n)]"

definition md5_starts :: "md5_context \<Rightarrow> md5_context" where
  "md5_starts ctx = ctx\<lparr>hc_total0 := 0, hc_total1 := 0,
     hc_state := [0x67452301, 0xEFCDAB89, 0x98BADCFE, 0x10325476]\<rparr>"

definition md5_F1 :: "u64 \<Rightarrow> u64 \<Rightarrow> u64 \<Rightarrow> u64" where "md5_F1 x y z = z XOR (x AND (y XOR z))"
definition md5_F2 :: "u64 \<Rightarrow> u64 \<Rightarrow> u64 \<Rightarrow> u64" where "md5_F2 x y z = y XOR (z AND (x XOR y))"
definition md5_F3 :: "u64 \<Rightarrow> u64 \<Rightarrow> u64 \<Rightarrow> u64" where "md5_F3 x y z = x XOR y XOR z"
definition md5_F4 :: "u64 \<Rightarrow> u64 \<Rightarrow> u64 \<Rightarrow> u64" where "md5_F4 x y z = y XOR (x OR NOT z)"

text \<open>
  One use of the macro \<open>P\<close>. The result is in the order in which the next use takes its
  arguments: \<open>P( A, B, C, D, ... )\<close> is followed by \<open>P( D, A, B, C, ... )\<close>.
\<close>

definition md5_P :: "(u64 \<Rightarrow> u64 \<Rightarrow> u64 \<Rightarrow> u64) \<Rightarrow> u64 list \<Rightarrow> nat \<times> nat \<times> u64 \<Rightarrow> u64 \<times> u64 \<times> u64 \<times> u64 \<Rightarrow> u64 \<times> u64 \<times> u64 \<times> u64" where
  "md5_P F X = (\<lambda>(k, s, t) (a, b, c, d).
     let a = a + (F b c d + X ! k + t); a = S_rot a s + b in (d, a, b, c))"

text \<open>The arguments \<open>k\<close>, \<open>s\<close> and \<open>t\<close> of the sixteen uses in each of the four rounds.\<close>

definition md5_round1 :: "(nat \<times> nat \<times> u64) list" where
  "md5_round1 = [
    (0, 7, 0xD76AA478), (1, 12, 0xE8C7B756), (2, 17, 0x242070DB), (3, 22, 0xC1BDCEEE),
    (4, 7, 0xF57C0FAF), (5, 12, 0x4787C62A), (6, 17, 0xA8304613), (7, 22, 0xFD469501),
    (8, 7, 0x698098D8), (9, 12, 0x8B44F7AF), (10, 17, 0xFFFF5BB1), (11, 22, 0x895CD7BE),
    (12, 7, 0x6B901122), (13, 12, 0xFD987193), (14, 17, 0xA679438E), (15, 22, 0x49B40821)]"

definition md5_round2 :: "(nat \<times> nat \<times> u64) list" where
  "md5_round2 = [
    (1, 5, 0xF61E2562), (6, 9, 0xC040B340), (11, 14, 0x265E5A51), (0, 20, 0xE9B6C7AA),
    (5, 5, 0xD62F105D), (10, 9, 0x02441453), (15, 14, 0xD8A1E681), (4, 20, 0xE7D3FBC8),
    (9, 5, 0x21E1CDE6), (14, 9, 0xC33707D6), (3, 14, 0xF4D50D87), (8, 20, 0x455A14ED),
    (13, 5, 0xA9E3E905), (2, 9, 0xFCEFA3F8), (7, 14, 0x676F02D9), (12, 20, 0x8D2A4C8A)]"

definition md5_round3 :: "(nat \<times> nat \<times> u64) list" where
  "md5_round3 = [
    (5, 4, 0xFFFA3942), (8, 11, 0x8771F681), (11, 16, 0x6D9D6122), (14, 23, 0xFDE5380C),
    (1, 4, 0xA4BEEA44), (4, 11, 0x4BDECFA9), (7, 16, 0xF6BB4B60), (10, 23, 0xBEBFBC70),
    (13, 4, 0x289B7EC6), (0, 11, 0xEAA127FA), (3, 16, 0xD4EF3085), (6, 23, 0x04881D05),
    (9, 4, 0xD9D4D039), (12, 11, 0xE6DB99E5), (15, 16, 0x1FA27CF8), (2, 23, 0xC4AC5665)]"

definition md5_round4 :: "(nat \<times> nat \<times> u64) list" where
  "md5_round4 = [
    (0, 6, 0xF4292244), (7, 10, 0x432AFF97), (14, 15, 0xAB9423A7), (5, 21, 0xFC93A039),
    (12, 6, 0x655B59C3), (3, 10, 0x8F0CCC92), (10, 15, 0xFFEFF47D), (1, 21, 0x85845DD1),
    (8, 6, 0x6FA87E4F), (15, 10, 0xFE2CE6E0), (6, 15, 0xA3014314), (13, 21, 0x4E0811A1),
    (4, 6, 0xF7537E82), (11, 10, 0xBD3AF235), (2, 15, 0x2AD7D2BB), (9, 21, 0xEB86D391)]"

definition md5_process :: "u64 list \<Rightarrow> bytes \<Rightarrow> u64 list" where
  "md5_process st data =
     (let X = map (\<lambda>j. GET_ULONG_LE data (4 * j)) [0..<16];
          v = (st ! 0, st ! 1, st ! 2, st ! 3);
          v = foldl (\<lambda>v r. md5_P md5_F1 X r v) v md5_round1;
          v = foldl (\<lambda>v r. md5_P md5_F2 X r v) v md5_round2;
          v = foldl (\<lambda>v r. md5_P md5_F3 X r v) v md5_round3;
          (A, B, C, D) = foldl (\<lambda>v r. md5_P md5_F4 X r v) v md5_round4
      in [st ! 0 + A, st ! 1 + B, st ! 2 + C, st ! 3 + D])"

fun md5_blocks :: "u64 list \<Rightarrow> bytes \<Rightarrow> u64 list \<times> bytes" where
  "md5_blocks st input =
     (if 64 \<le> length input then md5_blocks (md5_process st (take 64 input)) (drop 64 input)
      else (st, input))"

declare md5_blocks.simps [simp del]

definition md5_update :: "md5_context \<Rightarrow> bytes \<Rightarrow> md5_context" where
  "md5_update ctx input =
     (if input = [] then ctx
      else
        let left = unat (hc_total0 ctx AND 0x3F);
            fill = 64 - left;
            ctx = ctx\<lparr>hc_total0 := (hc_total0 ctx + word_of_nat (length input)) AND 0xFFFFFFFF\<rparr>;
            ctx = (if hc_total0 ctx < word_of_nat (length input) then ctx\<lparr>hc_total1 := hc_total1 ctx + 1\<rparr> else ctx);
            (ctx, input, left) =
              (if left \<noteq> 0 \<and> fill \<le> length input then
                 let ctx = ctx\<lparr>hc_buffer := mem_write (hc_buffer ctx) left (take fill input)\<rparr>
                 in (ctx\<lparr>hc_state := md5_process (hc_state ctx) (hc_buffer ctx)\<rparr>, drop fill input, 0)
               else (ctx, input, left));
            (st, input) = md5_blocks (hc_state ctx) input;
            ctx = ctx\<lparr>hc_state := st\<rparr>
        in if input \<noteq> [] then ctx\<lparr>hc_buffer := mem_write (hc_buffer ctx) left input\<rparr> else ctx)"

definition md5_padding :: bytes where
  "md5_padding = 0x80 # replicate 63 0"

definition md5_finish :: "md5_context \<Rightarrow> md5_context \<times> bytes" where
  "md5_finish ctx =
     (let high = drop_bit 29 (hc_total0 ctx) OR push_bit 3 (hc_total1 ctx);
          low = push_bit 3 (hc_total0 ctx);
          msglen = PUT_ULONG_LE low @ PUT_ULONG_LE high;
          last = unat (hc_total0 ctx AND 0x3F);
          padn = (if last < 56 then 56 - last else 120 - last);
          ctx = md5_update ctx (take padn md5_padding);
          ctx = md5_update ctx msglen
      in (ctx, concat (map PUT_ULONG_LE (hc_state ctx))))"

definition md5 :: "md5_context \<Rightarrow> bytes \<Rightarrow> bytes" where
  "md5 junk input = snd (md5_finish (md5_update (md5_starts junk) input))"

text \<open>The context that \<open>md5\<close> uses for a long key is a second one on the stack, here \<open>junk\<close>.\<close>

definition md5_hmac_starts :: "md5_context \<Rightarrow> md5_context \<Rightarrow> bytes \<Rightarrow> md5_context" where
  "md5_hmac_starts junk ctx key =
     (let key = (if 64 < length key then md5 junk key else key);
          ipad = replicate 64 0x36;
          opad = replicate 64 0x5C;
          ipad = mem_write ipad 0 (xor_bytes (take (length key) ipad) key);
          opad = mem_write opad 0 (xor_bytes (take (length key) opad) key);
          ctx = md5_starts (ctx\<lparr>hc_ipad := ipad, hc_opad := opad\<rparr>)
      in md5_update ctx (hc_ipad ctx))"

definition md5_hmac_update :: "md5_context \<Rightarrow> bytes \<Rightarrow> md5_context" where
  "md5_hmac_update ctx input = md5_update ctx input"

definition md5_hmac_finish :: "md5_context \<Rightarrow> md5_context \<times> bytes" where
  "md5_hmac_finish ctx =
     (let (ctx, tmpbuf) = md5_finish ctx;
          ctx = md5_starts ctx;
          ctx = md5_update ctx (hc_opad ctx);
          ctx = md5_update ctx tmpbuf
      in md5_finish ctx)"

definition md5_hmac_reset :: "md5_context \<Rightarrow> md5_context" where
  "md5_hmac_reset ctx = md5_update (md5_starts ctx) (hc_ipad ctx)"

definition md5_hmac :: "md5_context \<Rightarrow> bytes \<Rightarrow> bytes \<Rightarrow> bytes" where
  "md5_hmac junk key input = snd (md5_hmac_finish (md5_hmac_update (md5_hmac_starts junk junk key) input))"

section \<open>SHA-1\<close>

definition GET_ULONG_BE :: "bytes \<Rightarrow> nat \<Rightarrow> u64" where
  "GET_ULONG_BE b i = push_bit 24 (ucast (b ! i)) OR push_bit 16 (ucast (b ! (i + 1)))
     OR push_bit 8 (ucast (b ! (i + 2))) OR ucast (b ! (i + 3))"

definition PUT_ULONG_BE :: "u64 \<Rightarrow> bytes" where
  "PUT_ULONG_BE n = [ucast (drop_bit 24 n), ucast (drop_bit 16 n), ucast (drop_bit 8 n), ucast n]"

definition sha1_starts :: "sha1_context \<Rightarrow> sha1_context" where
  "sha1_starts ctx = ctx\<lparr>hc_total0 := 0, hc_total1 := 0,
     hc_state := [0x67452301, 0xEFCDAB89, 0x98BADCFE, 0x10325476, 0xC3D2E1F0]\<rparr>"

definition sha1_F1 :: "u64 \<Rightarrow> u64 \<Rightarrow> u64 \<Rightarrow> u64" where "sha1_F1 x y z = z XOR (x AND (y XOR z))"
definition sha1_F2 :: "u64 \<Rightarrow> u64 \<Rightarrow> u64 \<Rightarrow> u64" where "sha1_F2 x y z = x XOR y XOR z"
definition sha1_F3 :: "u64 \<Rightarrow> u64 \<Rightarrow> u64 \<Rightarrow> u64" where "sha1_F3 x y z = (x AND y) OR (z AND (x OR y))"

text \<open>
  The macro \<open>P\<close>, whose result is again in the order of the next use, and the macro \<open>R\<close>, which
  extends the message schedule in place. Rounds below 16 use the words of the block.
\<close>

definition sha1_P :: "(u64 \<Rightarrow> u64 \<Rightarrow> u64 \<Rightarrow> u64) \<Rightarrow> u64 \<Rightarrow> u64 \<Rightarrow> u64 \<times> u64 \<times> u64 \<times> u64 \<times> u64 \<Rightarrow> u64 \<times> u64 \<times> u64 \<times> u64 \<times> u64" where
  "sha1_P F K x = (\<lambda>(a, b, c, d, e). (e + (S_rot a 5 + F b c d + K + x), a, S_rot b 30, c, d))"

definition sha1_R :: "u64 list \<Rightarrow> nat \<Rightarrow> u64 list" where
  "sha1_R W t =
     (let temp = W ! ((t - 3) mod 16) XOR W ! ((t - 8) mod 16) XOR W ! ((t - 14) mod 16) XOR W ! (t mod 16)
      in W[t mod 16 := S_rot temp 1])"

definition sha1_step :: "(u64 \<Rightarrow> u64 \<Rightarrow> u64 \<Rightarrow> u64) \<Rightarrow> u64 \<Rightarrow> u64 list \<times> (u64 \<times> u64 \<times> u64 \<times> u64 \<times> u64) \<Rightarrow> nat
    \<Rightarrow> u64 list \<times> (u64 \<times> u64 \<times> u64 \<times> u64 \<times> u64)" where
  "sha1_step F K = (\<lambda>(W, v) t.
     let W = (if t < 16 then W else sha1_R W t) in (W, sha1_P F K (W ! (t mod 16)) v))"

definition sha1_process :: "u64 list \<Rightarrow> bytes \<Rightarrow> u64 list" where
  "sha1_process st data =
     (let W = map (\<lambda>j. GET_ULONG_BE data (4 * j)) [0..<16];
          s = (W, st ! 0, st ! 1, st ! 2, st ! 3, st ! 4);
          s = foldl (sha1_step sha1_F1 0x5A827999) s [0..<20];
          s = foldl (sha1_step sha1_F2 0x6ED9EBA1) s [20..<40];
          s = foldl (sha1_step sha1_F3 0x8F1BBCDC) s [40..<60];
          (W, A, B, C, D, E) = foldl (sha1_step sha1_F2 0xCA62C1D6) s [60..<80]
      in [st ! 0 + A, st ! 1 + B, st ! 2 + C, st ! 3 + D, st ! 4 + E])"

fun sha1_blocks :: "u64 list \<Rightarrow> bytes \<Rightarrow> u64 list \<times> bytes" where
  "sha1_blocks st input =
     (if 64 \<le> length input then sha1_blocks (sha1_process st (take 64 input)) (drop 64 input)
      else (st, input))"

declare sha1_blocks.simps [simp del]

definition sha1_update :: "sha1_context \<Rightarrow> bytes \<Rightarrow> sha1_context" where
  "sha1_update ctx input =
     (if input = [] then ctx
      else
        let left = unat (hc_total0 ctx AND 0x3F);
            fill = 64 - left;
            ctx = ctx\<lparr>hc_total0 := (hc_total0 ctx + word_of_nat (length input)) AND 0xFFFFFFFF\<rparr>;
            ctx = (if hc_total0 ctx < word_of_nat (length input) then ctx\<lparr>hc_total1 := hc_total1 ctx + 1\<rparr> else ctx);
            (ctx, input, left) =
              (if left \<noteq> 0 \<and> fill \<le> length input then
                 let ctx = ctx\<lparr>hc_buffer := mem_write (hc_buffer ctx) left (take fill input)\<rparr>
                 in (ctx\<lparr>hc_state := sha1_process (hc_state ctx) (hc_buffer ctx)\<rparr>, drop fill input, 0)
               else (ctx, input, left));
            (st, input) = sha1_blocks (hc_state ctx) input;
            ctx = ctx\<lparr>hc_state := st\<rparr>
        in if input \<noteq> [] then ctx\<lparr>hc_buffer := mem_write (hc_buffer ctx) left input\<rparr> else ctx)"

definition sha1_padding :: bytes where
  "sha1_padding = 0x80 # replicate 63 0"

definition sha1_finish :: "sha1_context \<Rightarrow> sha1_context \<times> bytes" where
  "sha1_finish ctx =
     (let high = drop_bit 29 (hc_total0 ctx) OR push_bit 3 (hc_total1 ctx);
          low = push_bit 3 (hc_total0 ctx);
          msglen = PUT_ULONG_BE high @ PUT_ULONG_BE low;
          last = unat (hc_total0 ctx AND 0x3F);
          padn = (if last < 56 then 56 - last else 120 - last);
          ctx = sha1_update ctx (take padn sha1_padding);
          ctx = sha1_update ctx msglen
      in (ctx, concat (map PUT_ULONG_BE (hc_state ctx))))"

definition sha1 :: "sha1_context \<Rightarrow> bytes \<Rightarrow> bytes" where
  "sha1 junk input = snd (sha1_finish (sha1_update (sha1_starts junk) input))"

text \<open>The context that \<open>sha1\<close> uses for a long key is a second one on the stack, here \<open>junk\<close>.\<close>

definition sha1_hmac_starts :: "sha1_context \<Rightarrow> sha1_context \<Rightarrow> bytes \<Rightarrow> sha1_context" where
  "sha1_hmac_starts junk ctx key =
     (let key = (if 64 < length key then sha1 junk key else key);
          ipad = replicate 64 0x36;
          opad = replicate 64 0x5C;
          ipad = mem_write ipad 0 (xor_bytes (take (length key) ipad) key);
          opad = mem_write opad 0 (xor_bytes (take (length key) opad) key);
          ctx = sha1_starts (ctx\<lparr>hc_ipad := ipad, hc_opad := opad\<rparr>)
      in sha1_update ctx (hc_ipad ctx))"

definition sha1_hmac_update :: "sha1_context \<Rightarrow> bytes \<Rightarrow> sha1_context" where
  "sha1_hmac_update ctx input = sha1_update ctx input"

definition sha1_hmac_finish :: "sha1_context \<Rightarrow> sha1_context \<times> bytes" where
  "sha1_hmac_finish ctx =
     (let (ctx, tmpbuf) = sha1_finish ctx;
          ctx = sha1_starts ctx;
          ctx = sha1_update ctx (hc_opad ctx);
          ctx = sha1_update ctx tmpbuf
      in sha1_finish ctx)"

definition sha1_hmac_reset :: "sha1_context \<Rightarrow> sha1_context" where
  "sha1_hmac_reset ctx = sha1_update (sha1_starts ctx) (hc_ipad ctx)"

definition sha1_hmac :: "sha1_context \<Rightarrow> bytes \<Rightarrow> bytes \<Rightarrow> bytes" where
  "sha1_hmac junk key input = snd (sha1_hmac_finish (sha1_hmac_update (sha1_hmac_starts junk junk key) input))"

end
