(* ===== verification/Hash_Spec.thy ===== *)
theory Hash_Spec
  imports Hash
begin

text \<open>
  What the hash functions of \<open>Hash\<close> compute. Both have the same buffering, padding and HMAC
  code around their compression function; the locale \<open>md_hash\<close> states that code once, over the
  compression function, and proves that the digest is the iterated compression of the padded
  message however the message is cut into updates, and that HMAC is the nested hash of its
  definition. Both files are interpretations. The compression functions, written on 64-bit
  words, agree on the low 32 bits with the functions of the standards on 32-bit words.
\<close>

section \<open>Blocks of 64 bytes\<close>

fun chunks64 :: "bytes \<Rightarrow> bytes list" where
  "chunks64 bs = (if 64 \<le> length bs then take 64 bs # chunks64 (drop 64 bs) else [])"

declare chunks64.simps [simp del]

definition resid :: "bytes \<Rightarrow> bytes" where
  "resid bs = drop (64 * (length bs div 64)) bs"

lemma length_resid: "length (resid bs) = length bs mod 64"
  by (simp add: resid_def minus_mult_div_eq_mod)

lemma chunks64_short: "length bs < 64 \<Longrightarrow> chunks64 bs = [] \<and> resid bs = bs"
  by (simp add: chunks64.simps [of bs] resid_def)

lemma chunks64_step:
  assumes "length b = 64"
  shows "chunks64 (b @ bs) = b # chunks64 bs" "resid (b @ bs) = resid bs"
  using assms by (simp_all add: chunks64.simps [of "b @ bs"] resid_def div_add_self1)

lemma chunks64_append:
  "length a = 64 * n \<Longrightarrow> chunks64 (a @ b) = chunks64 a @ chunks64 b \<and> resid (a @ b) = resid b"
proof (induction n arbitrary: a)
  case 0 then show ?case by (simp add: chunks64.simps [of "[]"])
next
  case (Suc n)
  define x where "x = take 64 a"
  define y where "y = drop 64 a"
  have a: "a = x @ y" "length x = 64" "length y = 64 * n" using Suc.prems by (simp_all add: x_def y_def)
  show ?case using Suc.IH [OF a(3)] by (simp add: a(1) chunks64_step [OF a(2)])
qed

lemma chunks64_resid: "chunks64 (m @ x) = chunks64 m @ chunks64 (resid m @ x)" "resid (m @ x) = resid (resid m @ x)"
proof -
  define f where "f = take (64 * (length m div 64)) m"
  have m: "m = f @ resid m" by (simp add: f_def resid_def)
  have f: "length f = 64 * (length m div 64)" by (simp add: f_def)
  have "length (resid m) < 64" by (simp add: length_resid)
  then have "chunks64 (resid m) = []" by (simp add: chunks64_short)
  then have "chunks64 m = chunks64 f" using chunks64_append [OF f, of "resid m"] m by simp
  then show "chunks64 (m @ x) = chunks64 m @ chunks64 (resid m @ x)" "resid (m @ x) = resid (resid m @ x)"
    using chunks64_append [OF f, of "resid m @ x"] m by (metis append.assoc)+
qed

text \<open>
  The padded message of both standards: a one bit, zeros up to eight bytes before a block
  boundary, and the length in bits modulo \<open>2 ^ 64\<close>, in the byte order of the standard.
\<close>

definition md_pad :: "(nat \<Rightarrow> bytes) \<Rightarrow> bytes \<Rightarrow> bytes" where
  "md_pad lenc m = m @ 0x80 # replicate ((119 - length m mod 64) mod 64) 0 @ lenc (8 * length m mod 2 ^ 64)"

text \<open>HMAC of RFC 2104: the key is hashed when it is longer than a block, and padded with zeros.\<close>

definition hmac_key :: "(bytes \<Rightarrow> bytes) \<Rightarrow> bytes \<Rightarrow> bytes" where
  "hmac_key H key = (let k = if 64 < length key then H key else key in k @ replicate (64 - length k) 0)"

definition hmac_ref :: "(bytes \<Rightarrow> bytes) \<Rightarrow> bytes \<Rightarrow> bytes \<Rightarrow> bytes" where
  "hmac_ref H key m = H (xor_bytes (hmac_key H key) (replicate 64 0x5C)
     @ H (xor_bytes (hmac_key H key) (replicate 64 0x36) @ m))"

lemma hmac_pad:
  assumes "length k \<le> 64"
  shows "mem_write (replicate 64 v) 0 (xor_bytes (take (length k) (replicate 64 v)) k) =
    xor_bytes (k @ replicate (64 - length k) 0) (replicate 64 v)"
proof (rule nth_equalityI)
  show "length (mem_write (replicate 64 v) 0 (xor_bytes (take (length k) (replicate 64 v)) k)) =
      length (xor_bytes (k @ replicate (64 - length k) 0) (replicate 64 v))"
    using assms by simp
  fix i
  assume "i < length (mem_write (replicate 64 v) 0 (xor_bytes (take (length k) (replicate 64 v)) k))"
  then show "mem_write (replicate 64 v) 0 (xor_bytes (take (length k) (replicate 64 v)) k) ! i =
      xor_bytes (k @ replicate (64 - length k) 0) (replicate 64 v) ! i"
    using assms by (simp add: nth_mem_write nth_xor_bytes nth_append xor.commute)
qed

section \<open>The contract of the two implementations\<close>

definition running_total :: "hash_ctx \<Rightarrow> nat \<Rightarrow> bool" where
  "running_total ctx n \<longleftrightarrow> hc_total0 ctx = word_of_nat (n mod 2 ^ 32) \<and> hc_total1 ctx = word_of_nat (n div 2 ^ 32)"

lemma total_left: "running_total ctx n \<Longrightarrow> unat (hc_total0 ctx AND 0x3F) = n mod 64"
proof -
  assume "running_total ctx n"
  then have "hc_total0 ctx AND 0x3F = take_bit 6 (word_of_nat (n mod 2 ^ 32))"
    by (simp add: running_total_def take_bit_eq_mask mask_eq_exp_minus_1)
  also have "unat \<dots> = n mod 2 ^ 32 mod 2 ^ 6"
    unfolding unsigned_take_bit_eq unfolding unat_of_nat take_bit_eq_mod by (simp add: mod_mod_cancel)
  finally show ?thesis by (simp add: mod_mod_cancel)
qed

lemma total_add:
  assumes "running_total ctx n" "k < 2 ^ 32"
  defines "t \<equiv> (hc_total0 ctx + word_of_nat k) AND 0xFFFFFFFF"
  shows "t = word_of_nat ((n + k) mod 2 ^ 32)"
    and "(if t < word_of_nat k then hc_total1 ctx + 1 else hc_total1 ctx) = word_of_nat ((n + k) div 2 ^ 32)"
proof -
  have "hc_total0 ctx + word_of_nat k = (word_of_nat (n mod 2 ^ 32 + k) :: u64)"
    using assms(1) by (simp add: running_total_def)
  then have t: "t = take_bit 32 (word_of_nat (n mod 2 ^ 32 + k))"
    by (simp add: t_def take_bit_eq_mask mask_eq_exp_minus_1)
  have "unat t = (n mod 2 ^ 32 + k) mod 2 ^ 32"
    unfolding t unsigned_take_bit_eq unfolding unat_of_nat take_bit_eq_mod by (simp add: mod_mod_cancel)
  then have u: "unat t = (n + k) mod 2 ^ 32" by (simp add: mod_add_left_eq)
  moreover have "(n + k) mod 2 ^ 32 < 2 ^ 64" by (rule less_trans [of _ "2 ^ 32"]) simp_all
  ultimately show "t = word_of_nat ((n + k) mod 2 ^ 32)" unfolding word_unat_eq_iff unat_of_nat by simp
  have "t < word_of_nat k \<longleftrightarrow> (n + k) mod 2 ^ 32 < k"
    using assms(2) by (simp add: word_less_nat_alt u unat_of_nat)
  moreover have "(n + k) div 2 ^ 32 = n div 2 ^ 32 + (if (n + k) mod 2 ^ 32 < k then 1 else 0)"
  proof -
    define q r where "q = n div 2 ^ 32" and "r = n mod 2 ^ 32"
    have n: "n = q * 2 ^ 32 + r" "r < 2 ^ 32" by (simp_all add: q_def r_def)
    have "(n + k) div 2 ^ 32 = q + (r + k) div 2 ^ 32" "(n + k) mod 2 ^ 32 = (r + k) mod 2 ^ 32" by (simp_all add: n(1) add.assoc)
    moreover have "(r + k) div 2 ^ 32 = (if r + k < 2 ^ 32 then 0 else 1)"
        "(r + k) mod 2 ^ 32 = (if r + k < 2 ^ 32 then r + k else r + k - 2 ^ 32)"
      using n(2) assms(2) by (auto simp: div_if mod_if)
    ultimately show ?thesis unfolding q_def [symmetric] using n(2) assms(2) by (auto split: if_splits)
  qed
  ultimately show "(if t < word_of_nat k then hc_total1 ctx + 1 else hc_total1 ctx) = word_of_nat ((n + k) div 2 ^ 32)"
    using assms(1) by (simp add: running_total_def)
qed

text \<open>The message length in bits, as the two words that \<open>finish\<close> writes.\<close>

lemma total_bits:
  assumes "running_total ctx n"
  shows "unat (push_bit 3 (hc_total0 ctx)) mod 2 ^ 32 = 8 * n mod 2 ^ 32"
    and "unat (drop_bit 29 (hc_total0 ctx) OR push_bit 3 (hc_total1 ctx)) mod 2 ^ 32 = 8 * n div 2 ^ 32 mod 2 ^ 32"
proof -
  define q r where "q = n div 2 ^ 32" and "r = n mod 2 ^ 32"
  have n: "n = q * 2 ^ 32 + r" "r < 2 ^ 32" by (simp_all add: q_def r_def)
  have t: "hc_total0 ctx = word_of_nat r" "hc_total1 ctx = word_of_nat q" using assms by (simp_all add: running_total_def q_def r_def)
  have "unat (push_bit 3 (hc_total0 ctx)) = 8 * r"
    using n(2) by (simp add: t push_bit_eq_mult unat_word_ariths unat_of_nat)
  then show "unat (push_bit 3 (hc_total0 ctx)) mod 2 ^ 32 = 8 * n mod 2 ^ 32" by (simp add: r_def mod_mult_right_eq)
  define x where "x = r div 2 ^ 29"
  have x: "x < 8" "8 * n div 2 ^ 32 = q * 8 + x" using n(2) by (simp_all add: x_def n(1)) 
  define a where "a = drop_bit 29 (hc_total0 ctx)"
  have a: "unat a = x"
    unfolding a_def unat_drop_bit_eq unfolding t unat_of_nat drop_bit_eq_div using n(2) by (simp add: x_def)
  then have "take_bit 3 a = a"
    unfolding word_unat_eq_iff unsigned_take_bit_eq unfolding take_bit_eq_mod using x(1) by simp
  then have m: "a AND mask 3 = a" by (simp add: take_bit_eq_mask)
  have "push_bit 3 (hc_total1 ctx) AND mask 3 = take_bit 3 (push_bit 3 (hc_total1 ctx))" by (simp only: take_bit_eq_mask)
  also have "\<dots> = 0" by (simp only: take_bit_push_bit) simp
  finally have "push_bit 3 (hc_total1 ctx) AND mask 3 = 0" .
  moreover have "a AND push_bit 3 (hc_total1 ctx) = a AND (push_bit 3 (hc_total1 ctx) AND mask 3)"
    by (subst m [symmetric]) (simp only: and.assoc and.commute [of "mask 3"])
  ultimately have "a AND push_bit 3 (hc_total1 ctx) = 0" by simp
  then have "a OR push_bit 3 (hc_total1 ctx) = a + push_bit 3 (hc_total1 ctx)" by (rule disjunctive_add_eq_or [symmetric])
  also have "\<dots> = a + word_of_nat (q * 8)" by (simp add: t push_bit_eq_mult)
  finally have "unat (a OR push_bit 3 (hc_total1 ctx)) = (x + q * 8 mod 2 ^ 64) mod 2 ^ 64"
    by (simp add: unat_word_ariths(1) a unat_of_nat del: of_nat_mult)
  also have "\<dots> mod 2 ^ 32 = (x + q * 8) mod 2 ^ 32" by (simp add: mod_mod_cancel mod_add_right_eq)
  finally show "unat (drop_bit 29 (hc_total0 ctx) OR push_bit 3 (hc_total1 ctx)) mod 2 ^ 32 = 8 * n div 2 ^ 32 mod 2 ^ 32"
    unfolding x(2) a_def by (simp only: add.commute)
qed

locale md_hash =
  fixes process :: "u64 list \<Rightarrow> bytes \<Rightarrow> u64 list"
    and iv :: "u64 list"
    and put :: "u64 \<Rightarrow> bytes"
    and msglen :: "u64 \<Rightarrow> u64 \<Rightarrow> bytes"
    and padding :: bytes
    and blocks :: "u64 list \<Rightarrow> bytes \<Rightarrow> u64 list \<times> bytes"
    and starts :: "hash_ctx \<Rightarrow> hash_ctx"
    and update :: "hash_ctx \<Rightarrow> bytes \<Rightarrow> hash_ctx"
    and finish :: "hash_ctx \<Rightarrow> hash_ctx \<times> bytes"
    and digest :: "hash_ctx \<Rightarrow> bytes \<Rightarrow> bytes"
    and hmac_starts :: "hash_ctx \<Rightarrow> hash_ctx \<Rightarrow> bytes \<Rightarrow> hash_ctx"
    and hmac_finish :: "hash_ctx \<Rightarrow> hash_ctx \<times> bytes"
    and hmac :: "hash_ctx \<Rightarrow> bytes \<Rightarrow> bytes \<Rightarrow> bytes"
    and lenc :: "nat \<Rightarrow> bytes"
    and hlen :: nat
  assumes blocks_eq: "blocks st input =
      (if 64 \<le> length input then blocks (process st (take 64 input)) (drop 64 input) else (st, input))"
    and starts_eq: "starts ctx = ctx\<lparr>hc_total0 := 0, hc_total1 := 0, hc_state := iv\<rparr>"
    and update_eq: "update ctx input =
      (if input = [] then ctx
       else
        let left = unat (hc_total0 ctx AND 0x3F);
            fill = 64 - left;
            ctx = ctx\<lparr>hc_total0 := (hc_total0 ctx + word_of_nat (length input)) AND 0xFFFFFFFF\<rparr>;
            ctx = (if hc_total0 ctx < word_of_nat (length input) then ctx\<lparr>hc_total1 := hc_total1 ctx + 1\<rparr> else ctx);
            (ctx, input, left) =
              (if left \<noteq> 0 \<and> fill \<le> length input then
                 let ctx = ctx\<lparr>hc_buffer := mem_write (hc_buffer ctx) left (take fill input)\<rparr>
                 in (ctx\<lparr>hc_state := process (hc_state ctx) (hc_buffer ctx)\<rparr>, drop fill input, 0)
               else (ctx, input, left));
            (st, input) = blocks (hc_state ctx) input;
            ctx = ctx\<lparr>hc_state := st\<rparr>
        in if input \<noteq> [] then ctx\<lparr>hc_buffer := mem_write (hc_buffer ctx) left input\<rparr> else ctx)"
    and padding_eq: "padding = 0x80 # replicate 63 0"
    and finish_eq: "finish ctx =
      (let high = drop_bit 29 (hc_total0 ctx) OR push_bit 3 (hc_total1 ctx);
          low = push_bit 3 (hc_total0 ctx);
          last = unat (hc_total0 ctx AND 0x3F);
          padn = (if last < 56 then 56 - last else 120 - last);
          ctx = update ctx (take padn padding);
          ctx = update ctx (msglen high low)
       in (ctx, concat (map put (hc_state ctx))))"
    and digest_eq: "digest junk m = snd (finish (update (starts junk) m))"
    and hmac_starts_eq: "hmac_starts junk ctx key =
      (let key = (if 64 < length key then digest junk key else key);
          ipad = mem_write (replicate 64 0x36) 0 (xor_bytes (take (length key) (replicate 64 0x36)) key);
          opad = mem_write (replicate 64 0x5C) 0 (xor_bytes (take (length key) (replicate 64 0x5C)) key);
          ctx = starts (ctx\<lparr>hc_ipad := ipad, hc_opad := opad\<rparr>)
       in update ctx (hc_ipad ctx))"
    and hmac_finish_eq: "hmac_finish ctx =
      (let (ctx, tmpbuf) = finish ctx;
          ctx = starts ctx;
          ctx = update ctx (hc_opad ctx);
          ctx = update ctx tmpbuf
       in finish ctx)"
    and hmac_eq: "hmac junk key m = snd (hmac_finish (update (hmac_starts junk junk key) m))"
    and msglen_eq: "msglen high low = lenc (unat high mod 2 ^ 32 * 2 ^ 32 + unat low mod 2 ^ 32)"
    and length_lenc: "length (lenc v) = 8"
    and length_out: "length (concat (map put (foldl process iv bs))) = hlen"
    and hlen: "0 < hlen" "hlen \<le> 64"
begin

definition absorbed :: "hash_ctx \<Rightarrow> bytes \<Rightarrow> bool" where
  "absorbed ctx m \<longleftrightarrow> running_total ctx (length m) \<and> hc_state ctx = foldl process iv (chunks64 m)
     \<and> length (hc_buffer ctx) = 64 \<and> take (length m mod 64) (hc_buffer ctx) = resid m"

lemma blocks_chunks: "blocks st bs = (foldl process st (chunks64 bs), resid bs)"
proof (induction bs arbitrary: st rule: chunks64.induct)
  case (1 bs)
  show ?case
  proof (cases "64 \<le> length bs")
    case True
    then have "resid (drop 64 bs) = resid bs" using chunks64_step(2) [of "take 64 bs" "drop 64 bs"] by simp
    then show ?thesis using 1 [OF True] True by (simp add: blocks_eq [of st bs] chunks64.simps [of bs])
  next
    case False
    then show ?thesis by (simp add: blocks_eq [of st bs] chunks64_short not_le)
  qed
qed

lemma absorbed_starts: "length (hc_buffer ctx) = 64 \<Longrightarrow> absorbed (starts ctx) []"
  by (simp add: absorbed_def starts_eq running_total_def chunks64.simps [of "[]"] resid_def)

lemma update_fields:
  assumes "running_total ctx n" "length input < 2 ^ 32"
  defines "l \<equiv> n mod 64"
  defines "b \<equiv> mem_write (hc_buffer ctx) l (take (64 - l) input)"
  shows "update ctx input = ctx\<lparr>
      hc_total0 := word_of_nat ((n + length input) mod 2 ^ 32), hc_total1 := word_of_nat ((n + length input) div 2 ^ 32),
      hc_state := (if l \<noteq> 0 \<and> 64 - l \<le> length input
        then foldl process (process (hc_state ctx) b) (chunks64 (drop (64 - l) input))
        else foldl process (hc_state ctx) (chunks64 input)),
      hc_buffer := (if l \<noteq> 0 \<and> 64 - l \<le> length input then mem_write b 0 (resid (drop (64 - l) input))
        else mem_write (hc_buffer ctx) l (resid input))\<rparr>"
proof (cases "input = []")
  case True
  then have "\<not> 64 - l \<le> length input" by (simp add: l_def)
  then show ?thesis
    using True assms(1) by (simp add: update_eq running_total_def chunks64.simps [of "[]"] resid_def)
next
  case False
  define k :: u64 where "k = word_of_nat (length input)"
  define T0 :: u64 where "T0 = word_of_nat ((n + length input) mod 2 ^ 32)"
  define T1 :: u64 where "T1 = word_of_nat ((n + length input) div 2 ^ 32)"
  have l: "unat (hc_total0 ctx AND 0x3F) = l" using total_left [OF assms(1)] by (simp add: l_def)
  have T0: "(hc_total0 ctx + k) AND 0xFFFFFFFF = T0" unfolding k_def T0_def by (rule total_add(1) [OF assms(1,2)])
  have T1: "T1 = (if T0 < k then hc_total1 ctx + 1 else hc_total1 ctx)"
    unfolding T0 [symmetric] unfolding T1_def k_def by (rule total_add(2) [OF assms(1,2), symmetric])
  define C where "C \<longleftrightarrow> l \<noteq> 0 \<and> 64 - l \<le> length input"
  show ?thesis
    unfolding T0_def [symmetric] T1_def [symmetric] T1 update_eq Let_def k_def [symmetric] l T0 C_def [symmetric]
    using False by (cases ctx; cases "T0 < k"; cases C) (simp_all add: blocks_chunks b_def)
qed

lemma update_pads: "hc_ipad (update ctx input) = hc_ipad ctx" "hc_opad (update ctx input) = hc_opad ctx"
  unfolding update_eq Let_def by (auto split: prod.splits)

lemma update_absorbs:
  assumes "absorbed ctx m" "length input < 2 ^ 32"
  shows "absorbed (update ctx input) (m @ input)"
proof -
  have t: "running_total ctx (length m)" and st: "hc_state ctx = foldl process iv (chunks64 m)"
    and b: "length (hc_buffer ctx) = 64" "take (length m mod 64) (hc_buffer ctx) = resid m"
    using assms(1) by (simp_all add: absorbed_def)
  note upd = update_fields [OF t assms(2)]
  define l where "l = length m mod 64"
  note upd = upd [folded l_def]
  have lr: "length (resid m) = l" "l < 64" by (simp_all add: length_resid l_def)
  have mod: "(length m + length input) mod 64 = length (resid (m @ input))" by (simp add: length_resid)
  show "absorbed (update ctx input) (m @ input)"
  proof (cases "l \<noteq> 0 \<and> 64 - l \<le> length input")
    case True
    define x where "x = take (64 - l) input"
    define y where "y = drop (64 - l) input"
    have xy: "input = x @ y" "length x = 64 - l" using True by (simp_all add: x_def y_def)
    have blk: "mem_write (hc_buffer ctx) l x = resid m @ x" "length (resid m @ x) = 64"
      using b lr xy(2) by (simp_all add: mem_write_def l_def)
    have c: "chunks64 (m @ input) = chunks64 m @ (resid m @ x) # chunks64 y" "resid (m @ input) = resid y"
      using chunks64_resid [of m input] chunks64_step [OF blk(2), of y] xy(1) by simp_all
    have "length (resid y) < 64" by (simp add: length_resid)
    then have "length (mem_write (resid m @ x) 0 (resid y)) = 64" "take (length (resid y)) (mem_write (resid m @ x) 0 (resid y)) = resid y"
      using blk(2) by (simp_all add: mem_write_def)
    then show ?thesis
      using True st by (simp add: upd [folded x_def y_def] absorbed_def running_total_def mod c blk(1))
  next
    case False
    have "chunks64 (m @ input) = chunks64 m @ chunks64 input \<and> resid (m @ input) = resid m @ resid input"
    proof (cases "l = 0")
      case True
      then show ?thesis using lr by (simp add: chunks64_resid [of m input])
    next
      case nz: False
      then have "length (resid m @ input) < 64" "length input < 64" using False lr by auto
      then show ?thesis by (simp add: chunks64_resid [of m input] chunks64_short)
    qed
    then have c: "chunks64 (m @ input) = chunks64 m @ chunks64 input" "resid (m @ input) = resid m @ resid input" by simp_all
    have "length (resid (m @ input)) < 64" by (simp add: length_resid)
    then have "l + length (resid input) < 64" using c(2) lr(1) by simp
    then have "length (mem_write (hc_buffer ctx) l (resid input)) = 64"
        "take (l + length (resid input)) (mem_write (hc_buffer ctx) l (resid input)) = resid m @ resid input"
      using b lr by (simp_all add: mem_write_def l_def)
    then show ?thesis
      using st mod c lr(1) unfolding upd if_not_P [OF False] by (simp add: absorbed_def running_total_def)
  qed
qed

definition hashed :: "bytes \<Rightarrow> bytes" where
  "hashed m = concat (map put (foldl process iv (chunks64 (md_pad lenc m))))"

lemma length_hashed: "length (hashed m) = hlen"
  by (simp add: hashed_def length_out)

lemma length_padded: "64 dvd length (md_pad lenc m)"
proof -
  define l where "l = length m mod 64"
  have "length (md_pad lenc m) = 64 * (length m div 64) + (l + 9 + (119 - l) mod 64)"
    by (simp add: md_pad_def length_lenc l_def)
  moreover have "l < 64" by (simp add: l_def)
  then have "64 dvd l + 9 + (119 - l) mod 64" by (cases "l < 56") (simp_all add: mod_if)
  ultimately show ?thesis by simp
qed

lemma finish_hashed:
  assumes "absorbed ctx m"
  shows "snd (finish ctx) = hashed m" "length (hc_buffer (fst (finish ctx))) = 64"
    and "hc_ipad (fst (finish ctx)) = hc_ipad ctx" "hc_opad (fst (finish ctx)) = hc_opad ctx"
proof -
  define l where "l = length m mod 64"
  define padn where "padn = (if l < 56 then 56 - l else 120 - l)"
  define len where "len = msglen (drop_bit 29 (hc_total0 ctx) OR push_bit 3 (hc_total1 ctx)) (push_bit 3 (hc_total0 ctx))"
  have t: "running_total ctx (length m)" using assms by (simp add: absorbed_def)
  have "8 * length m mod 2 ^ 64 = 8 * length m div 2 ^ 32 mod 2 ^ 32 * 2 ^ 32 + 8 * length m mod 2 ^ 32"
    using mod_mult2_eq [of "8 * length m" "2 ^ 32" "2 ^ 32"] by simp
  then have len: "len = lenc (8 * length m mod 2 ^ 64)"
    unfolding len_def msglen_eq total_bits [OF t] by simp
  have l: "l < 64" "unat (hc_total0 ctx AND 0x3F) = l" using total_left [OF t] by (simp_all add: l_def)
  have "take padn padding = 0x80 # replicate (padn - 1) 0" using l(1) by (auto simp: padding_eq padn_def take_Cons')
  moreover have "padn - 1 = (119 - l) mod 64" using l(1) by (simp add: padn_def mod_if)
  ultimately have pad: "m @ take padn padding @ len = md_pad lenc m" by (simp add: md_pad_def len l_def)
  define c1 where "c1 = update ctx (take padn padding)"
  define c2 where "c2 = update c1 len"
  have "absorbed c1 (m @ take padn padding)"
    unfolding c1_def by (rule update_absorbs [OF assms]) (simp add: padding_eq)
  then have c2: "absorbed c2 (md_pad lenc m)"
    unfolding c2_def pad [symmetric] append.assoc [symmetric] by (rule update_absorbs) (simp add: len length_lenc)
  have fin: "finish ctx = (c2, concat (map put (hc_state c2)))"
    unfolding finish_eq Let_def l(2) padn_def [symmetric] len_def [symmetric] c1_def [symmetric] c2_def [symmetric] ..
  show "snd (finish ctx) = hashed m" "length (hc_buffer (fst (finish ctx))) = 64"
    using c2 by (simp_all add: fin hashed_def absorbed_def)
  show "hc_ipad (fst (finish ctx)) = hc_ipad ctx" "hc_opad (fst (finish ctx)) = hc_opad ctx"
    by (simp_all add: fin c2_def c1_def update_pads)
qed

lemma digest_hashed:
  assumes "length (hc_buffer junk) = 64" "length m < 2 ^ 32"
  shows "digest junk m = hashed m"
  using finish_hashed(1) [OF update_absorbs [OF absorbed_starts [OF assms(1)] assms(2)]] by (simp add: digest_eq)

lemma updates_hashed:
  assumes "absorbed ctx m" "list_all (\<lambda>u. length u < 2 ^ 32) us"
  shows "absorbed (foldl update ctx us) (m @ concat us)"
  using assms
proof (induction us arbitrary: ctx m)
  case (Cons u us)
  then have "absorbed (update ctx u) (m @ u)" by (simp add: update_absorbs)
  then show ?case using Cons.IH [of "update ctx u" "m @ u"] Cons.prems(2) by simp
qed simp

lemma length_hmac_key: "length (hmac_key hashed key) = 64"
  using hlen by (simp add: hmac_key_def Let_def length_hashed)

lemma hmac_starts_absorbed:
  assumes "length (hc_buffer junk) = 64" "length (hc_buffer ctx) = 64" "length key < 2 ^ 32"
  shows "absorbed (hmac_starts junk ctx key) (xor_bytes (hmac_key hashed key) (replicate 64 0x36))"
    "hc_opad (hmac_starts junk ctx key) = xor_bytes (hmac_key hashed key) (replicate 64 0x5C)"
    "hc_ipad (hmac_starts junk ctx key) = xor_bytes (hmac_key hashed key) (replicate 64 0x36)"
proof -
  define k where "k = (if 64 < length key then digest junk key else key)"
  have k: "hmac_key hashed key = k @ replicate (64 - length k) 0" "length k \<le> 64"
    using digest_hashed [OF assms(1,3)] hlen(2) by (simp_all add: hmac_key_def k_def length_hashed)
  define c where "c = starts (ctx\<lparr>hc_ipad := xor_bytes (hmac_key hashed key) (replicate 64 0x36), hc_opad := xor_bytes (hmac_key hashed key) (replicate 64 0x5C)\<rparr>)"
  have c: "absorbed c []" unfolding c_def by (rule absorbed_starts) (simp add: assms(2))
  have f: "hc_ipad c = xor_bytes (hmac_key hashed key) (replicate 64 0x36)" "hc_opad c = xor_bytes (hmac_key hashed key) (replicate 64 0x5C)"
    by (simp_all add: c_def starts_eq)
  have eq: "hmac_starts junk ctx key = update c (xor_bytes (hmac_key hashed key) (replicate 64 0x36))"
    unfolding hmac_starts_eq Let_def k_def [symmetric] hmac_pad [OF k(2)] k(1) [symmetric] c_def [symmetric] f(1) ..
  have "length (xor_bytes (hmac_key hashed key) (replicate 64 0x36)) < 2 ^ 32" by (simp add: length_hmac_key)
  from update_absorbs [OF c this] show "absorbed (hmac_starts junk ctx key) (xor_bytes (hmac_key hashed key) (replicate 64 0x36))"
    by (simp add: eq)
  show "hc_opad (hmac_starts junk ctx key) = xor_bytes (hmac_key hashed key) (replicate 64 0x5C)"
    "hc_ipad (hmac_starts junk ctx key) = xor_bytes (hmac_key hashed key) (replicate 64 0x36)"
    by (simp_all add: eq update_pads f)
qed

lemma hmac_finish_hashed:
  assumes "absorbed ctx (i @ m)" "length (hc_opad ctx) = 64"
  shows "snd (hmac_finish ctx) = hashed (hc_opad ctx @ hashed (i @ m))"
proof -
  define c where "c = fst (finish ctx)"
  have f: "finish ctx = (c, hashed (i @ m))" "length (hc_buffer c) = 64" "hc_opad c = hc_opad ctx"
    using finish_hashed [OF assms(1)] by (simp_all add: c_def prod_eq_iff)
  have s: "hc_opad (starts c) = hc_opad ctx" by (simp add: starts_eq f(3))
  have "absorbed (update (update (starts c) (hc_opad ctx)) (hashed (i @ m))) (([] @ hc_opad ctx) @ hashed (i @ m))"
    using assms(2) hlen(2) by (intro update_absorbs absorbed_starts f(2)) (simp_all add: length_hashed)
  from finish_hashed(1) [OF this] show ?thesis by (simp add: hmac_finish_eq f(1) s)
qed

lemma hmac_is_spec:
  assumes "length (hc_buffer junk) = 64" "length key < 2 ^ 32" "length m < 2 ^ 32"
  shows "hmac junk key m = hmac_ref hashed key m"
proof -
  define c where "c = hmac_starts junk junk key"
  note st = hmac_starts_absorbed [OF assms(1,1,2), folded c_def]
  have "absorbed (update c m) (xor_bytes (hmac_key hashed key) (replicate 64 0x36) @ m)"
    by (rule update_absorbs [OF st(1) assms(3)])
  from hmac_finish_hashed [OF this] show ?thesis
    by (simp add: hmac_eq hmac_ref_def update_pads st(2) length_hmac_key flip: c_def)
qed

lemma length_hmac:
  "length (hc_buffer junk) = 64 \<Longrightarrow> length key < 2 ^ 32 \<Longrightarrow> length m < 2 ^ 32 \<Longrightarrow> length (hmac junk key m) = hlen"
  by (simp add: hmac_is_spec hmac_ref_def length_hashed)

end

section \<open>Both files implement it\<close>

lemma ucast_shift: "(ucast (drop_bit k n) :: byte) = word_of_nat (unat n div 2 ^ k)" for n :: u64
proof -
  have "(ucast (drop_bit k n) :: byte) = word_of_nat (unat (drop_bit k n))" by simp
  also have "\<dots> = word_of_nat (drop_bit k (unat n))" by (simp only: unat_drop_bit_eq)
  finally show ?thesis by (simp only: drop_bit_eq_div)
qed

lemma nat_be_4: "nat_be 4 v = [word_of_nat (v div 2 ^ 24), word_of_nat (v div 2 ^ 16), word_of_nat (v div 2 ^ 8), word_of_nat v]"
proof -
  have four: "4 = Suc (Suc (Suc (Suc 0)))" by simp
  have "nat_be 4 v = [word_of_nat (v div 256 div 256 div 256), word_of_nat (v div 256 div 256), word_of_nat (v div 256), word_of_nat v]"
    unfolding four by (simp only: nat_be.simps append_Nil append_Cons)
  then show ?thesis by (simp add: div_mult2_eq [symmetric])
qed

lemma PUT_ULONG_BE_nat: "PUT_ULONG_BE n = nat_be 4 (unat n mod 2 ^ 32)"
proof -
  have "PUT_ULONG_BE n = nat_be 4 (unat n)" unfolding PUT_ULONG_BE_def ucast_shift nat_be_4 by simp
  moreover have "(256 :: nat) ^ 4 = 2 ^ 32" by simp
  ultimately show ?thesis using nat_be_mod [of 4 "unat n"] by metis
qed

lemma PUT_ULONG_LE_rev: "PUT_ULONG_LE n = rev (PUT_ULONG_BE n)"
  by (simp add: PUT_ULONG_LE_def PUT_ULONG_BE_def)

lemma length_md5_state: "length (foldl md5_process st bs) = (if bs = [] then length st else 4)"
  by (induction bs arbitrary: st) (simp_all add: md5_process_def Let_def case_prod_beta)

lemma length_sha1_state: "length (foldl sha1_process st bs) = (if bs = [] then length st else 5)"
  by (induction bs arbitrary: st) (simp_all add: sha1_process_def Let_def case_prod_beta)

lemma length_concat_put: "length (concat (map PUT_ULONG_LE st)) = 4 * length st" "length (concat (map PUT_ULONG_BE st)) = 4 * length st"
  by (induction st) (simp_all add: PUT_ULONG_LE_def PUT_ULONG_BE_def)

lemma length_field:
  "PUT_ULONG_BE high @ PUT_ULONG_BE low = nat_be 8 (unat high mod 2 ^ 32 * 2 ^ 32 + unat low mod 2 ^ 32)"
proof -
  define h l where "h = unat high mod 2 ^ 32" and "l = unat low mod 2 ^ 32"
  have "l < 256 ^ 4" by (simp add: l_def)
  moreover have "h * 2 ^ 32 + l = h * 256 ^ 4 + l" by simp
  ultimately have "(h * 2 ^ 32 + l) div 256 ^ 4 = h" "(h * 2 ^ 32 + l) mod 256 ^ 4 = l" by simp_all
  then have "nat_be (4 + 4) (h * 2 ^ 32 + l) = nat_be 4 h @ nat_be 4 l"
    using nat_be_append [of 4 4 "h * 2 ^ 32 + l"] nat_be_mod [of 4 "h * 2 ^ 32 + l"] by metis
  then show ?thesis by (simp add: PUT_ULONG_BE_nat h_def l_def)
qed

lemma length_field_LE:
  "PUT_ULONG_LE low @ PUT_ULONG_LE high = rev (nat_be 8 (unat high mod 2 ^ 32 * 2 ^ 32 + unat low mod 2 ^ 32))"
  unfolding length_field [symmetric] by (simp add: PUT_ULONG_LE_rev)

interpretation md5h: md_hash md5_process "[0x67452301, 0xEFCDAB89, 0x98BADCFE, 0x10325476]" PUT_ULONG_LE
  "\<lambda>high low. PUT_ULONG_LE low @ PUT_ULONG_LE high" md5_padding md5_blocks md5_starts md5_update md5_finish md5
  md5_hmac_starts md5_hmac_finish md5_hmac "\<lambda>v. rev (nat_be 8 v)" 16
  by unfold_locales
    (rule md5_blocks.simps, rule md5_starts_def, rule md5_update_def, rule md5_padding_def, simp only: md5_finish_def Let_def,
     rule md5_def, simp only: md5_hmac_starts_def Let_def, rule md5_hmac_finish_def,
     simp only: md5_hmac_def md5_hmac_update_def, rule length_field_LE,
     simp_all add: length_concat_put length_md5_state)

interpretation sha1h: md_hash sha1_process "[0x67452301, 0xEFCDAB89, 0x98BADCFE, 0x10325476, 0xC3D2E1F0]" PUT_ULONG_BE
  "\<lambda>high low. PUT_ULONG_BE high @ PUT_ULONG_BE low" sha1_padding sha1_blocks sha1_starts sha1_update sha1_finish sha1
  sha1_hmac_starts sha1_hmac_finish sha1_hmac "nat_be 8" 20
  by unfold_locales
    (rule sha1_blocks.simps, rule sha1_starts_def, rule sha1_update_def, rule sha1_padding_def, simp only: sha1_finish_def Let_def,
     rule sha1_def, simp only: sha1_hmac_starts_def Let_def, rule sha1_hmac_finish_def,
     simp only: sha1_hmac_def sha1_hmac_update_def, rule length_field,
     simp_all add: length_concat_put length_sha1_state)

end
