(* ===== verification/Hash_Ref.thy ===== *)
theory Hash_Ref
  imports Hash_Spec
begin

text \<open>
  MD5 of RFC 1321 and SHA-1 of FIPS 180 on 32-bit words, and the proof that the code, which
  computes on 64-bit words and never clears the upper halves, agrees with them.
\<close>

unbundle bit_operations_syntax

section \<open>The low half of a word\<close>

definition lo :: "u64 \<Rightarrow> u32" where
  "lo x = ucast x"

lemma take_bit_32_add: "take_bit 32 (take_bit 64 x + take_bit 64 y) = take_bit 32 (x + y :: int)"
proof -
  have "take_bit 32 (take_bit 64 x + take_bit 64 y) = take_bit 32 (take_bit 32 (take_bit 64 x) + take_bit 32 (take_bit 64 y))"
    by (rule take_bit_add [symmetric])
  also have "\<dots> = take_bit 32 (take_bit 32 x + take_bit 32 y)" by simp
  also have "\<dots> = take_bit 32 (x + y)" by (rule take_bit_add)
  finally show ?thesis .
qed

lemma lo_add: "lo (x + y) = lo x + lo y"
  unfolding lo_def by transfer (simp add: take_bit_32_add)

lemma lo_bits:
  "lo (x AND y) = lo x AND lo y" "lo (x OR y) = lo x OR lo y" "lo (x XOR y) = lo x XOR lo y" "lo (NOT x) = NOT (lo x)"
  unfolding lo_def by (rule bit_word_eqI; simp add: bit_simps)+

lemma lo_S_rot:
  assumes "n < 32"
  shows "lo (S_rot x n) = word_rotl n (lo x)"
proof (rule bit_word_eqI)
  fix i
  assume i: "i < LENGTH(32)"
  have m: "(0xFFFFFFFF :: u64) = mask 32" by (simp add: mask_eq_exp_minus_1)
  have "(i + 32 - n) mod 32 = (if n \<le> i then i - n else 32 + i - n)" using i assms by (auto simp: mod_if)
  then show "bit (lo (S_rot x n)) i = bit (word_rotl n (lo x)) i"
    using i assms unfolding lo_def S_rot_def m by (auto simp: bit_simps bit_word_rotl_iff)
qed

lemmas lo_simps = lo_add lo_bits lo_S_rot

lemma or_add_shift:
  "push_bit n a OR b = push_bit n a + b" if "take_bit n b = b" for a b :: u64
proof -
  have "push_bit n a AND b = push_bit n a AND (b AND mask n)" using that by (simp only: take_bit_eq_mask)
  also have "\<dots> = (push_bit n a AND mask n) AND b" by (simp only: ac_simps)
  also have "push_bit n a AND mask n = take_bit n (push_bit n a)" by (simp only: take_bit_eq_mask)
  also have "\<dots> = 0" by (simp only: take_bit_push_bit) simp
  finally have "push_bit n a AND b = 0" by simp
  then show ?thesis by (rule disjunctive_add_eq_or [symmetric])
qed

lemma unat_byte_or:
  assumes "unat w < 2 ^ n" "n \<le> 56"
  shows "unat (push_bit n (ucast a) OR w :: u64) = unat (a :: byte) * 2 ^ n + unat w"
proof -
  have "unat (take_bit n w) = unat w"
    unfolding unsigned_take_bit_eq using assms(1) by (simp only: take_bit_nat_eq_self)
  then have "push_bit n (ucast a) OR w = push_bit n (ucast a) + w"
    by (intro or_add_shift) (simp only: word_unat_eq_iff)
  also have "\<dots> = word_of_nat (unat a * 2 ^ n + unat w)" by (simp add: push_bit_eq_mult)
  finally have "unat (push_bit n (ucast a) OR w) = (unat a * 2 ^ n + unat w) mod 2 ^ 64" by (simp only: unat_of_nat) simp
  moreover have "unat a * 2 ^ n + unat w < 2 ^ 64"
  proof -
    have "unat a \<le> 255" using unsigned_less [of a, where ?'a = nat] by simp
    then have "unat a * 2 ^ n \<le> 255 * 2 ^ n" by (rule mult_right_mono) simp
    then have "unat a * 2 ^ n + unat w < 256 * 2 ^ n" using assms(1) by linarith
    also have "\<dots> \<le> 256 * 2 ^ 56" using assms(2) by (intro mult_left_mono power_increasing) simp_all
    finally show ?thesis by simp
  qed
  ultimately show ?thesis by simp
qed

lemma unat_bytes_word:
  "unat (push_bit 24 (ucast a) OR (push_bit 16 (ucast b) OR (push_bit 8 (ucast c) OR ucast d)) :: u64) =
    be_nat [a, b, c, d]" for a b c d :: byte
proof -
  have lt: "unat x \<le> 255" for x :: byte using unsigned_less [of x, where ?'a = nat] by simp
  have d: "unat (ucast d :: u64) = unat d"
    unfolding unsigned_ucast_eq by (rule take_bit_nat_eq_self) (use lt [of d] in simp)
  have 1: "unat (push_bit 8 (ucast c) OR ucast d :: u64) = unat c * 2 ^ 8 + unat d"
    using unat_byte_or [of "ucast d" 8 c] lt [of d] d by simp
  then have 2: "unat (push_bit 16 (ucast b) OR (push_bit 8 (ucast c) OR ucast d) :: u64) = unat b * 2 ^ 16 + (unat c * 2 ^ 8 + unat d)"
    using unat_byte_or [of "push_bit 8 (ucast c) OR ucast d" 16 b] lt [of d] lt [of c] by simp
  then show ?thesis
    using unat_byte_or [of "push_bit 16 (ucast b) OR (push_bit 8 (ucast c) OR ucast d)" 24 a] lt [of d] lt [of c] lt [of b]
    by (simp add: be_nat_def)
qed

lemma upt_4: "[0..<4] = [0, 1, 2, 3]"
  by (simp add: upt_rec)

lemma lo_GET:
  assumes "i + 4 \<le> length data"
  shows "lo (GET_ULONG_BE data i) = word_of_nat (be_nat (mem_read data i 4))"
    "lo (GET_ULONG_LE data i) = word_of_nat (be_nat (rev (mem_read data i 4)))"
proof -
  have "mem_read data i 4 = map (\<lambda>k. data ! (i + k)) [0..<4]" using assms by (simp add: mem_read_def list_eq_iff_nth_eq)
  also have "\<dots> = [data ! i, data ! (i + 1), data ! (i + 2), data ! (i + 3)]" by (simp only: upt_4 list.map add_0_right)
  finally have r: "mem_read data i 4 = [data ! i, data ! (i + 1), data ! (i + 2), data ! (i + 3)]" .
  have lo: "lo x = word_of_nat (unat x)" for x by (simp add: lo_def)
  show "lo (GET_ULONG_BE data i) = word_of_nat (be_nat (mem_read data i 4))"
    unfolding lo r GET_ULONG_BE_def or.assoc unat_bytes_word ..
  have "GET_ULONG_LE data i = push_bit 24 (ucast (data ! (i + 3))) OR (push_bit 16 (ucast (data ! (i + 2)))
      OR (push_bit 8 (ucast (data ! (i + 1))) OR ucast (data ! i)))"
    unfolding GET_ULONG_LE_def by (simp only: ac_simps)
  then show "lo (GET_ULONG_LE data i) = word_of_nat (be_nat (rev (mem_read data i 4)))"
    unfolding lo r by (simp only: unat_bytes_word) simp
qed

section \<open>MD5\<close>

definition rfc_F :: "u32 \<Rightarrow> u32 \<Rightarrow> u32 \<Rightarrow> u32" where "rfc_F x y z = (x AND y) OR (NOT x AND z)"
definition rfc_G :: "u32 \<Rightarrow> u32 \<Rightarrow> u32 \<Rightarrow> u32" where "rfc_G x y z = (x AND z) OR (y AND NOT z)"
definition rfc_H :: "u32 \<Rightarrow> u32 \<Rightarrow> u32 \<Rightarrow> u32" where "rfc_H x y z = x XOR y XOR z"
definition rfc_I :: "u32 \<Rightarrow> u32 \<Rightarrow> u32 \<Rightarrow> u32" where "rfc_I x y z = y XOR (x OR NOT z)"

definition rfc_step :: "(u32 \<Rightarrow> u32 \<Rightarrow> u32 \<Rightarrow> u32) \<Rightarrow> u32 list \<Rightarrow> nat \<times> nat \<times> u64 \<Rightarrow> u32 \<times> u32 \<times> u32 \<times> u32 \<Rightarrow> u32 \<times> u32 \<times> u32 \<times> u32" where
  "rfc_step f X = (\<lambda>(k, s, t) (a, b, c, d). (d, b + word_rotl s (a + f b c d + X ! k + lo t), b, c))"

definition rfc_compress :: "u32 list \<Rightarrow> u32 list \<Rightarrow> u32 list" where
  "rfc_compress st X =
     (let v = (st ! 0, st ! 1, st ! 2, st ! 3);
          v = foldl (\<lambda>v r. rfc_step rfc_F X r v) v md5_round1;
          v = foldl (\<lambda>v r. rfc_step rfc_G X r v) v md5_round2;
          v = foldl (\<lambda>v r. rfc_step rfc_H X r v) v md5_round3;
          (a, b, c, d) = foldl (\<lambda>v r. rfc_step rfc_I X r v) v md5_round4
      in [st ! 0 + a, st ! 1 + b, st ! 2 + c, st ! 3 + d])"

lemma lo_md5_F:
  "lo (md5_F1 x y z) = rfc_F (lo x) (lo y) (lo z)" "lo (md5_F2 x y z) = rfc_G (lo x) (lo y) (lo z)"
  "lo (md5_F3 x y z) = rfc_H (lo x) (lo y) (lo z)" "lo (md5_F4 x y z) = rfc_I (lo x) (lo y) (lo z)"
  unfolding md5_F1_def md5_F2_def md5_F3_def md5_F4_def lo_simps rfc_F_def rfc_G_def rfc_H_def rfc_I_def
  by (rule bit_word_eqI; auto simp: bit_simps)+

definition lo4 :: "u64 \<times> u64 \<times> u64 \<times> u64 \<Rightarrow> u32 \<times> u32 \<times> u32 \<times> u32" where
  "lo4 = (\<lambda>(a, b, c, d). (lo a, lo b, lo c, lo d))"

lemma lo4_round:
  assumes "\<And>x y z. lo (F x y z) = f (lo x) (lo y) (lo z)" "list_all (\<lambda>(k, s, t). k < length X \<and> s < 32) rows"
  shows "lo4 (foldl (\<lambda>v r. md5_P F X r v) v rows) = foldl (\<lambda>v r. rfc_step f (map lo X) r v) (lo4 v) rows"
  using assms(2)
proof (induction rows arbitrary: v)
  case (Cons r rows)
  have "lo4 (md5_P F X r v) = rfc_step f (map lo X) r (lo4 v)"
    using Cons.prems by (cases r; cases v) (simp add: md5_P_def rfc_step_def lo4_def lo_simps assms(1) algebra_simps)
  then show ?case using Cons by simp
qed simp

definition le_words :: "bytes \<Rightarrow> u32 list" where
  "le_words data = map (\<lambda>j. word_of_nat (be_nat (rev (mem_read data (4 * j) 4)))) [0..<16]"

definition rfc_md5 :: "bytes \<Rightarrow> bytes" where
  "rfc_md5 m = concat (map (\<lambda>w. rev (nat_be 4 (unat w)))
     (foldl rfc_compress [0x67452301, 0xEFCDAB89, 0x98BADCFE, 0x10325476]
       (map le_words (chunks64 (md_pad (\<lambda>v. rev (nat_be 8 v)) m)))))"

lemma md5_process_lo: "map lo (md5_process st data) = rfc_compress (map lo st) (le_words data)" if "length st = 4" "length data = 64"
proof -
  define X where "X = map (\<lambda>j. GET_ULONG_LE data (4 * j)) [0..<16]"
  have X: "length X = 16" "map lo X = le_words data" using that(2) by (simp_all add: X_def le_words_def lo_GET)
  have rows: "list_all (\<lambda>(k, s, t). k < length X \<and> s < 32) md5_round1" "list_all (\<lambda>(k, s, t). k < length X \<and> s < 32) md5_round2"
      "list_all (\<lambda>(k, s, t). k < length X \<and> s < 32) md5_round3" "list_all (\<lambda>(k, s, t). k < length X \<and> s < 32) md5_round4"
    by (simp_all add: X md5_round1_def md5_round2_def md5_round3_def md5_round4_def)
  define v where "v = foldl (\<lambda>v r. md5_P md5_F4 X r v) (foldl (\<lambda>v r. md5_P md5_F3 X r v)
    (foldl (\<lambda>v r. md5_P md5_F2 X r v) (foldl (\<lambda>v r. md5_P md5_F1 X r v) (st ! 0, st ! 1, st ! 2, st ! 3) md5_round1) md5_round2) md5_round3) md5_round4"
  obtain a b c d where abcd: "v = (a, b, c, d)" by (cases v)
  have fin: "lo4 v = foldl (\<lambda>v r. rfc_step rfc_I (map lo X) r v) (foldl (\<lambda>v r. rfc_step rfc_H (map lo X) r v)
    (foldl (\<lambda>v r. rfc_step rfc_G (map lo X) r v) (foldl (\<lambda>v r. rfc_step rfc_F (map lo X) r v)
      (lo4 (st ! 0, st ! 1, st ! 2, st ! 3)) md5_round1) md5_round2) md5_round3) md5_round4"
    unfolding v_def by (simp only: lo4_round [where F = md5_F1 and f = rfc_F, OF lo_md5_F(1) rows(1)] lo4_round [where F = md5_F2 and f = rfc_G, OF lo_md5_F(2) rows(2)]
        lo4_round [where F = md5_F3 and f = rfc_H, OF lo_md5_F(3) rows(3)] lo4_round [where F = md5_F4 and f = rfc_I, OF lo_md5_F(4) rows(4)])
  have "md5_process st data = [st ! 0 + a, st ! 1 + b, st ! 2 + c, st ! 3 + d]"
    unfolding md5_process_def Let_def X_def [symmetric] v_def [symmetric] abcd by simp
  then show ?thesis
    using that(1) fin [symmetric] unfolding rfc_compress_def Let_def X(2) by (simp add: abcd lo4_def lo_add)
qed

section \<open>SHA-1\<close>

primrec fips_words :: "u32 list \<Rightarrow> nat \<Rightarrow> u32 list" where
  "fips_words M 0 = M"
| "fips_words M (Suc n) = (let ws = fips_words M n in
     ws @ [word_rotl 1 (ws ! (n + 13) XOR ws ! (n + 8) XOR ws ! (n + 2) XOR ws ! n)])"

definition fips_Ch :: "u32 \<Rightarrow> u32 \<Rightarrow> u32 \<Rightarrow> u32" where "fips_Ch x y z = (x AND y) OR (NOT x AND z)"
definition fips_Parity :: "u32 \<Rightarrow> u32 \<Rightarrow> u32 \<Rightarrow> u32" where "fips_Parity x y z = x XOR y XOR z"
definition fips_Maj :: "u32 \<Rightarrow> u32 \<Rightarrow> u32 \<Rightarrow> u32" where "fips_Maj x y z = (x AND y) OR (x AND z) OR (y AND z)"

definition fips_step :: "(u32 \<Rightarrow> u32 \<Rightarrow> u32 \<Rightarrow> u32) \<Rightarrow> u32 \<Rightarrow> u32 list \<Rightarrow> u32 \<times> u32 \<times> u32 \<times> u32 \<times> u32 \<Rightarrow> nat
    \<Rightarrow> u32 \<times> u32 \<times> u32 \<times> u32 \<times> u32" where
  "fips_step f k W = (\<lambda>(a, b, c, d, e) t. (word_rotl 5 a + f b c d + e + k + W ! t, a, word_rotl 30 b, c, d))"

definition fips_compress :: "u32 list \<Rightarrow> u32 list \<Rightarrow> u32 list" where
  "fips_compress st M =
     (let W = fips_words M 64;
          v = (st ! 0, st ! 1, st ! 2, st ! 3, st ! 4);
          v = foldl (fips_step fips_Ch 0x5A827999 W) v [0..<20];
          v = foldl (fips_step fips_Parity 0x6ED9EBA1 W) v [20..<40];
          v = foldl (fips_step fips_Maj 0x8F1BBCDC W) v [40..<60];
          (a, b, c, d, e) = foldl (fips_step fips_Parity 0xCA62C1D6 W) v [60..<80]
      in [st ! 0 + a, st ! 1 + b, st ! 2 + c, st ! 3 + d, st ! 4 + e])"

lemma length_fips_words: "length (fips_words M n) = length M + n"
  by (induction n) (simp_all add: Let_def)

lemma fips_words_stable: "m \<le> n \<Longrightarrow> i < length M + m \<Longrightarrow> fips_words M n ! i = fips_words M m ! i"
  by (induction n rule: dec_induct) (simp_all add: Let_def nth_append length_fips_words)

lemma fips_words_rec:
  assumes "length M = 16" "16 \<le> t" "t < 80"
  shows "fips_words M 64 ! t = word_rotl 1 (fips_words M 64 ! (t - 3) XOR fips_words M 64 ! (t - 8)
    XOR fips_words M 64 ! (t - 14) XOR fips_words M 64 ! (t - 16))"
proof -
  obtain n where n: "t = 16 + n" "n < 64" using assms(2,3) le_Suc_ex by force
  have st: "fips_words M 64 ! i = fips_words M n ! i" if "i < 16 + n" for i
    using fips_words_stable [of n 64 i M] n(2) assms(1) that by simp
  have "fips_words M 64 ! t = fips_words M (Suc n) ! t" using fips_words_stable [of "Suc n" 64 t M] n assms(1) by simp
  also have "\<dots> = word_rotl 1 (fips_words M n ! (n + 13) XOR fips_words M n ! (n + 8) XOR fips_words M n ! (n + 2) XOR fips_words M n ! n)"
    using assms(1) n(1) by (simp add: Let_def nth_append length_fips_words)
  finally show ?thesis by (simp add: st n(1) add.commute)
qed

lemma lo_sha1_F:
  "lo (sha1_F1 x y z) = fips_Ch (lo x) (lo y) (lo z)" "lo (sha1_F2 x y z) = fips_Parity (lo x) (lo y) (lo z)"
  "lo (sha1_F3 x y z) = fips_Maj (lo x) (lo y) (lo z)"
  unfolding sha1_F1_def sha1_F2_def sha1_F3_def lo_simps fips_Ch_def fips_Parity_def fips_Maj_def
  by (rule bit_word_eqI; auto simp: bit_simps)+

definition lo5 :: "u64 \<times> u64 \<times> u64 \<times> u64 \<times> u64 \<Rightarrow> u32 \<times> u32 \<times> u32 \<times> u32 \<times> u32" where
  "lo5 = (\<lambda>(a, b, c, d, e). (lo a, lo b, lo c, lo d, lo e))"

text \<open>Before round \<open>t\<close> the circular buffer holds the last sixteen words of the schedule.\<close>

definition sched_ok :: "u32 list \<Rightarrow> nat \<Rightarrow> u64 list \<Rightarrow> bool" where
  "sched_ok M t W \<longleftrightarrow> length W = 16 \<and> length M = 16
     \<and> (\<forall>j. j < max t 16 \<longrightarrow> max t 16 \<le> j + 16 \<longrightarrow> lo (W ! (j mod 16)) = fips_words M 64 ! j)"

lemma sha1_R_ok:
  assumes "sched_ok M t W" "16 \<le> t" "t < 80"
  shows "sched_ok M (Suc t) (sha1_R W t)"
proof -
  have at: "lo (W ! (j mod 16)) = fips_words M 64 ! j" if "j < t" "t \<le> j + 16" for j
    using assms(1,2) that by (simp add: sched_ok_def max_def)
  have "t mod 16 = (t - 16) mod 16" using assms(2) by (simp add: le_mod_geq)
  then have "lo (W ! (t mod 16)) = fips_words M 64 ! (t - 16)" using at [of "t - 16"] assms(2) by simp
  then have new: "lo (S_rot (W ! ((t - 3) mod 16) XOR W ! ((t - 8) mod 16) XOR W ! ((t - 14) mod 16) XOR W ! (t mod 16)) 1)
      = fips_words M 64 ! t"
    using fips_words_rec [of M t] assms by (simp add: lo_simps at sched_ok_def)
  have other: "j mod 16 \<noteq> t mod 16" if j: "j < t" "t < j + 16" for j
  proof
    assume "j mod 16 = t mod 16"
    then obtain q where "t = j + 16 * q" using mod_eq_nat2E [OF _ less_imp_le [OF j(1)]] by blast
    then show False using j by (cases q) auto
  qed
  have "lo (sha1_R W t ! (j mod 16)) = fips_words M 64 ! j" if j: "j < Suc t" "Suc t \<le> j + 16" for j
  proof (cases "j = t")
    case True then show ?thesis using new assms(1) by (simp add: sha1_R_def Let_def sched_ok_def)
  next
    case False
    then have "j < t" "t < j + 16" using j by simp_all
    then show ?thesis using other [of j] at [of j] by (simp add: sha1_R_def Let_def)
  qed
  then show ?thesis using assms(1,2) by (simp add: sched_ok_def sha1_R_def Let_def max_def)
qed

lemma sha1_step_ok:
  assumes "sched_ok M t W" "t < 80" "\<And>x y z. lo (F x y z) = f (lo x) (lo y) (lo z)"
  shows "\<exists>W' v'. sha1_step F K (W, v) t = (W', v') \<and> sched_ok M (Suc t) W'
    \<and> lo5 v' = fips_step f (lo K) (fips_words M 64) (lo5 v) t"
proof -
  define W' where "W' = (if t < 16 then W else sha1_R W t)"
  have W': "sched_ok M (Suc t) W'"
    using assms(1,2) sha1_R_ok [of M t W] by (cases "t < 16") (auto simp: W'_def sched_ok_def max_def)
  then have "lo (W' ! (t mod 16)) = fips_words M 64 ! t" by (cases "t < 16") (auto simp: sched_ok_def max_def)
  then have "lo5 (sha1_P F K (W' ! (t mod 16)) v) = fips_step f (lo K) (fips_words M 64) (lo5 v) t"
    by (cases v) (simp add: sha1_P_def fips_step_def lo5_def lo_simps assms(3) algebra_simps)
  then show ?thesis using W' by (simp add: sha1_step_def flip: W'_def)
qed

lemma sha1_rounds_ok:
  assumes "sched_ok M t W" "\<And>x y z. lo (F x y z) = f (lo x) (lo y) (lo z)" "t + n \<le> 80"
  shows "\<exists>W' v'. foldl (sha1_step F K) (W, v) [t..<t + n] = (W', v') \<and> sched_ok M (t + n) W'
    \<and> lo5 v' = foldl (fips_step f (lo K) (fips_words M 64)) (lo5 v) [t..<t + n]"
  using assms(3)
proof (induction n)
  case 0 then show ?case using assms(1) by simp
next
  case (Suc n)
  then obtain W' v' where 1: "foldl (sha1_step F K) (W, v) [t..<t + n] = (W', v')" "sched_ok M (t + n) W'"
      "lo5 v' = foldl (fips_step f (lo K) (fips_words M 64)) (lo5 v) [t..<t + n]" by auto
  obtain W2 v2 where "sha1_step F K (W', v') (t + n) = (W2, v2)" "sched_ok M (Suc (t + n)) W2"
      "lo5 v2 = fips_step f (lo K) (fips_words M 64) (lo5 v') (t + n)"
    using sha1_step_ok [where F = F and f = f and K = K and v = v', OF 1(2) _ assms(2)] Suc.prems by auto
  then show ?case using 1 by simp
qed

definition be_words :: "bytes \<Rightarrow> u32 list" where
  "be_words data = map (\<lambda>j. word_of_nat (be_nat (mem_read data (4 * j) 4))) [0..<16]"

definition fips_sha1 :: "bytes \<Rightarrow> bytes" where
  "fips_sha1 m = concat (map (\<lambda>w. nat_be 4 (unat w))
     (foldl fips_compress [0x67452301, 0xEFCDAB89, 0x98BADCFE, 0x10325476, 0xC3D2E1F0]
       (map be_words (chunks64 (md_pad (nat_be 8) m)))))"

lemma sha1_process_lo:
  assumes "length st = 5" "length data = 64"
  shows "map lo (sha1_process st data) = fips_compress (map lo st) (be_words data)"
proof -
  define M where "M = be_words data"
  define W where "W = map (\<lambda>j. GET_ULONG_BE data (4 * j)) [0..<16]"
  let ?v = "(st ! 0, st ! 1, st ! 2, st ! 3, st ! 4)"
  have M: "length M = 16" "M = map lo W" using assms(2) by (simp_all add: M_def W_def be_words_def lo_GET)
  have nth: "fips_words M 64 ! j = M ! j" if "j < 16" for j using fips_words_stable [of 0 64 j M] M(1) that by simp
  have ok: "sched_ok M 0 W" using M nth by (auto simp: sched_ok_def W_def)
  obtain W1 v1 where 1: "foldl (sha1_step sha1_F1 0x5A827999) (W, ?v) [0..<20] = (W1, v1)" "sched_ok M 20 W1"
      "lo5 v1 = foldl (fips_step fips_Ch (lo 0x5A827999) (fips_words M 64)) (lo5 ?v) [0..<20]"
    using sha1_rounds_ok [where F = sha1_F1 and f = fips_Ch and n = 20 and K = "0x5A827999" and v = "?v", OF ok lo_sha1_F(1)] by auto
  obtain W2 v2 where 2: "foldl (sha1_step sha1_F2 0x6ED9EBA1) (W1, v1) [20..<40] = (W2, v2)" "sched_ok M 40 W2"
      "lo5 v2 = foldl (fips_step fips_Parity (lo 0x6ED9EBA1) (fips_words M 64)) (lo5 v1) [20..<40]"
    using sha1_rounds_ok [where F = sha1_F2 and f = fips_Parity and n = 20 and K = "0x6ED9EBA1" and v = "v1", OF 1(2) lo_sha1_F(2)] by auto
  obtain W3 v3 where 3: "foldl (sha1_step sha1_F3 0x8F1BBCDC) (W2, v2) [40..<60] = (W3, v3)" "sched_ok M 60 W3"
      "lo5 v3 = foldl (fips_step fips_Maj (lo 0x8F1BBCDC) (fips_words M 64)) (lo5 v2) [40..<60]"
    using sha1_rounds_ok [where F = sha1_F3 and f = fips_Maj and n = 20 and K = "0x8F1BBCDC" and v = "v2", OF 2(2) lo_sha1_F(3)] by auto
  obtain W4 a b c d e where 4: "foldl (sha1_step sha1_F2 0xCA62C1D6) (W3, v3) [60..<80] = (W4, a, b, c, d, e)"
      "lo5 (a, b, c, d, e) = foldl (fips_step fips_Parity (lo 0xCA62C1D6) (fips_words M 64)) (lo5 v3) [60..<80]"
    using sha1_rounds_ok [where F = sha1_F2 and f = fips_Parity and n = 20 and K = "0xCA62C1D6" and v = "v3", OF 3(2) lo_sha1_F(2)] by auto
  have K: "lo 0x5A827999 = 0x5A827999" "lo 0x6ED9EBA1 = 0x6ED9EBA1" "lo 0x8F1BBCDC = 0x8F1BBCDC" "lo 0xCA62C1D6 = 0xCA62C1D6"
    by (simp_all add: lo_def)
  have impl: "sha1_process st data = [st ! 0 + a, st ! 1 + b, st ! 2 + c, st ! 3 + d, st ! 4 + e]"
    unfolding sha1_process_def Let_def W_def [symmetric] 1(1) 2(1) 3(1) 4(1) by simp
  have "fips_compress (map lo st) M = (case lo5 (a, b, c, d, e) of (a, b, c, d, e) \<Rightarrow>
      [lo (st ! 0) + a, lo (st ! 1) + b, lo (st ! 2) + c, lo (st ! 3) + d, lo (st ! 4) + e])"
    unfolding fips_compress_def Let_def 4(2) 3(3) 2(3) 1(3) K using assms(1) by (simp add: lo5_def)
  then show ?thesis by (simp add: impl lo5_def lo_add M_def)
qed

section \<open>The digests\<close>

lemma chunks64_length: "list_all (\<lambda>b. length b = 64) (chunks64 bs)"
  by (induction bs rule: chunks64.induct) (subst chunks64.simps, simp)

lemma md5_state_lo:
  "length st = 4 \<Longrightarrow> list_all (\<lambda>b. length b = 64) bs \<Longrightarrow>
   map lo (foldl md5_process st bs) = foldl rfc_compress (map lo st) (map le_words bs)"
proof (induction bs arbitrary: st)
  case (Cons b bs)
  then have "length (md5_process st b) = 4" using length_md5_state [of st "[b]"] by simp
  then show ?case using Cons by (simp add: md5_process_lo)
qed simp

lemma sha1_state_lo:
  "length st = 5 \<Longrightarrow> list_all (\<lambda>b. length b = 64) bs \<Longrightarrow>
   map lo (foldl sha1_process st bs) = foldl fips_compress (map lo st) (map be_words bs)"
proof (induction bs arbitrary: st)
  case (Cons b bs)
  then have "length (sha1_process st b) = 5" using length_sha1_state [of st "[b]"] by simp
  then show ?case using Cons by (simp add: sha1_process_lo)
qed simp

lemma unat_lo: "unat (lo x) = unat x mod 2 ^ 32"
  unfolding lo_def unsigned_ucast_eq take_bit_eq_mod by simp

lemma put_lo: "PUT_ULONG_BE x = nat_be 4 (unat (lo x))" "PUT_ULONG_LE x = rev (nat_be 4 (unat (lo x)))"
  by (simp_all only: unat_lo PUT_ULONG_BE_nat PUT_ULONG_LE_rev)

lemma md5_hashed: "md5h.hashed = rfc_md5"
proof
  fix m
  let ?iv = "[0x67452301, 0xEFCDAB89, 0x98BADCFE, 0x10325476] :: u64 list"
  define st where "st = foldl md5_process ?iv (chunks64 (md_pad (\<lambda>v. rev (nat_be 8 v)) m))"
  have st: "map lo st = foldl rfc_compress (map lo ?iv) (map le_words (chunks64 (md_pad (\<lambda>v. rev (nat_be 8 v)) m)))"
    unfolding st_def by (rule md5_state_lo) (simp_all add: chunks64_length)
  have iv: "map lo ?iv = [0x67452301, 0xEFCDAB89, 0x98BADCFE, 0x10325476]" by (simp add: lo_def)
  have "concat (map PUT_ULONG_LE st) = concat (map (\<lambda>w. rev (nat_be 4 (unat w))) (map lo st))"
    unfolding map_map comp_def put_lo(2) ..
  then show "md5h.hashed m = rfc_md5 m"
    unfolding md5h.hashed_def rfc_md5_def st_def [symmetric] st iv .
qed

lemma sha1_hashed: "sha1h.hashed = fips_sha1"
proof
  fix m
  let ?iv = "[0x67452301, 0xEFCDAB89, 0x98BADCFE, 0x10325476, 0xC3D2E1F0] :: u64 list"
  define st where "st = foldl sha1_process ?iv (chunks64 (md_pad (nat_be 8) m))"
  have st: "map lo st = foldl fips_compress (map lo ?iv) (map be_words (chunks64 (md_pad (nat_be 8) m)))"
    unfolding st_def by (rule sha1_state_lo) (simp_all add: chunks64_length)
  have iv: "map lo ?iv = [0x67452301, 0xEFCDAB89, 0x98BADCFE, 0x10325476, 0xC3D2E1F0]" by (simp add: lo_def)
  have "concat (map PUT_ULONG_BE st) = concat (map (\<lambda>w. nat_be 4 (unat w)) (map lo st))"
    unfolding map_map comp_def put_lo(1) ..
  then show "sha1h.hashed m = fips_sha1 m"
    unfolding sha1h.hashed_def fips_sha1_def st_def [symmetric] st iv .
qed

text \<open>A context as the stack leaves it.\<close>

definition demo_hash_ctx :: hash_ctx where
  "demo_hash_ctx = \<lparr>hc_total0 = 7, hc_total1 = 9, hc_state = [1], hc_buffer = replicate 64 0xAA, hc_ipad = [2], hc_opad = [3]\<rparr>"



text \<open>
  C9. SHA-1 over any sequence of updates, each shorter than 4 GiB, is the SHA-1 of FIPS 180 of
  the concatenation: the sixteen-word circular schedule computes the eighty-word one, and the
  64-bit words carry nothing from above bit 31 into the digest.
\<close>

theorem sha1_is_fips180:
  assumes "length (hc_buffer junk) = 64" "list_all (\<lambda>u. length u < 2 ^ 32) us"
  shows "snd (sha1_finish (foldl sha1_update (sha1_starts junk) us)) = fips_sha1 (concat us)"
  using sha1h.finish_hashed(1) [OF sha1h.updates_hashed [OF sha1h.absorbed_starts [OF assms(1)] assms(2)]]
  by (simp add: sha1_hashed)

theorem sha1_is_fips180_witness:
  "snd (sha1_finish (foldl sha1_update (sha1_starts demo_hash_ctx) [[0x61], [0x62, 0x63]])) = fips_sha1 [0x61, 0x62, 0x63]"
  using sha1_is_fips180 [of demo_hash_ctx "[[0x61], [0x62, 0x63]]"] by (simp add: demo_hash_ctx_def)

lemma md5_hmac_ref:
  "length (hc_buffer junk) = 64 \<Longrightarrow> length key < 2 ^ 32 \<Longrightarrow> length m < 2 ^ 32 \<Longrightarrow>
   md5_hmac junk key m = hmac_ref rfc_md5 key m \<and> length (md5_hmac junk key m) = 16"
  using md5h.hmac_is_spec [of junk key m] md5h.length_hmac [of junk key m] by (simp add: md5_hashed)

lemma sha1_hmac_ref:
  "length (hc_buffer junk) = 64 \<Longrightarrow> length key < 2 ^ 32 \<Longrightarrow> length m < 2 ^ 32 \<Longrightarrow>
   sha1_hmac junk key m = hmac_ref fips_sha1 key m \<and> length (sha1_hmac junk key m) = 20"
  using sha1h.hmac_is_spec [of junk key m] sha1h.length_hmac [of junk key m] by (simp add: sha1_hashed)

end
