(* ===== verification/Tls_Prf.thy ===== *)
theory Tls_Prf
  imports Hash_Ref
begin

text \<open>
  The pseudo-random function of the key derivation, \<open>tls1_prf\<close> of
  \<open>host/linux-3.0/drivers/priv/polarssl/ssl_tls.c\<close>, and the proof that it is the function of
  RFC 2246: the XOR of the two expansions by HMAC-MD5 and HMAC-SHA-1 of the halves of the
  secret. The stack areas the C code leaves uninitialised (the hash contexts and the
  128-byte scratch array \<open>tmp\<close>) are arguments.
\<close>

abbreviation POLARSSL_ERR_SSL_BAD_INPUT_DATA :: int where "POLARSSL_ERR_SSL_BAD_INPUT_DATA \<equiv> - 0x7100"

text \<open>
  Both loops of \<open>tls1_prf\<close>: \<open>A(i)\<close> is kept at \<open>tmp + off\<close>, in front of the seed of \<open>nb\<close> bytes; the
  first loop stores the blocks (\<open>comb old new = new\<close>), the second XORs them onto what is there.
\<close>

function prf_loop :: "(bytes \<Rightarrow> bytes) \<Rightarrow> nat \<Rightarrow> nat \<Rightarrow> (bytes \<Rightarrow> bytes \<Rightarrow> bytes) \<Rightarrow> nat \<Rightarrow> nat \<Rightarrow> nat \<Rightarrow> bytes \<Rightarrow> bytes \<Rightarrow> bytes \<times> bytes" where
  "prf_loop mac off h comb nb dlen i tmp dst =
     (if i < dlen \<and> 0 < h then
        let h_i = mac (mem_read tmp off (h + nb));
            tmp = mem_write tmp off (mac (mem_read tmp off h));
            k = (if dlen < i + h then dlen mod h else h);
            dst = mem_write dst i (comb (mem_read dst i k) (take k h_i))
        in prf_loop mac off h comb nb dlen (i + h) tmp dst
      else (tmp, dst))"
  by pat_completeness auto
termination by (relation "measure (\<lambda>(mac, off, h, comb, nb, dlen, i, tmp, dst). dlen - i)") auto

declare prf_loop.simps [simp del]

definition tls1_prf :: "hash_ctx \<Rightarrow> bytes \<Rightarrow> bytes \<Rightarrow> bytes \<Rightarrow> bytes \<Rightarrow> bytes \<Rightarrow> int \<times> bytes" where
  "tls1_prf junk tmp secret label random dst =
     (if 128 < 20 + length label + length random then (POLARSSL_ERR_SSL_BAD_INPUT_DATA, dst)
      else
        let slen = length secret;
            hs = (slen + 1) div 2;
            S1 = take hs secret;
            S2 = drop (slen - hs) secret;
            tmp = mem_write tmp 20 label;
            tmp = mem_write tmp (20 + length label) random;
            nb = length label + length random;
            tmp = mem_write tmp 4 (md5_hmac junk S1 (mem_read tmp 20 nb));
            (tmp, dst) = prf_loop (md5_hmac junk S1) 4 16 (\<lambda>old new. new) nb (length dst) 0 tmp dst;
            tmp = mem_write tmp 0 (sha1_hmac junk S2 (mem_read tmp 20 nb));
            (tmp, dst) = prf_loop (sha1_hmac junk S2) 0 20 xor_bytes nb (length dst) 0 tmp dst
        in (0, dst))"

section \<open>The function of the standard\<close>

primrec p_hash_A :: "(bytes \<Rightarrow> bytes) \<Rightarrow> bytes \<Rightarrow> nat \<Rightarrow> bytes" where
  "p_hash_A mac seed 0 = seed"
| "p_hash_A mac seed (Suc n) = mac (p_hash_A mac seed n)"

definition p_hash :: "(bytes \<Rightarrow> bytes) \<Rightarrow> bytes \<Rightarrow> nat \<Rightarrow> bytes" where
  "p_hash mac seed n = concat (map (\<lambda>j. mac (p_hash_A mac seed (Suc j) @ seed)) [0..<n])"

definition rfc2246_prf :: "bytes \<Rightarrow> bytes \<Rightarrow> bytes \<Rightarrow> nat \<Rightarrow> bytes" where
  "rfc2246_prf secret label seed n =
     (let hs = (length secret + 1) div 2
      in xor_bytes (take n (p_hash (hmac_ref rfc_md5 (take hs secret)) (label @ seed) n))
           (take n (p_hash (hmac_ref fips_sha1 (drop (length secret - hs) secret)) (label @ seed) n)))"

section \<open>The loops\<close>

text \<open>What a loop does with the old and the new bytes is bytewise.\<close>

definition bytewise :: "(bytes \<Rightarrow> bytes \<Rightarrow> bytes) \<Rightarrow> bool" where
  "bytewise comb \<longleftrightarrow> (\<forall>a b c d. length a = length c \<longrightarrow>
     comb (a @ b) (c @ d) = comb a c @ comb b d \<and> length (comb a c) = length c) \<and> comb [] [] = []"

lemma bytewise_store: "bytewise (\<lambda>old new. new)"
  by (simp add: bytewise_def)

lemma bytewise_xor: "bytewise xor_bytes"
  by (simp add: bytewise_def xor_bytes_append)

definition mac_ok :: "(bytes \<Rightarrow> bytes) \<Rightarrow> nat \<Rightarrow> bool" where
  "mac_ok mac h \<longleftrightarrow> 0 < h \<and> (\<forall>m. length m < 2 ^ 32 \<longrightarrow> length (mac m) = h)"

definition prf_block :: "(bytes \<Rightarrow> bytes) \<Rightarrow> bytes \<Rightarrow> nat \<Rightarrow> bytes" where
  "prf_block mac seed j = mac (p_hash_A mac seed (Suc j) @ seed)"

lemma p_hash_blocks: "p_hash mac seed n = concat (map (prf_block mac seed) [0..<n])"
  unfolding p_hash_def by (intro arg_cong [where f = concat] map_cong) (simp_all only: prf_block_def)

lemma length_p_hash_A:
  assumes "mac_ok mac h" "length seed < 2 ^ 16" "h \<le> 64"
  shows "length (p_hash_A mac seed (Suc j)) = h"
proof -
  have "length (p_hash_A mac seed j) < 2 ^ 32 \<and> length (p_hash_A mac seed (Suc j)) = h"
    using assms by (induction j) (auto simp: mac_ok_def)
  then show ?thesis ..
qed

lemma length_prf_block:
  assumes "mac_ok mac h" "length seed < 2 ^ 16" "h \<le> 64"
  shows "length (prf_block mac seed j) = h"
  using assms length_p_hash_A [OF assms, of j] by (simp add: prf_block_def mac_ok_def)

lemma p_hash_cong:
  assumes "mac_ok mac h" "length seed < 2 ^ 16" "h \<le> 64" "\<And>m. length m < 2 ^ 32 \<Longrightarrow> mac m = mac' m"
  shows "p_hash mac seed n = p_hash mac' seed n"
proof -
  have A: "p_hash_A mac seed j = p_hash_A mac' seed j \<and> length (p_hash_A mac seed j) < 2 ^ 17" for j
  proof (induction j)
    case (Suc j)
    then have "p_hash_A mac seed (Suc j) = p_hash_A mac' seed (Suc j)" using assms(4) [of "p_hash_A mac seed j"] by (elim conjE) simp
    then show ?case using length_p_hash_A [OF assms(1-3), of j] assms(3) by simp
  qed (use assms(2) in simp)
  have "mac (p_hash_A mac seed (Suc j) @ seed) = mac' (p_hash_A mac' seed (Suc j) @ seed)" for j
  proof -
    have "length (p_hash_A mac seed (Suc j) @ seed) < 2 ^ 32" using conjunct2 [OF A [of "Suc j"]] assms(2) by (simp del: p_hash_A.simps)
    from assms(4) [OF this] show ?thesis unfolding conjunct1 [OF A [of "Suc j"]] .
  qed
  then show ?thesis by (simp only: p_hash_def)
qed

lemma length_prf_blocks:
  assumes "mac_ok mac h" "length seed < 2 ^ 16" "h \<le> 64"
  shows "length (concat (map (prf_block mac seed) js)) = h * length js"
  by (induction js) (simp_all add: length_prf_block [OF assms])

lemma take_prf_blocks:
  assumes "mac_ok mac h" "length seed < 2 ^ 16" "h \<le> 64" "r \<le> n"
  shows "take r (concat (map (prf_block mac seed) [j..<j + n])) = take r (concat (map (prf_block mac seed) [j..<j + r]))"
proof -
  have "[j..<j + n] = [j..<j + r] @ [j + r..<j + n]" using assms(4) upt_add_eq_append [of j "j + r" "n - r"] by simp
  moreover have "r \<le> h * r" using assms(1) by (simp add: mac_ok_def)
  ultimately show ?thesis using length_prf_blocks [OF assms(1-3), of "[j..<j + r]"] by simp
qed

lemma mem_read_add: "mem_read b i (m + n) = mem_read b i m @ mem_read b (i + m) n"
  by (simp add: mem_read_def take_add add.commute)

lemma prf_loop_ok:
  assumes mac: "mac_ok mac h" "length seed < 2 ^ 16" "h \<le> 64" and comb: "bytewise comb"
    and tmp: "off + h + length seed \<le> length tmp" "mem_read tmp off h = p_hash_A mac seed (Suc j)"
      "mem_read tmp (off + h) (length seed) = seed"
    and pre: "length pre = h * j"
  shows "\<exists>tmp'. prf_loop mac off h comb (length seed) (length (pre @ rest)) (length pre) tmp (pre @ rest) =
      (tmp', pre @ comb rest (take (length rest) (concat (map (prf_block mac seed) [j..<j + length rest]))))
    \<and> length tmp' = length tmp \<and> mem_read tmp' (off + h) (length seed) = seed"
  using tmp pre
proof (induction "length rest" arbitrary: rest pre tmp j rule: less_induct)
  case less
  show ?case
  proof (cases "rest = []")
    case True
    then show ?thesis using less.prems comb by (simp add: prf_loop.simps bytewise_def)
  next
    case False
    define k where "k = min h (length rest)"
    define b where "b = prf_block mac seed j"
    define tmp1 where "tmp1 = mem_write tmp off (p_hash_A mac seed (Suc (Suc j)))"
    define dst1 where "dst1 = pre @ comb (take k rest) (take k b) @ drop k rest"
    have h: "0 < h" using mac(1) by (simp add: mac_ok_def)
    have lb: "length b = h" "length (p_hash_A mac seed (Suc (Suc j))) = h"
      by (simp_all only: b_def length_prf_block [OF mac] length_p_hash_A [OF mac])
    have hi: "mac (mem_read tmp off (h + length seed)) = b"
      unfolding mem_read_add less.prems b_def prf_block_def ..
    have t1: "length tmp1 = length tmp" "off + h + length seed \<le> length tmp1" "mem_read tmp1 off h = p_hash_A mac seed (Suc (Suc j))"
        "mem_read tmp1 (off + h) (length seed) = seed"
      using less.prems(1,3) lb(2) unfolding tmp1_def by (simp_all add: mem_write_def mem_read_def)
    have kk: "(if length (pre @ rest) < length pre + h then length (pre @ rest) mod h else h) = k"
      using less.prems(4) h by (auto simp: k_def)
    have c: "length (comb (take k rest) (take k b)) = k"
      using comb lb(1) by (simp add: bytewise_def k_def)
    have d1: "mem_write (pre @ rest) (length pre) (comb (mem_read (pre @ rest) (length pre) k) (take k b)) = dst1"
      using c by (simp add: mem_write_def mem_read_def dst1_def)
    have step: "prf_loop mac off h comb (length seed) (length (pre @ rest)) (length pre) tmp (pre @ rest) =
        prf_loop mac off h comb (length seed) (length (pre @ rest)) (length pre + h) tmp1 dst1"
      using False h by (subst prf_loop.simps) (simp only: Let_def hi kk d1 less.prems(2) p_hash_A.simps(2) [symmetric] tmp1_def [symmetric], simp)
    have blocks: "concat (map (prf_block mac seed) [j..<j + length rest]) = b @ concat (map (prf_block mac seed) [Suc j..<j + length rest])"
      using False by (simp add: upt_conv_Cons b_def)
    show ?thesis
    proof (cases "h \<le> length rest")
      case True
      then have k: "k = h" by (simp add: k_def)
      define pre1 where "pre1 = pre @ comb (take k rest) b"
      have pre1: "length pre1 = h * Suc j" "length pre1 = length pre + h" "dst1 = pre1 @ drop k rest" "length (pre1 @ drop k rest) = length (pre @ rest)"
        using c lb(1) less.prems(4) True by (simp_all add: pre1_def dst1_def k)
      have "take (length rest) (concat (map (prf_block mac seed) [j..<j + length rest])) =
          b @ take (length (drop k rest)) (concat (map (prf_block mac seed) [Suc j..<Suc j + length (drop k rest)]))"
      proof -
        have e: "Suc j + (length rest - 1) = j + length rest" using \<open>rest \<noteq> []\<close> by (cases rest) simp_all
        have "take (length rest - h) (concat (map (prf_block mac seed) [Suc j..<j + length rest])) =
            take (length rest - h) (concat (map (prf_block mac seed) [Suc j..<Suc j + (length rest - h)]))"
          using take_prf_blocks [OF mac, of "length rest - h" "length rest - 1" "Suc j", unfolded e] h by linarith
        then show ?thesis using blocks lb(1) True by (simp add: k)
      qed
      moreover have "comb rest (b @ x) = comb (take k rest) b @ comb (drop k rest) x" for x
        using comb lb(1) True unfolding bytewise_def by (metis append_take_drop_id k length_take min.absorb2)
      ultimately have res: "pre @ comb rest (take (length rest) (concat (map (prf_block mac seed) [j..<j + length rest]))) =
          pre1 @ comb (drop k rest) (take (length (drop k rest)) (concat (map (prf_block mac seed) [Suc j..<Suc j + length (drop k rest)])))"
        by (simp add: pre1_def)
      have "length (drop k rest) < length rest" using k h False by simp
      from less.hyps [OF this t1(2-4) pre1(1)] show ?thesis
        unfolding step res pre1(2) [symmetric] pre1(3) pre1(4) t1(1) .
    next
      case False
      then have k: "k = length rest" by (simp add: k_def)
      have "take (length rest) (concat (map (prf_block mac seed) [j..<j + length rest])) = take k b"
        using False lb(1) unfolding blocks by (simp add: k)
      then show ?thesis
        unfolding step using False t1 by (subst prf_loop.simps) (simp add: dst1_def k)
    qed
  qed
qed

section \<open>The whole function\<close>

lemma tls1_prf_spec:
  assumes "length (hc_buffer junk) = 64" "length tmp = 128" "20 + length label + length random \<le> 128" "length secret < 2 ^ 32"
  shows "tls1_prf junk tmp secret label random dst = (0, rfc2246_prf secret label random (length dst))"
proof -
  define n where "n = length dst"
  define hs where "hs = (length secret + 1) div 2"
  define S1 where "S1 = take hs secret"
  define S2 where "S2 = drop (length secret - hs) secret"
  define seed where "seed = label @ random"
  define t0 where "t0 = mem_write (mem_write tmp 20 label) (20 + length label) random"
  have S: "length S1 < 2 ^ 32" "length S2 < 2 ^ 32" using assms(4) by (simp_all add: S1_def S2_def)
  have ok1: "mac_ok (md5_hmac junk S1) 16" and ok2: "mac_ok (sha1_hmac junk S2) 20"
    using md5h.length_hmac [OF assms(1) S(1)] sha1h.length_hmac [OF assms(1) S(2)] by (simp_all add: mac_ok_def)
  have seed: "length seed < 2 ^ 16" "length seed < 2 ^ 32" "length label + length random = length seed" "20 + length seed \<le> 128"
    using assms(3) by (simp_all add: seed_def)
  have t0: "length t0 = 128" "mem_read t0 20 (length seed) = seed"
    using assms(2,3) by (simp_all add: t0_def seed_def mem_write_def mem_read_def)
  define t1 where "t1 = mem_write t0 4 (md5_hmac junk S1 seed)"
  have m1: "length (md5_hmac junk S1 seed) = 16" using ok1 seed(2) by (simp add: mac_ok_def)
  have t1: "length t1 = 128" "mem_read t1 4 16 = p_hash_A (md5_hmac junk S1) seed (Suc 0)" "mem_read t1 (4 + 16) (length seed) = seed"
    using t0 m1 by (simp_all add: t1_def mem_write_def mem_read_def)
  define d1 where "d1 = take n (p_hash (md5_hmac junk S1) seed n)"
  obtain t2 where t2: "prf_loop (md5_hmac junk S1) 4 16 (\<lambda>old new. new) (length seed) n 0 t1 dst = (t2, d1)"
      "length t2 = 128" "mem_read t2 20 (length seed) = seed"
    using prf_loop_ok [OF ok1 seed(1) _ bytewise_store, of 4 t1 0 "[]" dst] t1 seed(4)
    by (auto simp: n_def d1_def p_hash_blocks)
  have d1: "length d1 = n"
    using length_prf_blocks [OF ok1 seed(1), of "[0..<n]"] by (simp add: d1_def p_hash_blocks)
  define t3 where "t3 = mem_write t2 0 (sha1_hmac junk S2 seed)"
  have m3: "length (sha1_hmac junk S2 seed) = 20" using ok2 seed(2) by (simp add: mac_ok_def)
  have t3: "length t3 = 128" "mem_read t3 0 20 = p_hash_A (sha1_hmac junk S2) seed (Suc 0)" "mem_read t3 (0 + 20) (length seed) = seed"
    using t2(2,3) m3 by (simp_all add: t3_def mem_write_def mem_read_def)
  obtain t4 where t4: "prf_loop (sha1_hmac junk S2) 0 20 xor_bytes (length seed) n 0 t3 d1 =
      (t4, xor_bytes d1 (take n (p_hash (sha1_hmac junk S2) seed n)))"
    using prf_loop_ok [OF ok2 seed(1) _ bytewise_xor, of 0 t3 0 "[]" d1] t3 seed(4) d1
    by (auto simp: p_hash_blocks)
  have "p_hash (md5_hmac junk S1) seed n = p_hash (hmac_ref rfc_md5 S1) seed n"
      "p_hash (sha1_hmac junk S2) seed n = p_hash (hmac_ref fips_sha1 S2) seed n"
    by (intro p_hash_cong [OF ok1 seed(1)] p_hash_cong [OF ok2 seed(1)];
        use md5_hmac_ref [OF assms(1) S(1)] sha1_hmac_ref [OF assms(1) S(2)] in simp)+
  then show ?thesis
    unfolding tls1_prf_def rfc2246_prf_def Let_def hs_def [symmetric] S1_def [symmetric] S2_def [symmetric] seed(3)
      n_def [symmetric] t0_def [symmetric] t0(2) t1_def [symmetric] t2(1) prod.case t2(3) t3_def [symmetric] d1 t4
    using assms(3) by (simp add: d1_def flip: seed_def)
qed

lemma length_hmac_ref: "length (hmac_ref rfc_md5 k m) = 16" "length (hmac_ref fips_sha1 k m) = 20"
  unfolding hmac_ref_def md5_hashed [symmetric] sha1_hashed [symmetric] by (simp_all add: md5h.length_hashed sha1h.length_hashed)

lemma length_rfc2246_prf:
  assumes "length label + length seed < 2 ^ 16"
  shows "length (rfc2246_prf secret label seed n) = n"
proof -
  have "mac_ok (hmac_ref rfc_md5 k) 16" "mac_ok (hmac_ref fips_sha1 k) 20" for k
    by (simp_all add: mac_ok_def length_hmac_ref)
  then have "length (p_hash (hmac_ref rfc_md5 k) (label @ seed) n) = 16 * n" "length (p_hash (hmac_ref fips_sha1 k) (label @ seed) n) = 20 * n" for k
    using length_prf_blocks [of "hmac_ref rfc_md5 k" 16 "label @ seed" "[0..<n]"]
      length_prf_blocks [of "hmac_ref fips_sha1 k" 20 "label @ seed" "[0..<n]"] assms by (simp_all add: p_hash_blocks)
  then show ?thesis by (simp add: rfc2246_prf_def Let_def)
qed

text \<open>
  C8. The pseudo-random function fills the whole destination with the output of the function of
  RFC 2246, for every destination length, independent of what the uninitialised arrays held;
  a label and seed too long for the scratch array are refused and nothing is written.
\<close>

theorem tls1_prf_is_rfc2246:
  assumes "length (hc_buffer junk) = 64" "length tmp = 128" "length secret < 2 ^ 32"
  shows "tls1_prf junk tmp secret label random dst =
    (if 128 < 20 + length label + length random then (- 0x7100, dst)
     else (0, rfc2246_prf secret label random (length dst)))"
proof (cases "128 < 20 + length label + length random")
  case True then show ?thesis by (simp add: tls1_prf_def)
next
  case False then show ?thesis using tls1_prf_spec [OF assms(1,2) _ assms(3), of label random dst] by simp
qed

theorem tls1_prf_is_rfc2246_witness:
  "tls1_prf demo_hash_ctx (replicate 128 0xEE) [1, 2, 3] [0x6B] (replicate 64 5) (replicate 50 0) =
    (0, rfc2246_prf [1, 2, 3] [0x6B] (replicate 64 5) 50)"
  using tls1_prf_is_rfc2246 [of demo_hash_ctx "replicate 128 0xEE" "[1, 2, 3]" "[0x6B]" "replicate 64 5" "replicate 50 0"]
  by (simp add: demo_hash_ctx_def)

end
