(* ===== verification/Kex.thy ===== *)
theory Kex
  imports Priv_Crypt_Drv Dhm Tls_Prf
begin

text \<open>
  The kernel's side of the key exchange: the operations of
  \<open>host/linux-3.0/drivers/priv/crypto_math_drv.c\<close> that the module exports as \<open>cm_dhm_kex_ops\<close>,
  and \<open>process_kex_msg\<close> of \<open>drivers/priv/kex.c\<close>, which answers a message in the buffer it came
  in, derives the key and stores it in the context. What the environment contributes (whether
  the module is present, the allocations, the random bytes, the contents of uninitialised
  stack areas) is the record \<open>kex_env\<close>.
\<close>

section \<open>The exported operations\<close>

record kex_env =
  ke_module :: bool
  ke_zalloc :: bool
  ke_mem :: mem
  ke_random :: "nat \<Rightarrow> bytes"
  ke_premaster :: bool
  ke_hash :: hash_ctx
  ke_tmp :: bytes
  ke_master :: bytes
  ke_key :: bytes

definition max_dhm_buf_size :: "dhm_context \<Rightarrow> nat option" where
  "max_dhm_buf_size ctx = do { n \<leftarrow> mpi_size (dh_P ctx); Some (3 * (n + 2) + 2) }"

definition kernel_rng :: "(nat \<Rightarrow> bytes) \<Rightarrow> nat \<Rightarrow> int \<times> bytes" where
  "kernel_rng random out_len = (0, random out_len)"

definition make_params :: "mem \<Rightarrow> dhm_context \<Rightarrow> (nat \<Rightarrow> bytes) \<Rightarrow> (int \<times> dhm_context \<times> bytes \<times> mem) option" where
  "make_params m ctx random = do {
     n \<leftarrow> mpi_size (dh_P ctx);
     (rc, ctx, msg, m) \<leftarrow> dhm_make_params m ctx n (kernel_rng random);
     if rc \<noteq> 0 then Some (rc, ctx, msg, m) else Some (0, ctx, msg @ [0, 0], m) }"

definition cm_dhm_init :: "bool \<Rightarrow> int \<times> dhm_context option" where
  "cm_dhm_init zalloc = (if zalloc then (0, Some dhm_zeroed) else (- ENOMEM, None))"

text \<open>
  The structure is cleared and freed, not the integers it points to: the second result is what
  the limbs that nothing points to any more hold.
\<close>

definition cm_dhm_destroy :: "dhm_context \<Rightarrow> dhm_context \<times> u64 list list" where
  "cm_dhm_destroy kex =
     (dhm_zeroed, filter (\<lambda>p. p \<noteq> [])
        [mp_p (dh_P kex), mp_p (dh_G kex), mp_p (dh_X kex), mp_p (dh_GX kex), mp_p (dh_GY kex), mp_p (dh_K kex), mp_p (dh_RP kex)])"

text \<open>
  The results are the return code, \<open>*out_buf_len\<close>, what is written to \<open>out_buf\<close> (\<open>None\<close>: nothing)
  and the context.
\<close>

definition cm_dhm_respond :: "mem \<Rightarrow> (nat \<Rightarrow> bytes) \<Rightarrow> nat \<Rightarrow> bytes \<Rightarrow> (int \<times> nat \<times> bytes option \<times> dhm_context \<times> mem) option" where
  "cm_dhm_respond m random out_buf_len in_buf = do {
     (rc, ctx, m) \<leftarrow> dhm_read_params m in_buf;
     if rc \<noteq> 0 then Some (- 1, out_buf_len, None, ctx, m)
     else if out_buf_len < dh_len ctx then Some (- ENOMEM, out_buf_len, None, ctx, m)
     else do {
       n \<leftarrow> mpi_size (dh_P ctx);
       (rc, ctx, out, m) \<leftarrow> dhm_make_public m ctx n (dh_len ctx) (kernel_rng random);
       if rc \<noteq> 0 then Some (- 1, out_buf_len, out, ctx, m)
       else do {
         (rc, ctx, m) \<leftarrow> dhm_calc_secret_no_export m ctx;
         if rc < 0 then Some (- 1, out_buf_len, out, ctx, m)
         else Some (0, dh_len ctx, out, ctx, m) } } }"

text \<open>The labels as bytes.\<close>

definition label_master :: bytes where
  "label_master = [0x6D, 0x61, 0x73, 0x74, 0x65, 0x72, 0x20, 0x73, 0x65, 0x63, 0x72, 0x65, 0x74]"

definition label_expansion :: bytes where
  "label_expansion = [0x6B, 0x65, 0x79, 0x20, 0x65, 0x78, 0x70, 0x61, 0x6E, 0x73, 0x69, 0x6F, 0x6E]"

definition calc_secret :: "kex_env \<Rightarrow> bytes \<Rightarrow> dhm_context \<Rightarrow> (int \<times> bytes) option" where
  "calc_secret ev key ctx = do {
     pre_master_len \<leftarrow> mpi_size (dh_K ctx);
     if \<not> ke_premaster ev then Some (- 1, key)
     else do {
       (rc, pre_master) \<leftarrow> mpi_write_binary (dh_K ctx) pre_master_len;
       pre_master \<leftarrow> pre_master;
       if rc < 0 then Some (rc, key)
       else
         let random = map word_of_nat [0..<64];
             (rc, master) = tls1_prf (ke_hash ev) (ke_tmp ev) pre_master label_master random (ke_master ev)
         in if rc < 0 then Some (rc, key)
            else
              let random = drop 32 random @ take 32 random;
                  (rc, key) = tls1_prf (ke_hash ev) (ke_tmp ev) master label_expansion random key
              in if rc < 0 then Some (rc, key) else Some (0, key) } }"

definition cm_dhm_get_key :: "kex_env \<Rightarrow> bytes \<Rightarrow> dhm_context \<Rightarrow> (int \<times> bytes) option" where
  "cm_dhm_get_key ev key kex = do {
     (rc, key) \<leftarrow> calc_secret ev key kex;
     if rc < 0 then Some (- 1, key) else Some (0, key) }"

section \<open>The message handler\<close>

abbreviation PRIV_CRYPT_KEX_PARAMS :: byte where "PRIV_CRYPT_KEX_PARAMS \<equiv> 1"
abbreviation PRIV_CRYPT_KEX_RESPONSE :: byte where "PRIV_CRYPT_KEX_RESPONSE \<equiv> 2"
abbreviation PRIV_CRYPT_KEX_DEBUG :: byte where "PRIV_CRYPT_KEX_DEBUG \<equiv> 255"

text \<open>
  The exchange proper, between \<open>init\<close> and \<open>destroy\<close>. The input and the output are the same
  buffer, and the message is read completely before anything is written.
\<close>

definition kex_exchange :: "kex_env \<Rightarrow> priv_crypt_ctx \<Rightarrow> nat \<Rightarrow> nat \<Rightarrow> bytes \<Rightarrow> (int \<times> nat \<times> priv_crypt_ctx \<times> bytes) option" where
  "kex_exchange ev cctx out_sz in_sz buf = do {
     let out_sz = out_sz - 1;
     (rc, out_sz, out, kex, m) \<leftarrow> cm_dhm_respond (ke_mem ev) (ke_random ev) out_sz (mem_read buf 1 (in_sz - 1));
     let buf = (case out of Some bs \<Rightarrow> mem_write buf 1 bs | None \<Rightarrow> buf);
     if rc < 0 then Some (rc, out_sz, cctx, buf)
     else do {
       let out_sz = out_sz + 1;
       (rc, key) \<leftarrow> cm_dhm_get_key ev (take (cx_key_size cctx) (ke_key ev)) kex;
       if rc < 0 then Some (rc, out_sz, cctx, buf)
       else
         let (rc, cctx) = priv_set_key cctx (cx_key_size cctx) (mem_write (ke_key ev) 0 key)
         in Some (rc, out_sz, cctx, buf) } }"

text \<open>
  \<open>process_kex_msg\<close> with one buffer for the message and the answer, as \<open>do_kex\<close> calls it. The
  first byte is overwritten after \<open>destroy\<close> also when the exchange failed.
\<close>

definition process_kex_msg :: "kex_env \<Rightarrow> kex_fn" where
  "process_kex_msg ev cctx out_sz in_sz buf =
     (if in_sz < 1 then Some (- 1, out_sz, cctx, buf)
      else if buf ! 0 = PRIV_CRYPT_KEX_PARAMS then
        if \<not> ke_module ev then Some (- 1, out_sz, cctx, buf)
        else
          let (rc, kex) = cm_dhm_init (ke_zalloc ev)
          in if rc < 0 then Some (rc, out_sz, cctx, buf)
             else do {
               (rc, out_sz, cctx, buf) \<leftarrow> kex_exchange ev cctx out_sz in_sz buf;
               let buf = buf[0 := PRIV_CRYPT_KEX_RESPONSE];
               if rc < 0 then Some (rc, out_sz, cctx, buf) else Some (0, out_sz, cctx, buf) }
      else if buf ! 0 = PRIV_CRYPT_KEX_DEBUG then
        Some (0, 1 + 256, cctx, mem_write buf 0 (PRIV_CRYPT_KEX_DEBUG # map word_of_nat [0..<256]))
      else Some (- 1, out_sz, cctx, buf))"

section \<open>What the handler keeps\<close>

lemma mpi_write_binary_length: "mpi_write_binary X n = Some (ret, Some bs) \<Longrightarrow> length bs = n"
  by (auto simp: mpi_write_binary_def split: Option.bind_splits if_splits)

lemma dhm_make_public_length:
  "dhm_make_public m ctx x_size olen rng = Some (ret, ctx', Some bs, m') \<Longrightarrow> length bs = olen"
  by (auto simp: dhm_make_public_def split: Option.bind_splits if_splits prod.splits dest: mpi_write_binary_length)

lemma cm_dhm_respond_length:
  "cm_dhm_respond m random n in_buf = Some (rc, out_sz, Some bs, kex, m') \<Longrightarrow> length bs \<le> n"
  by (auto simp: cm_dhm_respond_def not_less split: Option.bind_splits if_splits prod.splits dest: dhm_make_public_length)

lemma mem_write_take_write:
  assumes "length d \<le> n" "n \<le> length b"
  shows "mem_write b 0 (take n (mem_write b 0 d)) = mem_write b 0 d"
proof -
  have "drop (length d) b = take (n - length d) (drop (length d) b) @ drop n b"
    using append_take_drop_id [of "n - length d" "drop (length d) b"] assms by simp
  then show ?thesis using assms by (simp add: mem_write_def)
qed

lemma priv_set_key_keeps:
  assumes "priv_set_key c (cx_key_size c) k = (rc, c')"
  shows "cx_id c' = cx_id c \<and> cx_user_lock c' = cx_user_lock c \<and> cx_user_ref c' = cx_user_ref c
      \<and> cx_alloc_pid c' = cx_alloc_pid c \<and> cx_activated c' = cx_activated c"
    and "ctx_wf c \<Longrightarrow> ctx_wf c'"
proof -
  show "cx_id c' = cx_id c \<and> cx_user_lock c' = cx_user_lock c \<and> cx_user_ref c' = cx_user_ref c
      \<and> cx_alloc_pid c' = cx_alloc_pid c \<and> cx_activated c' = cx_activated c"
    using assms by (auto simp: priv_set_key_def Let_def split: option.splits prod.splits)
  assume wf: "ctx_wf c"
  define k' where "k' = take (cx_key_size c) (mem_write (cx_key c) 0 (take (cx_key_size c) k))"
  have len: "length (cx_key c) = 64" "cx_key_size c \<le> 64" using wf by (auto simp: ctx_wf_def)
  have "length (mem_write (cx_key c) 0 (take (cx_key_size c) k)) = 64" using len by (simp add: mem_write_def)
  then have "length k' = cx_key_size c" using len by (simp add: k'_def)
  moreover have "mem_write (cx_key c) 0 (take (cx_key_size c) k') = mem_write (cx_key c) 0 (take (cx_key_size c) k)"
    using mem_write_take_write [of "take (cx_key_size c) k" "cx_key_size c" "cx_key c"] len by (simp add: k'_def)
  then have "priv_set_key c (cx_key_size c) k' = (rc, c')"
    using assms by (simp add: priv_set_key_def)
  ultimately show "ctx_wf c'" using priv_set_key_wf(2) [OF wf refl, of k'] by simp
qed

lemma kex_exchange_keeps:
  assumes "kex_exchange ev c out_sz in_sz buf = Some (rc, out_sz', c', buf')"
  shows "cx_id c' = cx_id c \<and> cx_user_lock c' = cx_user_lock c \<and> cx_user_ref c' = cx_user_ref c
      \<and> cx_alloc_pid c' = cx_alloc_pid c \<and> cx_activated c' = cx_activated c"
    and "ctx_wf c \<Longrightarrow> ctx_wf c'" and "out_sz \<le> length buf \<Longrightarrow> 1 \<le> out_sz \<Longrightarrow> length buf' = length buf"
proof -
  obtain rc1 sz1 out kex m where r: "cm_dhm_respond (ke_mem ev) (ke_random ev) (out_sz - 1) (mem_read buf 1 (in_sz - 1)) = Some (rc1, sz1, out, kex, m)"
    and e: "buf' = (case out of Some bs \<Rightarrow> mem_write buf 1 bs | None \<Rightarrow> buf)"
      "c' = c \<or> (\<exists>rc2 k. priv_set_key c (cx_key_size c) k = (rc2, c'))"
    using assms by (auto simp: kex_exchange_def Let_def split: Option.bind_splits if_splits prod.splits)
  show "cx_id c' = cx_id c \<and> cx_user_lock c' = cx_user_lock c \<and> cx_user_ref c' = cx_user_ref c
      \<and> cx_alloc_pid c' = cx_alloc_pid c \<and> cx_activated c' = cx_activated c" "ctx_wf c \<Longrightarrow> ctx_wf c'"
    using e(2) priv_set_key_keeps by blast+
  assume "out_sz \<le> length buf" "1 \<le> out_sz"
  moreover have "length bs \<le> out_sz - 1" if "out = Some bs" for bs using cm_dhm_respond_length r that by blast
  ultimately show "length buf' = length buf" by (force simp: e(1) mem_write_def split: option.splits)
qed

interpretation kex: kex_handler "process_kex_msg ev"
proof
  fix c buf in_sz rc out_sz c' buf'
  assume a: "ctx_wf c" "length buf = MAX_KEX_MSG_LEN" "process_kex_msg ev c MAX_KEX_MSG_LEN in_sz buf = Some (rc, out_sz, c', buf')"
  have "length (mem_write buf 0 (PRIV_CRYPT_KEX_DEBUG # map word_of_nat [0..<256])) = MAX_KEX_MSG_LEN" using a(2) by simp
  then show "ctx_wf c' \<and> length buf' = MAX_KEX_MSG_LEN"
    using a kex_exchange_keeps(2,3) [of ev c MAX_KEX_MSG_LEN in_sz buf]
    by (auto simp: process_kex_msg_def Let_def split: Option.bind_splits if_splits prod.splits)
next
  fix c n in_sz buf rc out_sz c' buf'
  assume "process_kex_msg ev c n in_sz buf = Some (rc, out_sz, c', buf')"
  then show "cx_id c' = cx_id c \<and> cx_user_lock c' = cx_user_lock c \<and> cx_user_ref c' = cx_user_ref c
      \<and> cx_alloc_pid c' = cx_alloc_pid c \<and> cx_activated c' = cx_activated c"
    using kex_exchange_keeps(1) [of ev c n in_sz buf]
    by (auto simp: process_kex_msg_def Let_def split: Option.bind_splits if_splits prod.splits)
qed



end
