(* ===== verification/Spec2Isabelle.thy ===== *)
theory Spec2Isabelle
  imports Prelude Ctr_Mode Priv_Crypto Aesni Channel Priv_Crypt_Drv Privnet Privsound Privos_Swap Kex
begin

text \<open>
  Lacuna runs programs in private sessions: a virtual machine whose input, sound, network and
  display traffic passes through the host kernel encrypted, and whose pages are encrypted
  before they reach the swap device, so that closing the session leaves nothing readable
  behind. This library models the parts of the host that carry this promise and proves what
  they do. Paths below are relative to \<open>src/\<close>; \<open>linux/\<close> is \<open>host/linux-3.0/\<close>.

  \<^bold>\<open>The parts and how they interact.\<close> A \<^emph>\<open>cryptographic context\<close> (\<open>linux/drivers/priv/crypto.c\<close>) is
  one end of an encrypted channel: a key, a counter block and a direction. The other end is
  the user-space library with its AES-NI cipher (\<open>crypto/libprivcrypt/aesni.c\<close> and the
  assembly). The device driver (\<open>linux/drivers/priv/priv_crypt_drv.c\<close>) creates contexts,
  hands them out to kernel clients by identifier and removes them when their process dies;
  the key of a context comes from a Diffie-Hellman exchange (\<open>kex.c\<close>, \<open>crypto_math_drv.c\<close>, and
  under \<open>polarssl/\<close> the multi-precision integers, the exchange, the hash functions and the
  key derivation). Clients are the network filter (\<open>linux/drivers/priv_sysfs/privnet/\<close>), which
  encrypts packets from and to registered hardware addresses, and the sound channel
  (\<open>privsound/\<close>), which encrypts recorded and decrypts played frames. Encrypted swap
  (\<open>linux/mm/privos.c\<close> and its hooks in \<open>page_io.c\<close>, \<open>swapfile.c\<close>, \<open>swap_state.c\<close>, \<open>fork.c\<close>,
  \<open>exec.c\<close>) uses the kernel's cipher directly, with a key per address space.

  \<^bold>\<open>Conventions.\<close> A C structure is a record, a machine word a word of its width, a buffer a list of
  bytes, a pointer an address into an explicit heap or, where nothing is shared, an optional
  value. Handlers return their code as an integer, \<open>-EINVAL\<close> being a value; \<open>None\<close> is a null or
  freed pointer dereferenced, a \<open>BUG\<close>, a self-deadlock or a loop that does not end. What the
  code takes from outside (AES with a key as a function on blocks, the outcome of each
  allocation, random bytes, the contents of uninitialised memory) is an argument. Loops are
  structural recursion or have a termination proof; the few that may run forever are partial
  functions with the value \<open>None\<close>. No fuel is used.

  \<^bold>\<open>Theories.\<close>
  \<^item> \<open>Prelude\<close>: byte buffers with the effect of \<open>memcpy\<close>, big-endian numbers, error numbers.
  \<^item> \<open>Ctr_Mode\<close>: counter mode of the kernel (\<open>linux/crypto/ctr.c\<close>, \<open>algapi.c\<close>): increments with
    carry, whole and partial blocks, in place and not. It is XOR with a keystream. The locale
    \<open>ctr_endpoint\<close> is the contract of one end, \<open>ctr_channel\<close> of two ends in step.
  \<^item> \<open>Priv_Crypto\<close>: \<open>crypto.c\<close>, every allocation outcome of a creation included; encryption of a
    message page by page is one run of the keystream. Interprets \<open>ctr_endpoint\<close>.
  \<^item> \<open>Aesni\<close>: the four-block and one-block loops of the assembly with the counter held in two
    registers, and the C around them. Interprets \<open>ctr_endpoint\<close> with the same stream.
  \<^item> \<open>Channel\<close>: interprets \<open>ctr_channel\<close> in both directions: any sequence of messages comes out of
    the other end unchanged.
  \<^item> \<open>Priv_Crypt_Drv\<close>: the driver as a state of heap, list, references and files; all commands; the
    locale \<open>kex_handler\<close> is what it needs of a key exchange. Commands keep the invariant and
    return.
  \<^item> \<open>Privnet\<close>: the address trie (locale \<open>mac_table\<close>: it is a finite map), its text interface and
    the packet hooks. \<open>Privsound\<close>: the rings of recorded and played frames.
  \<^item> \<open>Privos\<close> (model), \<open>Privos_Inv\<close> (counts, ownership and locks in every reachable state) and
    \<open>Privos_Swap\<close> (what reaches the device and what comes back).
  \<^item> \<open>Hash\<close> (model), \<open>Hash_Spec\<close> (locale \<open>md_hash\<close>: buffering, padding and HMAC, interpreted by
    both hash functions) and \<open>Hash_Ref\<close> (they are MD5 and SHA-1 of the standards);
    \<open>Tls_Prf\<close>: the key derivation function is that of RFC 2246.
  \<^item> \<open>Bignum\<close> (model of \<open>bignum.c\<close>), \<open>Bignum_Arith\<close>, \<open>Bignum_Mul\<close>, \<open>Bignum_Bytes\<close> (sums, differences,
    comparisons, products, shifts and conversions have the value they should).
  \<^item> \<open>Dhm\<close>: \<open>dhm.c\<close>. \<open>Kex\<close>: the exported operations and the message handler, which interprets
    \<open>kex_handler\<close>; the invariant of the driver in every reachable state.

  \<^bold>\<open>Bounds.\<close> Arithmetic keeps the width of the source: 64-bit limbs, 32-bit identifiers and
  counters that wrap. Statements on integers assume what the code enforces (at most 10000
  limbs) and that allocations succeed; statements on hashes assume updates below 4 GiB,
  which is where the code stops counting correctly.

  \<^bold>\<open>Not modelled.\<close> AES itself (a parameter). Interleaving below the granularity of an operation:
  each handler is one step, its locks only matter where the code can deadlock on itself.
  The scatter-gather walk of the kernel's cipher layer, template registration, printing of
  statistics, debug output, module boilerplate. The virtual memory hooks outside the swap
  path. Of \<open>bignum.c\<close> text and file input, greatest common divisors, inverses and primality,
  which the key exchange does not call. The patches to QEMU and SDL, the USB, input-switching
  and GPU code, and the user-space library above the cipher: device and event-loop code whose
  behaviour is that of libraries and hardware that the sources only call. The rest of the
  kernel and QEMU trees is unmodified upstream code.
\<close>

end
